(* ===== verification/Prelude.thy ===== *)
theory Prelude
  imports Main "HOL-Library.Word"
begin

text \<open>
  Shared vocabulary of the development.  It fixes the machine types the C sources use, the two
  readings of a byte array as a number (most significant byte first, least significant byte
  first), the C library operations on arrays (\<open>memcpy\<close>, \<open>memset\<close>, \<open>bzero\<close>) and the faults a C
  program can run into.  The generic lemmas on lists, folds and words that several components
  need are collected here; the collection \<open>byte_vals\<close> gathers the rules that compute the number a
  byte array stands for.
\<close>

unbundle bit_operations_syntax

section \<open>Machine types\<close>

type_synonym BYTE = "8 word"
type_synonym WORD = "32 word"
type_synonym u16 = "16 word"
type_synonym u64 = "64 word"

type_synonym ptr = nat

abbreviation (input) NULL :: ptr where "NULL \<equiv> 0"

text \<open>What can go wrong in C code that the type system does not exclude.\<close>

datatype c_fault =
    Out_Of_Bounds
  | Uninitialised_Read
  | Signed_Overflow
  | Division_By_Zero
  | Invalid_Pointer

text \<open>A computation that may run into a fault: the fault on the left, the result on the right.\<close>

type_synonym 'a c_result = "c_fault + 'a"

definition bind_c :: "'a c_result \<Rightarrow> ('a \<Rightarrow> 'b c_result) \<Rightarrow> 'b c_result" where
  "bind_c x f = (case x of Inl e \<Rightarrow> Inl e | Inr v \<Rightarrow> f v)"

lemma bind_c_simps [simp]: "bind_c (Inl e) f = Inl e" "bind_c (Inr v) f = f v"
  by (simp_all add: bind_c_def)

lemma bind_c_eq_Inr: "bind_c x f = Inr r \<longleftrightarrow> (\<exists>v. x = Inr v \<and> f v = Inr r)"
  by (cases x) simp_all

section \<open>Transition systems\<close>

text \<open>
  The programs that run in several threads are relations of atomic steps.  What every step keeps
  and the first state has holds in every state that can be reached.
\<close>

locale step_invariant =
  fixes step :: "'s \<Rightarrow> 's \<Rightarrow> bool" and start :: 's and inv :: "'s \<Rightarrow> bool"
  assumes first: "inv start"
    and kept: "step s s' \<Longrightarrow> inv s \<Longrightarrow> inv s'"
begin

lemma later: "step\<^sup>*\<^sup>* s s' \<Longrightarrow> inv s \<Longrightarrow> inv s'"
  by (induction rule: rtranclp_induct) (auto intro: kept)

lemma reach: "step\<^sup>*\<^sup>* start s \<Longrightarrow> inv s"
  by (rule later [OF _ first])

end

text \<open>
  Steps that use up work: a natural number decreases with each step, and a state with work left that
  is not final has a step.  Then every run is finite, and a run that cannot go on has ended in a
  final state.
\<close>

locale draining =
  fixes step :: "'s \<Rightarrow> 's \<Rightarrow> bool" and inv :: "'s \<Rightarrow> bool" and work :: "'s \<Rightarrow> nat" and final :: "'s \<Rightarrow> bool"
  assumes kept: "step s s' \<Longrightarrow> inv s \<Longrightarrow> inv s'"
    and less: "step s s' \<Longrightarrow> inv s \<Longrightarrow> work s' < work s"
    and enabled: "inv s \<Longrightarrow> \<not> final s \<Longrightarrow> \<exists>s'. step s s'"
begin

lemma later: "step\<^sup>*\<^sup>* s s' \<Longrightarrow> inv s \<Longrightarrow> inv s'"
  by (induction rule: rtranclp_induct) (auto intro: kept)

lemma bounded: "(step ^^ n) s s' \<Longrightarrow> inv s \<Longrightarrow> n + work s' \<le> work s"
proof (induction n arbitrary: s')
  case (Suc n)
  then obtain t where t: "(step ^^ n) s t" "step t s'"
    by auto
  with Suc.IH [OF t(1) Suc.prems(2)] less [OF t(2)] later [OF relpowp_imp_rtranclp [OF t(1)] Suc.prems(2)]
  show ?case by simp
qed simp

lemma stuck_final: "step\<^sup>*\<^sup>* s s' \<Longrightarrow> inv s \<Longrightarrow> \<not> (\<exists>t. step s' t) \<Longrightarrow> final s'"
  using later enabled by blast

lemma ends: "inv s \<Longrightarrow> \<exists>s'. step\<^sup>*\<^sup>* s s' \<and> \<not> (\<exists>t. step s' t) \<and> final s'"
proof (induction s rule: measure_induct_rule [of work])
  case (less s)
  show ?case
  proof (cases "\<exists>t. step s t")
    case False
    with enabled [OF less.prems] show ?thesis by blast
  next
    case True
    then obtain t where t: "step s t" by blast
    from less.IH [OF draining.less [OF draining_axioms t less.prems] kept [OF t less.prems]] t show ?thesis
      by (blast intro: converse_rtranclp_into_rtranclp)
  qed
qed

end

section \<open>Byte arrays\<close>

text \<open>\<open>memcpy (dst + off, src, n)\<close> and \<open>memset (dst, v, n)\<close> on arrays that are lists of cells.\<close>

definition memcpy_at :: "'a list \<Rightarrow> nat \<Rightarrow> 'a list \<Rightarrow> nat \<Rightarrow> 'a list" where
  "memcpy_at dst off src n = take off dst @ take n src @ drop (off + n) dst"

definition memset :: "'a list \<Rightarrow> 'a \<Rightarrow> nat \<Rightarrow> 'a list" where
  "memset dst v n = replicate n v @ drop n dst"

lemma length_memcpy_at [simp]:
  "off + n \<le> length dst \<Longrightarrow> n \<le> length src \<Longrightarrow> length (memcpy_at dst off src n) = length dst"
  by (simp add: memcpy_at_def)

lemma length_memset [simp]: "n \<le> length dst \<Longrightarrow> length (memset dst v n) = length dst"
  by (simp add: memset_def)

lemma memcpy_at_whole:
  "length dst = n \<Longrightarrow> length src = n \<Longrightarrow> memcpy_at dst 0 src n = src"
  by (simp add: memcpy_at_def)

section \<open>Numbers held in byte arrays\<close>

named_theorems byte_vals

primrec be_val :: "BYTE list \<Rightarrow> nat" where
  "be_val [] = 0"
| "be_val (x # xs) = unat x * 256 ^ length xs + be_val xs"

primrec le_val :: "BYTE list \<Rightarrow> nat" where
  "le_val [] = 0"
| "le_val (x # xs) = unat x + 256 * le_val xs"

lemma be_val_append [byte_vals]:
  "be_val (xs @ ys) = be_val xs * 256 ^ length ys + be_val ys"
  by (induction xs) (simp_all add: power_add algebra_simps)

lemma be_val_replicate_0 [byte_vals, simp]: "be_val (replicate n 0) = 0"
  by (induction n) simp_all

lemma le_val_append [byte_vals]:
  "le_val (xs @ ys) = le_val xs + 256 ^ length xs * le_val ys"
  by (induction xs) (simp_all add: algebra_simps)

lemma byte_less [simp]: "unat (b :: BYTE) < 256"
  using unsigned_less [of b] by simp

lemma be_val_less: "be_val xs < 256 ^ length xs"
proof (induction xs)
  case Nil
  then show ?case by simp
next
  case (Cons x xs)
  have "unat x * 256 ^ length xs + be_val xs < unat x * 256 ^ length xs + 256 ^ length xs"
    using Cons.IH by simp
  also have "\<dots> = Suc (unat x) * 256 ^ length xs"
    by simp
  also have "\<dots> \<le> 256 * 256 ^ length xs"
    by (rule mult_le_mono1) (metis Suc_leI byte_less)
  finally show ?case by simp
qed

lemma le_val_less: "le_val xs < 256 ^ length xs"
proof (induction xs)
  case Nil
  then show ?case by simp
next
  case (Cons x xs)
  have "unat x + 256 * le_val xs < 256 + 256 * le_val xs"
    by simp
  also have "\<dots> = 256 * Suc (le_val xs)"
    by simp
  also have "\<dots> \<le> 256 * 256 ^ length xs"
    using Cons.IH by (metis Suc_leI mult_le_mono2)
  finally show ?case by simp
qed

lemma be_val_inject:
  "length xs = length ys \<Longrightarrow> be_val xs = be_val ys \<Longrightarrow> xs = ys"
proof (induction xs ys rule: list_induct2)
  case Nil
  then show ?case by simp
next
  case (Cons x xs y ys)
  have lt: "be_val xs < 256 ^ length ys" "be_val ys < 256 ^ length ys"
    using be_val_less [of xs] be_val_less [of ys] Cons.hyps by simp_all
  have eq: "unat x * 256 ^ length ys + be_val xs = unat y * 256 ^ length ys + be_val ys"
    using Cons.prems Cons.hyps by simp
  have "unat x = unat y"
    using arg_cong [OF eq, of "\<lambda>n. n div 256 ^ length ys"] lt by simp
  moreover have "be_val xs = be_val ys"
    using arg_cong [OF eq, of "\<lambda>n. n mod 256 ^ length ys"] lt by simp
  ultimately show ?case
    using Cons.IH by (simp add: word_unat_eq_iff)
qed

lemma be_val_rev: "be_val (rev xs) = le_val xs"
  by (induction xs) (simp_all add: be_val_append algebra_simps)

text \<open>An array that is zero but for one cell.\<close>

lemma list_update_replicate:
  "i < n \<Longrightarrow> (replicate n z)[i := x] = replicate i z @ x # replicate (n - Suc i) z"
  by (simp add: upd_conv_take_nth_drop)

lemma be_val_update_replicate [byte_vals]:
  "i < n \<Longrightarrow> be_val ((replicate n 0)[i := x]) = unat x * 256 ^ (n - Suc i)"
  by (simp add: list_update_replicate be_val_append)

lemma le_val_replicate_0 [byte_vals, simp]: "le_val (replicate n 0) = 0"
  by (induction n) simp_all

lemma le_val_update_replicate [byte_vals]:
  "i < n \<Longrightarrow> le_val ((replicate n 0)[i := x]) = 256 ^ i * unat x"
  by (simp add: list_update_replicate le_val_append)

section \<open>Loops as folds\<close>

text \<open>
  A counting loop is a fold over the range of its index.  Iterations that leave the state alone
  can be dropped.
\<close>

lemma fold_filter_noop:
  assumes "Q s" "\<And>x s. Q s \<Longrightarrow> Q (f x s)"
    and "\<And>x s. x \<in> set xs \<Longrightarrow> Q s \<Longrightarrow> \<not> P x \<Longrightarrow> f x s = s"
  shows "fold f xs s = fold f (filter P xs) s"
  using assms by (induction xs arbitrary: s) auto

lemma fold_keeps: "P s \<Longrightarrow> (\<And>x s. P s \<Longrightarrow> P (f x s)) \<Longrightarrow> P (fold f xs s)"
  by (induction xs arbitrary: s) auto

lemma filter_rev_upt_single:
  "k < n \<Longrightarrow> (\<And>i. i < n \<Longrightarrow> P i \<longleftrightarrow> i = k) \<Longrightarrow> filter P (rev [0..<n]) = [k]"
proof -
  assume k: "k < n" and P: "\<And>i. i < n \<Longrightarrow> P i \<longleftrightarrow> i = k"
  have "filter P [0..<n] = filter (\<lambda>i. i = k) [0..<n]"
    by (rule filter_cong) (simp_all add: P)
  also have "\<dots> = [k]"
    using k by (induction n) (auto simp: less_Suc_eq)
  finally have "filter P [0..<n] = [k]" .
  then show ?thesis
    by (simp add: rev_filter [symmetric])
qed

text \<open>Writing cell \<open>i\<close> in iteration \<open>i\<close> of an upward loop builds the array from the left.\<close>

lemma update_next_cell:
  "length xs = n \<Longrightarrow> n < length ys \<Longrightarrow> (xs @ drop n ys)[n := v] = (xs @ [v]) @ drop (Suc n) ys"
  by (simp add: list_update_append Cons_nth_drop_Suc [symmetric])

section \<open>Words\<close>

lemma unat_ucast_byte_u16 [simp]: "unat (ucast (b :: BYTE) :: u16) = unat b"
  by (simp add: unsigned_ucast_eq take_bit_nat_eq_self_iff order.strict_trans [OF byte_less])

lemma unat_and_255: "unat (w AND 255 :: 'a::len word) = unat w mod 256"
proof -
  have "w AND 255 = take_bit 8 w"
    by (simp add: take_bit_eq_mask mask_eq_exp_minus_1)
  then have "unat (w AND 255) = take_bit 8 (unat w)"
    by (simp only: unsigned_take_bit_eq)
  then show ?thesis
    by (simp add: take_bit_eq_mod)
qed

lemma unat_push_bit_1 [simp]: "k < 8 \<Longrightarrow> unat (push_bit k 1 :: BYTE) = 2 ^ k"
  by (simp only: unsigned_push_bit_eq) (simp add: take_bit_nat_eq_self_iff push_bit_eq_mult)

lemma unat_2_power_byte [simp]: "k < 8 \<Longrightarrow> unat (2 ^ k :: BYTE) = 2 ^ k"
  using unat_push_bit_1 [of k] by simp

text \<open>A byte and its offset in the array determine the bit position.\<close>

lemma div_mod_8_sum:
  fixes i s :: nat
  shows "i div 8 + s div 8 = 31 \<and> s mod 8 = 7 - i mod 8 \<longleftrightarrow> i + s = 255"
proof -
  have split: "q1 + q2 = 31 \<and> r2 = 7 - r1 \<longleftrightarrow> (8 * q1 + r1) + (8 * q2 + r2) = 255"
    if "r1 < 8" "r2 < 8" for q1 q2 r1 r2 :: nat
  proof
    assume eq: "(8 * q1 + r1) + (8 * q2 + r2) = 255"
    with that have "q1 + q2 \<le> 31" "31 \<le> q1 + q2"
      by linarith+
    then have "q1 + q2 = 31"
      by simp
    with eq show "q1 + q2 = 31 \<and> r2 = 7 - r1"
      by linarith
  qed (use that in linarith)
  show ?thesis
    using split [of "i mod 8" "s mod 8" "i div 8" "s div 8"] by simp
qed

lemma add_mod_8: "(p + s) mod 8 = (p mod 8 + s mod 8) mod (8 :: nat)"
  by (simp add: mod_add_eq)

lemma add_div_8: "(p + s) div 8 = p div 8 + s div 8 + (p mod 8 + s mod 8) div (8 :: nat)"
  by (rule div_add1_eq)

end
