(* ===== verification/Uint256.thy ===== *)
theory Uint256
  imports Prelude
begin

text \<open>
  The 256-bit arithmetic of \<open>uint256.h\<close>.  The C functions take pointers to 32-byte arrays and
  write through the first one, and their results depend on which pointers coincide
  (\<open>uint256_exp\<close> even compares two pointers), so the model is over a store from addresses to
  arrays with address 0 as \<open>NULL\<close>.  The arrays a function declares for itself live in a store of
  its own, its frame.

  The numbers are held with the most significant byte in cell 0.  \<open>uint256_add\<close> nevertheless
  carries from cell 0 towards cell 31 and \<open>uint256_sl\<close> moves the carried bits to the wrong place
  unless the shift is a multiple of eight (or the bits do not cross a byte), so the arithmetic is
  not right on all inputs.  The lemmas show on which inputs it is: shifts by whole bytes,
  products with a power of 256, and every power of two, which is what the proof-of-work target
  is computed from.
\<close>

section \<open>The store\<close>

type_synonym store = "ptr \<Rightarrow> BYTE list"

definition zeros :: "BYTE list" where
  "zeros = replicate 32 0"

definition uint256_init :: "store \<Rightarrow> ptr \<Rightarrow> store" where
  "uint256_init st p =
     (if p = NULL then st else st(p := fold (\<lambda>i xs. xs[i := 0]) [0..<32] (st p)))"

section \<open>Shift left\<close>

definition uint256_sl_step ::
    "ptr \<Rightarrow> ptr \<Rightarrow> nat \<Rightarrow> nat \<Rightarrow> BYTE \<Rightarrow> nat \<Rightarrow> store \<times> BYTE \<Rightarrow> store \<times> BYTE" where
  "uint256_sl_step res a b move_n mask' i = (\<lambda>(st, carry).
     let j = i + b;
         st' = st(res := (st res)[i := push_bit move_n (st a ! j) OR carry])
     in (st', drop_bit move_n (st' a ! j AND mask')))"

definition uint256_sl :: "store \<Rightarrow> ptr \<Rightarrow> ptr \<Rightarrow> BYTE \<Rightarrow> store" where
  "uint256_sl st res a shift =
     (if res = NULL \<or> a = NULL then st
      else let b = unat (shift div 8);
               move_n = unat (shift mod 8);
               mask' = push_bit (8 - move_n) (0xff :: BYTE)
           in if shift = 0 then st(res := memcpy_at (st res) 0 (st a) 32)
              else fst (fold (uint256_sl_step res a b move_n mask') (rev [0..<32 - b]) (st, 0)))"

section \<open>Addition\<close>

definition uint256_add_step ::
    "ptr \<Rightarrow> BYTE list \<Rightarrow> BYTE list \<Rightarrow> nat \<Rightarrow> store \<times> u16 \<Rightarrow> store \<times> u16" where
  "uint256_add_step res aa bb i = (\<lambda>(st, temp).
     let temp' = drop_bit 8 temp + (ucast (aa ! i) + ucast (bb ! i))
     in (st(res := (st res)[i := ucast (temp' AND 0xff)]), temp'))"

definition uint256_add :: "store \<Rightarrow> ptr \<Rightarrow> ptr \<Rightarrow> ptr \<Rightarrow> store" where
  "uint256_add st res a b =
     (if res = NULL \<or> a = NULL \<or> b = NULL then st
      else let aa = memcpy_at zeros 0 (st a) 32;
               bb = memcpy_at zeros 0 (st b) 32
           in fst (fold (uint256_add_step res aa bb) [0..<32] (st, 0)))"

section \<open>Multiplication\<close>

text \<open>The frame of \<open>uint256_mul\<close>: the addresses of its four local arrays.\<close>

abbreviation (input) mul_temp :: ptr where "mul_temp \<equiv> 2"
abbreviation (input) mul_acc :: ptr where "mul_acc \<equiv> 3"
abbreviation (input) mul_aa :: ptr where "mul_aa \<equiv> 4"
abbreviation (input) mul_bb :: ptr where "mul_bb \<equiv> 5"

definition uint256_mul_step :: "nat \<Rightarrow> store \<Rightarrow> store" where
  "uint256_mul_step i fr =
     (if (fr mul_bb ! (i div 8)) AND push_bit (7 - i mod 8) 1 > 0
      then uint256_add (uint256_sl fr mul_temp mul_aa (word_of_nat (255 - i)))
             mul_acc mul_acc mul_temp
      else fr)"

definition uint256_mul_frame :: "BYTE list \<Rightarrow> BYTE list \<Rightarrow> store" where
  "uint256_mul_frame a b =
     (\<lambda>_. [])(mul_temp := zeros, mul_acc := zeros,
               mul_aa := memcpy_at zeros 0 a 32, mul_bb := memcpy_at zeros 0 b 32)"

definition uint256_mul :: "store \<Rightarrow> ptr \<Rightarrow> ptr \<Rightarrow> ptr \<Rightarrow> store" where
  "uint256_mul st res a b =
     (if res = NULL \<or> a = NULL \<or> b = NULL then st
      else let fr = fold uint256_mul_step (rev [0..<256]) (uint256_mul_frame (st a) (st b))
           in st(res := memcpy_at (st res) 0 (fr mul_acc) 32))"

section \<open>Exponentiation\<close>

text \<open>\<open>exp_res\<close> stands for the caller's array in the last multiplication of \<open>uint256_exp\<close>.\<close>

abbreviation (input) exp_temp :: ptr where "exp_temp \<equiv> 2"
abbreviation (input) exp_acc :: ptr where "exp_acc \<equiv> 3"
abbreviation (input) exp_res :: ptr where "exp_res \<equiv> 4"

lemma exp_halves:
  fixes e :: WORD
  assumes "e > 1"
  shows "unat (e div 2) < unat e" "unat ((e - 1) div 2) < unat e"
proof -
  have gt: "1 < unat e"
    using assms by (simp add: word_less_nat_alt)
  then show "unat (e div 2) < unat e"
    by (simp add: unat_div)
  have "unat ((e - 1) div 2) \<le> unat (e - 1)"
    by (simp add: unat_div)
  also have "\<dots> < unat e"
    using gt by (subst unat_minus_one) auto
  finally show "unat ((e - 1) div 2) < unat e" .
qed

function uint256_exp_loop :: "store \<Rightarrow> WORD \<Rightarrow> store" where
  "uint256_exp_loop fr e =
     (if e > 1 then
        if e mod 2 = 0
        then uint256_exp_loop (uint256_mul fr exp_acc exp_acc exp_acc) (e div 2)
        else let fr1 = uint256_mul fr exp_temp exp_acc exp_temp;
                 fr2 = uint256_mul fr1 exp_acc exp_acc exp_acc
             in uint256_exp_loop fr2 ((e - 1) div 2)
      else fr)"
  by pat_completeness auto

termination
  by (relation "measure (\<lambda>(fr, e). unat e)") (simp_all add: exp_halves)

declare uint256_exp_loop.simps [simp del]

definition uint256_exp :: "store \<Rightarrow> ptr \<Rightarrow> ptr \<Rightarrow> WORD \<Rightarrow> store" where
  "uint256_exp st res base e =
     (if res = NULL then st
      else if e = 0 then st(res := (fold (\<lambda>i xs. xs[i := 0]) [0..<31] (st res))[31 := 1])
      else let acc = (if res \<noteq> base then memcpy_at zeros 0 (st base) 32 else zeros);
               temp = zeros[31 := 1];
               fr = uint256_exp_loop ((\<lambda>_. [])(exp_temp := temp, exp_acc := acc)) e;
               out = uint256_mul (fr(exp_res := st res)) exp_res exp_acc exp_temp
           in st(res := out exp_res))"

section \<open>Zeroed arrays\<close>

lemma length_zeros [simp]: "length zeros = 32"
  by (simp add: zeros_def)

lemma nth_zeros [simp]: "i < 32 \<Longrightarrow> zeros ! i = 0"
  by (simp add: zeros_def)

lemma be_val_zeros [simp]: "be_val zeros = 0"
  by (simp add: zeros_def)

lemma fold_zero_cells:
  "n \<le> length xs \<Longrightarrow> fold (\<lambda>i xs. xs[i := z]) [0..<n] xs = replicate n z @ drop n xs"
proof (induction n)
  case 0
  then show ?case by simp
next
  case (Suc n)
  then show ?case
    by (simp add: update_next_cell replicate_append_same)
qed

lemma uint256_init_eq:
  "p \<noteq> NULL \<Longrightarrow> length (st p) = 32 \<Longrightarrow> uint256_init st p = st(p := zeros)"
  by (simp add: uint256_init_def fold_zero_cells zeros_def)

section \<open>What the shift computes\<close>

definition sl_carry :: "BYTE list \<Rightarrow> nat \<Rightarrow> nat \<Rightarrow> BYTE" where
  "sl_carry a m j =
     (if j < 32 then drop_bit m (a ! j AND push_bit (8 - m) 0xff) else 0)"

definition sl_byte :: "BYTE list \<Rightarrow> nat \<Rightarrow> nat \<Rightarrow> nat \<Rightarrow> BYTE" where
  "sl_byte a b m i = push_bit m (a ! (i + b)) OR sl_carry a m (Suc (i + b))"

lemma uint256_sl_step_eq:
  assumes "res \<noteq> a" "k + b < 32"
  shows "uint256_sl_step res a b m (push_bit (8 - m) 0xff) k (st, sl_carry (st a) m (Suc (k + b))) =
    (st(res := (st res)[k := sl_byte (st a) b m k]), sl_carry (st a) m (k + b))"
  using assms by (simp add: uint256_sl_step_def sl_byte_def sl_carry_def Let_def del: drop_bit_and)

lemma uint256_sl_fold:
  assumes "k \<le> n" "n + b = 32" "res \<noteq> a" "length (st res) = 32"
  shows "fold (uint256_sl_step res a b m (push_bit (8 - m) 0xff)) (rev [k..<n]) (st, 0) =
    (st(res := take k (st res) @ map (sl_byte (st a) b m) [k..<n] @ drop n (st res)),
     sl_carry (st a) m (k + b))"
  using assms(1)
proof (induction k rule: inc_induct)
  case base
  then show ?case
    using assms by (simp add: sl_carry_def)
next
  case (step k)
  have rg: "[k..<n] = k # [Suc k..<n]"
    using step.hyps by (simp add: upt_conv_Cons)
  have upd: "(take (Suc k) (st res) @ ys)[k := v] = take k (st res) @ v # ys" for ys v
    using step.hyps assms by (simp add: take_Suc_conv_app_nth list_update_append)
  let ?st = "st(res := take (Suc k) (st res) @ map (sl_byte (st a) b m) [Suc k..<n] @ drop n (st res))"
  have a: "?st a = st a"
    using assms by simp
  have "uint256_sl_step res a b m (push_bit (8 - m) 0xff) k (?st, sl_carry (?st a) m (Suc (k + b))) =
      (?st(res := (?st res)[k := sl_byte (?st a) b m k]), sl_carry (?st a) m (k + b))"
    using step.hyps assms by (intro uint256_sl_step_eq) auto
  moreover have "fold (uint256_sl_step res a b m (push_bit (8 - m) 0xff)) (rev [k..<n]) (st, 0) =
      uint256_sl_step res a b m (push_bit (8 - m) 0xff) k
        (fold (uint256_sl_step res a b m (push_bit (8 - m) 0xff)) (rev [Suc k..<n]) (st, 0))"
    by (simp add: rg)
  ultimately show ?case
    unfolding step.IH a by (simp only: fun_upd_same fun_upd_upd upd rg list.map append.simps add_Suc)
qed

lemma uint256_sl_eq:
  assumes "res \<noteq> NULL" "a \<noteq> NULL" "res \<noteq> a" "length (st res) = 32" "length (st a) = 32"
    and s: "s < 256"
  shows "uint256_sl st res a (word_of_nat s) =
    (if s = 0 then st(res := st a)
     else st(res := map (sl_byte (st a) (s div 8) (s mod 8)) [0..<32 - s div 8]
                    @ drop (32 - s div 8) (st res)))"
proof -
  have us: "unat (word_of_nat s :: BYTE) = s"
    using s by (simp add: unat_of_nat)
  have z: "(word_of_nat s :: BYTE) = 0 \<longleftrightarrow> s = 0"
    by (metis us unat_0_iff)
  have dm: "unat (word_of_nat s div 8 :: BYTE) = s div 8" "unat (word_of_nat s mod 8 :: BYTE) = s mod 8"
    by (simp_all add: unat_div unat_mod us)
  have f: "fold (uint256_sl_step res a (s div 8) (s mod 8) (push_bit (8 - s mod 8) 0xff))
      (rev [0..<32 - s div 8]) (st, 0) =
    (st(res := map (sl_byte (st a) (s div 8) (s mod 8)) [0..<32 - s div 8]
               @ drop (32 - s div 8) (st res)), sl_carry (st a) (s mod 8) (s div 8))"
    using uint256_sl_fold [of 0 "32 - s div 8" "s div 8" res a st "s mod 8"] assms by simp
  show ?thesis
    using assms f by (simp add: uint256_sl_def Let_def dm z memcpy_at_whole)
qed

text \<open>A shift by whole bytes into a zeroed array is a multiplication by a power of 256.\<close>

lemma byte_overflow_65280: "(65280 :: BYTE) = 0"
  by (simp add: word_unat_eq_iff)

lemma sl_byte_whole: "i + b < 32 \<Longrightarrow> sl_byte a b 0 i = a ! (i + b)"
  by (simp add: sl_byte_def sl_carry_def byte_overflow_65280)

lemma uint256_sl_bytes:
  assumes "res \<noteq> NULL" "a \<noteq> NULL" "res \<noteq> a" "st res = zeros" "length (st a) = 32" "b < 32"
  shows "uint256_sl st res a (word_of_nat (8 * b)) = st(res := drop b (st a) @ replicate b 0)"
proof -
  have "map (sl_byte (st a) b 0) [0..<32 - b] = drop b (st a)"
    using assms by (auto intro!: nth_equalityI simp: sl_byte_whole add.commute)
  then show ?thesis
    using assms uint256_sl_eq [of res a st "8 * b"] by (auto simp: zeros_def)
qed

section \<open>What the addition computes\<close>

text \<open>\<open>add_temp a b n\<close> is the value of \<open>temp\<close> after \<open>n\<close> iterations.\<close>

primrec add_temp :: "BYTE list \<Rightarrow> BYTE list \<Rightarrow> nat \<Rightarrow> u16" where
  "add_temp a b 0 = 0"
| "add_temp a b (Suc n) = drop_bit 8 (add_temp a b n) + (ucast (a ! n) + ucast (b ! n))"

definition add_bytes :: "BYTE list \<Rightarrow> BYTE list \<Rightarrow> nat \<Rightarrow> BYTE list" where
  "add_bytes a b n = map (\<lambda>i. ucast (add_temp a b (Suc i) AND 0xff)) [0..<n]"

lemma length_add_bytes [simp]: "length (add_bytes a b n) = n"
  by (simp add: add_bytes_def)

lemma uint256_add_step_eq:
  assumes "n < length (st res)"
  shows "uint256_add_step res aa bb n (st(res := add_bytes aa bb n @ drop n (st res)), add_temp aa bb n) =
    (st(res := add_bytes aa bb (Suc n) @ drop (Suc n) (st res)), add_temp aa bb (Suc n))"
  using assms by (simp add: uint256_add_step_def Let_def update_next_cell add_bytes_def)

lemma uint256_add_fold:
  assumes "n \<le> length (st res)"
  shows "fold (uint256_add_step res aa bb) [0..<n] (st, 0) =
    (st(res := add_bytes aa bb n @ drop n (st res)), add_temp aa bb n)"
  using assms
proof (induction n)
  case 0
  then show ?case by (simp add: add_bytes_def)
next
  case (Suc n)
  have "fold (uint256_add_step res aa bb) [0..<Suc n] (st, 0) =
      uint256_add_step res aa bb n (fold (uint256_add_step res aa bb) [0..<n] (st, 0))"
    by simp
  also have "fold (uint256_add_step res aa bb) [0..<n] (st, 0) =
      (st(res := add_bytes aa bb n @ drop n (st res)), add_temp aa bb n)"
    by (rule Suc.IH) (use Suc.prems in simp)
  also have "uint256_add_step res aa bb n \<dots> =
      (st(res := add_bytes aa bb (Suc n) @ drop (Suc n) (st res)), add_temp aa bb (Suc n))"
    by (rule uint256_add_step_eq) (use Suc.prems in simp)
  finally show ?case .
qed

lemma uint256_add_eq:
  assumes "res \<noteq> NULL" "a \<noteq> NULL" "b \<noteq> NULL"
    "length (st res) = 32" "length (st a) = 32" "length (st b) = 32"
  shows "uint256_add st res a b = st(res := add_bytes (st a) (st b) 32)"
  using assms uint256_add_fold [of 32 st res]
  by (simp add: uint256_add_def memcpy_at_whole)

lemma unat_add_temp_Suc:
  "unat (add_temp a b (Suc n)) = unat (add_temp a b n) div 256 + unat (a ! n) + unat (b ! n)"
proof -
  have "unat (add_temp a b n) < 65536"
    using unsigned_less [of "add_temp a b n"] by simp
  then have d: "unat (add_temp a b n) div 256 < 256"
    by simp
  have "unat (a ! n) + unat (b ! n) + unat (add_temp a b n) div 256 < 256 + 256 + 256"
    using d byte_less [of "a ! n"] byte_less [of "b ! n"] by linarith
  then show ?thesis
    by (simp add: unat_word_ariths unat_drop_bit_eq drop_bit_eq_div)
qed

text \<open>
  The carry runs from cell 0 upwards, so the addition is addition of the numbers read with the
  least significant byte first.
\<close>

lemma add_bytes_le_val:
  assumes "n \<le> length a" "n \<le> length b"
  shows "le_val (add_bytes a b n) + 256 ^ n * (unat (add_temp a b n) div 256) =
    le_val (take n a) + le_val (take n b)"
  using assms
proof (induction n)
  case 0
  then show ?case by (simp add: add_bytes_def)
next
  case (Suc n)
  let ?t = "unat (add_temp a b (Suc n))"
  have last: "add_bytes a b (Suc n) = add_bytes a b n @ [ucast (add_temp a b (Suc n) AND 0xff)]"
    by (simp add: add_bytes_def)
  have cell: "unat (ucast (add_temp a b (Suc n) AND 0xff) :: BYTE) = ?t mod 256"
    by (simp add: unsigned_ucast_eq take_bit_eq_mod unat_and_255 del: add_temp.simps)
  have tk: "take (Suc n) a = take n a @ [a ! n]" "take (Suc n) b = take n b @ [b ! n]"
    using Suc.prems by (simp_all add: take_Suc_conv_app_nth)
  have "256 ^ n * (?t mod 256) + 256 ^ Suc n * (?t div 256) =
      256 ^ n * (?t mod 256 + 256 * (?t div 256))"
    by (simp only: power_Suc distrib_left mult.assoc mult.commute [of 256])
  then have "le_val (add_bytes a b (Suc n)) + 256 ^ Suc n * (?t div 256) =
      le_val (add_bytes a b n) + 256 ^ n * ?t"
    by (simp add: last le_val_append cell del: add_temp.simps)
  also have "\<dots> = le_val (add_bytes a b n) + 256 ^ n * (unat (add_temp a b n) div 256)
      + 256 ^ n * unat (a ! n) + 256 ^ n * unat (b ! n)"
    by (simp add: unat_add_temp_Suc distrib_left del: add_temp.simps)
  also have "\<dots> = le_val (take (Suc n) a) + le_val (take (Suc n) b)"
    using Suc by (simp add: tk le_val_append)
  finally show ?case .
qed

lemma add_bytes_zero:
  assumes "length a = 32" shows "add_bytes zeros a 32 = a"
proof (rule be_val_inject [of "rev _" "rev _", simplified rev_is_rev_conv])
  show "length (rev (add_bytes zeros a 32)) = length (rev a)"
    using assms by simp
next
  have z: "le_val (take 32 zeros) = 0"
    by (simp add: be_val_rev [symmetric] zeros_def)
  have "le_val (add_bytes zeros a 32) + 256 ^ 32 * (unat (add_temp zeros a 32) div 256) = le_val a"
    using add_bytes_le_val [of 32 zeros a] assms z by simp
  moreover have "le_val a < 256 ^ 32"
    using le_val_less [of a] assms by simp
  ultimately show "be_val (rev (add_bytes zeros a 32)) = be_val (rev a)"
    unfolding be_val_rev by (cases "unat (add_temp zeros a 32) div 256 = 0") auto
qed

section \<open>Products with a power of two\<close>

definition pow2 :: "nat \<Rightarrow> BYTE list" where
  "pow2 p = (if p < 256 then zeros[31 - p div 8 := push_bit (p mod 8) 1] else zeros)"

lemma length_pow2 [simp]: "length (pow2 p) = 32"
  by (simp add: pow2_def)

lemma nth_pow2:
  "i < 32 \<Longrightarrow> pow2 p ! i = (if i + p div 8 = 31 then push_bit (p mod 8) 1 else 0)"
  by (auto simp: pow2_def nth_list_update)

lemma be_val_pow2: "be_val (pow2 p) = 2 ^ p mod 2 ^ 256"
proof (cases "p < 256")
  case True
  then have "p div 8 < 32"
    by simp
  then have "be_val (pow2 p) = 2 ^ (p mod 8) * 256 ^ (p div 8)"
    using True
    by (simp add: pow2_def zeros_def be_val_update_replicate)
  also have "\<dots> = 2 ^ (p mod 8) * (2 ^ 8) ^ (p div 8)"
    by simp
  also have "\<dots> = 2 ^ (p mod 8 + 8 * (p div 8))"
    by (simp only: power_add power_mult)
  finally have "be_val (pow2 p) = 2 ^ p"
    by simp
  moreover have "(2 :: nat) ^ p < 2 ^ 256"
    by (rule power_strict_increasing) (use True in simp_all)
  ultimately show ?thesis
    by (simp only: mod_less)
next
  case False
  then have "(2 :: nat) ^ 256 dvd 2 ^ p"
    by (intro le_imp_power_dvd) simp
  then have "(2 :: nat) ^ p mod 2 ^ 256 = 0"
    by (simp only: dvd_eq_mod_eq_0)
  moreover have "be_val (pow2 p) = 0"
    using False by (simp add: pow2_def)
  ultimately show ?thesis
    by (simp only:)
qed

lemma push_bit_1_and:
  assumes "a < 8"
  shows "(push_bit a 1 AND push_bit b 1 > (0 :: BYTE)) \<longleftrightarrow> a = b"
proof (cases "a = b")
  case True
  have "unat (push_bit a 1 :: BYTE) \<noteq> 0"
    using assms by (simp only: unat_push_bit_1) simp
  with True show ?thesis by (simp add: word_gt_0 unat_0_iff)
next
  case False
  have "push_bit a 1 AND push_bit b 1 = (0 :: BYTE)"
    using False by (auto intro!: bit_word_eqI simp: bit_simps)
  with False show ?thesis by simp
qed

lemma uint256_sl_other: "p \<noteq> res \<Longrightarrow> uint256_sl st res a s p = st p"
proof -
  assume p: "p \<noteq> res"
  have "fst (fold (uint256_sl_step res a b m k) xs (st, 0)) p = st p" for b m k xs
    by (rule fold_keeps)
      (use p in \<open>auto simp: uint256_sl_step_def Let_def split: prod.splits\<close>)
  with p show ?thesis
    by (simp add: uint256_sl_def Let_def)
qed

lemma uint256_add_other: "p \<noteq> res \<Longrightarrow> uint256_add st res a b p = st p"
proof -
  assume p: "p \<noteq> res"
  have "fst (fold (uint256_add_step res aa bb) xs (st, 0)) p = st p" for aa bb xs
    by (rule fold_keeps)
      (use p in \<open>auto simp: uint256_add_step_def Let_def split: prod.splits\<close>)
  with p show ?thesis
    by (simp add: uint256_add_def Let_def)
qed

text \<open>The product with the power of two \<open>s\<close> shifts the other factor by \<open>s\<close>, once.\<close>

definition shifted :: "BYTE list \<Rightarrow> nat \<Rightarrow> BYTE list" where
  "shifted a s =
     (if s = 0 then a
      else if s < 256 then map (sl_byte a (s div 8) (s mod 8)) [0..<32 - s div 8] @ replicate (s div 8) 0
      else zeros)"

lemma length_shifted [simp]: "length a = 32 \<Longrightarrow> length (shifted a s) = 32"
  by (auto simp: shifted_def)

lemma uint256_mul_step_cond:
  assumes "fr mul_bb = pow2 s" "i < 256"
  shows "(fr mul_bb ! (i div 8)) AND push_bit (7 - i mod 8) 1 > 0 \<longleftrightarrow> i + s = 255"
proof -
  have "i div 8 < 32"
    using assms by auto
  then have "(fr mul_bb ! (i div 8)) AND push_bit (7 - i mod 8) 1 > 0 \<longleftrightarrow>
      i div 8 + s div 8 = 31 \<and> s mod 8 = 7 - i mod 8"
    using assms push_bit_1_and [of "s mod 8" "7 - i mod 8"] by (simp add: nth_pow2)
  also have "\<dots> \<longleftrightarrow> i + s = 255"
    by (rule div_mod_8_sum)
  finally show ?thesis .
qed

lemma uint256_mul_pow2:
  assumes "res \<noteq> NULL" "a \<noteq> NULL" "b \<noteq> NULL"
    and len: "length (st res) = 32" "length (st a) = 32" and b: "st b = pow2 s"
  shows "uint256_mul st res a b = st(res := shifted (st a) s)"
proof -
  let ?fr = "uint256_mul_frame (st a) (st b)"
  let ?out = "fold uint256_mul_step (rev [0..<256]) ?fr"
  have fr: "?fr mul_temp = zeros" "?fr mul_acc = zeros" "?fr mul_aa = st a" "?fr mul_bb = pow2 s"
    by (simp_all add: uint256_mul_frame_def memcpy_at_whole len b)
  have out: "?out = fold uint256_mul_step (filter (\<lambda>i. i + s = 255) (rev [0..<256])) ?fr"
  proof (rule fold_filter_noop [where Q = "\<lambda>fr. fr mul_bb = pow2 s"])
    show "?fr mul_bb = pow2 s" by (rule fr)
    show "uint256_mul_step i fr mul_bb = pow2 s" if "fr mul_bb = pow2 s" for i fr
      using that by (simp add: uint256_mul_step_def uint256_add_other uint256_sl_other)
    show "uint256_mul_step i fr = fr"
      if "i \<in> set (rev [0..<256])" "fr mul_bb = pow2 s" "i + s \<noteq> 255" for i fr
      using that uint256_mul_step_cond [of fr s i] by (simp add: uint256_mul_step_def)
  qed
  have "?out mul_acc = shifted (st a) s"
  proof (cases "s < 256")
    case True
    then have one: "filter (\<lambda>i. i + s = 255) (rev [0..<256]) = [255 - s]"
      by (intro filter_rev_upt_single) auto
    have sl: "uint256_sl ?fr mul_temp mul_aa (word_of_nat s) = ?fr(mul_temp := shifted (st a) s)"
      using True uint256_sl_eq [of mul_temp mul_aa ?fr s] fr len
      by (auto simp: shifted_def zeros_def)
    have "uint256_mul_step (255 - s) ?fr = uint256_add (?fr(mul_temp := shifted (st a) s)) mul_acc mul_acc mul_temp"
      using True uint256_mul_step_cond [of ?fr s "255 - s"] fr sl
      by (simp add: uint256_mul_step_def)
    then show ?thesis
      using fr len by (simp add: out one uint256_add_eq add_bytes_zero)
  next
    case False
    then have none: "filter (\<lambda>i. i + s = 255) (rev [0..<256]) = []"
      by (auto simp: filter_empty_conv)
    from False show ?thesis
      using fr by (simp add: out none shifted_def)
  qed
  then show ?thesis
    using assms by (simp add: uint256_mul_def memcpy_at_whole)
qed

text \<open>
  Two powers of two multiply correctly when the bits of the product stay inside a byte, and in
  the one case of crossing bytes that repeated squaring runs into, bit 4 times bit 4.
\<close>

definition no_cross :: "nat \<Rightarrow> nat \<Rightarrow> bool" where
  "no_cross p s \<longleftrightarrow> p mod 8 + s mod 8 < 8 \<or> p mod 8 = 4 \<and> s mod 8 = 4"

lemma sl_carry_pow2:
  assumes "p mod 8 + m < 8" "m < 8" "j < 32"
  shows "sl_carry (pow2 p) m j = 0"
proof -
  have "push_bit (p mod 8) 1 AND push_bit (8 - m) 255 = (0 :: BYTE)"
    using assms by (auto intro!: bit_word_eqI simp: bit_simps)
  with assms show ?thesis
    by (simp add: sl_carry_def nth_pow2 del: drop_bit_and push_bit_of_1)
qed

lemma sl_byte_pow2:
  assumes "p mod 8 + s mod 8 < 8" "i + s div 8 < 32"
  shows "sl_byte (pow2 p) (s div 8) (s mod 8) i = pow2 (p + s) ! i"
proof -
  have m: "(p + s) mod 8 = p mod 8 + s mod 8" "(p + s) div 8 = p div 8 + s div 8"
    using assms(1) by (metis add_mod_8 mod_less, metis add_div_8 div_less add_0_right)
  have c: "sl_carry (pow2 p) (s mod 8) (Suc (i + s div 8)) = 0"
    using sl_carry_pow2 [of p "s mod 8" "Suc (i + s div 8)"] assms
    by (cases "Suc (i + s div 8) < 32") (simp_all add: sl_carry_def)
  show ?thesis
    using assms by (auto simp: sl_byte_def c nth_pow2 m push_bit_eq_mult power_add
      add.commute add.left_commute)
qed

lemma sl_byte_pow2_4:
  assumes "p mod 8 = 4" "s mod 8 = 4" "i + s div 8 < 32"
  shows "sl_byte (pow2 p) (s div 8) (s mod 8) i = pow2 (p + s) ! i"
proof -
  have m: "(p + s) mod 8 = 0" "(p + s) div 8 = Suc (p div 8 + s div 8)"
    using assms(1,2) add_mod_8 [of p s] add_div_8 [of p s] by simp_all
  have o: "push_bit 4 (16 :: BYTE) = 0" "drop_bit 4 (16 AND 240 :: BYTE) = 1"
    by (simp_all add: word_unat_eq_iff)
  show ?thesis
    using assms o
    by (auto simp: sl_byte_def sl_carry_def nth_pow2 m)
qed

lemma shifted_pow2:
  assumes "no_cross p s" shows "shifted (pow2 p) s = pow2 (p + s)"
proof (cases "s < 256")
  case True
  show ?thesis
  proof (rule nth_equalityI)
    fix i assume "i < length (shifted (pow2 p) s)"
    then have i: "i < 32" by simp
    have "s div 8 \<le> (p + s) div 8"
      by (rule div_le_mono) simp
    then have big: "pow2 (p + s) ! i = 0" if "32 \<le> i + s div 8"
      using i that by (simp add: nth_pow2)
    show "shifted (pow2 p) s ! i = pow2 (p + s) ! i"
    proof (cases "i + s div 8 < 32")
      case inside: True
      then have "sl_byte (pow2 p) (s div 8) (s mod 8) i = pow2 (p + s) ! i"
        using assms sl_byte_pow2 [of p s i] sl_byte_pow2_4 [of p s i] by (auto simp: no_cross_def)
      moreover have "i < 32 - s div 8"
        using inside by simp
      ultimately show ?thesis
        using True by (simp add: shifted_def nth_append)
    next
      case outside: False
      then have "s \<noteq> 0" "\<not> i < 32 - s div 8" "32 \<le> i + s div 8"
        using i by auto
      then show ?thesis
        using True i big by (simp add: shifted_def nth_append)
    qed
  qed simp
next
  case False
  then show ?thesis
    by (simp add: shifted_def pow2_def)
qed

lemma no_cross_power:
  assumes "t < 2 ^ i" shows "no_cross (2 ^ i) t" "no_cross (2 ^ i) (2 ^ i)"
proof -
  have "no_cross (2 ^ i) t \<and> no_cross (2 ^ i) (2 ^ i)"
  proof (cases "i < 3")
    case True
    then have "i = 0 \<or> i = 1 \<or> i = 2"
      by auto
    with assms show ?thesis
      by (auto simp: no_cross_def)
  next
    case False
    then have "i = 3 + (i - 3)"
      by simp
    then have "(2 :: nat) ^ i mod 8 = 0"
      using power_add [of "2 :: nat" 3 "i - 3"] by (simp del: power_add)
    then show ?thesis by (simp add: no_cross_def)
  qed
  then show "no_cross (2 ^ i) t" "no_cross (2 ^ i) (2 ^ i)"
    by blast+
qed

definition exp_inv :: "store \<Rightarrow> nat \<Rightarrow> nat \<Rightarrow> bool" where
  "exp_inv fr i t \<longleftrightarrow> fr exp_acc = pow2 (2 ^ i) \<and> fr exp_temp = pow2 t \<and> t < 2 ^ i"

lemma shifted_square: "shifted (pow2 (2 ^ i)) (2 ^ i) = pow2 (2 * 2 ^ i)"
  using shifted_pow2 [OF no_cross_power(2) [of 0 i]] by (simp add: mult_2)

lemma exp_inv_square:
  "exp_inv fr i t \<Longrightarrow> exp_inv (uint256_mul fr exp_acc exp_acc exp_acc) (Suc i) t"
  by (simp add: exp_inv_def uint256_mul_pow2 [where s = "2 ^ i"] shifted_square)

lemma exp_inv_accumulate:
  assumes "exp_inv fr i t"
  shows "exp_inv (uint256_mul (uint256_mul fr exp_temp exp_acc exp_temp) exp_acc exp_acc exp_acc)
    (Suc i) (2 ^ i + t)"
proof -
  let ?fr = "uint256_mul fr exp_temp exp_acc exp_temp"
  have "?fr = fr(exp_temp := pow2 (2 ^ i + t))"
    using assms by (simp add: exp_inv_def uint256_mul_pow2 [where s = t] shifted_pow2 no_cross_power)
  then show ?thesis
    using assms
    by (simp add: exp_inv_def uint256_mul_pow2 [where s = "2 ^ i"] shifted_square)
qed

lemma uint256_exp_loop_inv:
  assumes "exp_inv fr i t" "0 < e"
  shows "\<exists>i' t'. exp_inv (uint256_exp_loop fr e) i' t' \<and> 2 ^ i' + t' = 2 ^ i * unat e + t"
  using assms
proof (induction fr e arbitrary: i t rule: uint256_exp_loop.induct)
  case (1 fr e)
  show ?case
  proof (cases "e > 1")
    case False
    then have "e = 1"
      using "1.prems"(2) by (simp add: word_less_nat_alt word_le_nat_alt word_unat_eq_iff not_less)
    then show ?thesis
      using "1.prems"(1) by (auto simp: uint256_exp_loop.simps [of fr 1])
  next
    case True
    then have gt: "1 < unat e"
      by (simp add: word_less_nat_alt)
    show ?thesis
    proof (cases "e mod 2 = 0")
      case even: True
      then have "unat e mod 2 = 0"
        by (simp add: word_unat_eq_iff unat_mod)
      then have half: "unat e = 2 * unat (e div 2)"
        using div_mult_mod_eq [of "unat e" 2] by (simp add: unat_div)
      then have pos: "0 < e div 2"
        using gt by (simp add: word_less_nat_alt)
      from "1.IH"(1) [OF True even exp_inv_square [OF "1.prems"(1)] pos] show ?thesis
        using True even half by (simp add: uint256_exp_loop.simps [of fr e] algebra_simps)
    next
      case odd: False
      have "unat e mod 2 \<noteq> 0"
        using odd by (simp add: word_unat_eq_iff unat_mod)
      moreover have "unat (e - 1) = unat e - 1"
        by (rule unat_minus_one) (use gt in auto)
      ultimately have half: "unat e = 2 * unat ((e - 1) div 2) + 1"
        using gt unfolding unat_div by (simp only: unsigned_numeral) (simp, presburger)
      then have pos: "0 < (e - 1) div 2"
        using gt by (auto simp: word_less_nat_alt)
      from "1.IH"(2) [OF True odd refl refl exp_inv_accumulate [OF "1.prems"(1)] pos] show ?thesis
        using True odd half by (simp add: uint256_exp_loop.simps [of fr e] Let_def algebra_simps)
    qed
  qed
qed

section \<open>Values of products and powers\<close>

lemma be_val_shift_bytes:
  assumes "length a = 32" "k \<le> 32"
  shows "be_val (drop k a @ replicate k 0) = be_val a * 256 ^ k mod 256 ^ 32"
proof -
  have "be_val a = be_val (take k a @ drop k a)"
    by simp
  also have "\<dots> = be_val (take k a) * 256 ^ (32 - k) + be_val (drop k a)"
    using assms by (simp only: be_val_append length_drop)
  finally have "be_val a * 256 ^ k =
      be_val (take k a) * (256 ^ (32 - k) * 256 ^ k) + be_val (drop k a) * 256 ^ k"
    by (simp only: distrib_right mult.assoc)
  also have "256 ^ (32 - k) * 256 ^ k = (256 ^ 32 :: nat)"
    using assms by (simp only: power_add [symmetric] le_add_diff_inverse2)
  finally have eq: "be_val a * 256 ^ k = be_val (take k a) * 256 ^ 32 + be_val (drop k a) * 256 ^ k" .
  have "be_val (drop k a @ replicate k 0) = be_val (drop k a) * 256 ^ k"
    by (simp add: be_val_append)
  moreover have "be_val (drop k a @ replicate k 0) < 256 ^ 32"
    using be_val_less [of "drop k a @ replicate k 0"] assms by simp
  ultimately show ?thesis
    by (simp only: eq mod_mult_self3 mod_less)
qed

lemma shifted_bytes:
  assumes "length a = 32" "k < 32"
  shows "shifted a (8 * k) = drop k a @ replicate k 0"
proof -
  have "map (sl_byte a k 0) [0..<32 - k] = drop k a"
    using assms by (auto intro!: nth_equalityI simp: sl_byte_whole add.commute)
  with assms show ?thesis by (simp add: shifted_def)
qed

lemma pow2_bytes: "be_val (pow2 (8 * k)) = 256 ^ k mod 256 ^ 32"
proof -
  have "(2 :: nat) ^ (8 * k) = 256 ^ k" "(2 :: nat) ^ 256 = 256 ^ 32"
    using power_mult [of "2 :: nat" 8 k] by simp_all
  then show ?thesis
    by (simp only: be_val_pow2)
qed

lemma uint256_mul_bytes:
  assumes "res \<noteq> NULL" "a \<noteq> NULL" "b \<noteq> NULL" "length (st res) = 32" "length (st a) = 32"
    and "st b = pow2 (8 * k)"
  shows "be_val (uint256_mul st res a b res) = be_val (st a) * 256 ^ k mod 256 ^ 32"
proof (cases "k < 32")
  case True
  then have "uint256_mul st res a b res = drop k (st a) @ replicate k 0"
    using assms by (simp add: uint256_mul_pow2 shifted_bytes)
  then show ?thesis
    using be_val_shift_bytes [OF assms(5), of k] True by (simp only: less_imp_le)
next
  case False
  then have "(256 :: nat) ^ 32 dvd be_val (st a) * 256 ^ k"
    by (intro dvd_mult le_imp_power_dvd) simp
  then have "be_val (st a) * 256 ^ k mod 256 ^ 32 = 0"
    by (simp only: dvd_eq_mod_eq_0)
  moreover have "be_val (uint256_mul st res a b res) = 0"
    using False assms by (simp add: uint256_mul_pow2 shifted_def)
  ultimately show ?thesis
    by (simp only:)
qed

text \<open>Every power of two comes out right, and so the base of every proof-of-work target does.\<close>

lemma uint256_exp_pow2:
  assumes "res \<noteq> NULL" "res \<noteq> base" "length (st res) = 32" "st base = zeros[31 := 2]"
  shows "uint256_exp st res base e = st(res := pow2 (unat e))"
proof (cases "e = 0")
  case True
  have "(fold (\<lambda>i xs. xs[i := 0]) [0..<31] (st res))[31 := 1] = pow2 0"
    using assms(3) by (simp add: fold_zero_cells pow2_def zeros_def list_update_append
      list_update_replicate Cons_nth_drop_Suc [symmetric, of 31])
  with True assms show ?thesis
    by (simp add: uint256_exp_def)
next
  case False
  have base: "zeros[31 := 2] = pow2 1" and one: "zeros[31 := 1] = pow2 0"
    by (simp_all add: pow2_def)
  let ?fr0 = "(\<lambda>_. [])(exp_temp := zeros[31 := 1], exp_acc := memcpy_at zeros 0 (st base) 32)"
  have "exp_inv ?fr0 0 0"
    using assms by (simp add: exp_inv_def memcpy_at_whole base one)
  moreover have "0 < e"
    using False by (simp add: word_gt_0)
  ultimately obtain i t where fr: "exp_inv (uint256_exp_loop ?fr0 e) i t" and sum: "2 ^ i + t = unat e"
    using uint256_exp_loop_inv [of ?fr0 0 0 e] by auto
  have "uint256_mul ((uint256_exp_loop ?fr0 e)(exp_res := st res)) exp_res exp_acc exp_temp exp_res = pow2 (2 ^ i + t)"
    using fr assms by (simp add: exp_inv_def uint256_mul_pow2 [where s = t] shifted_pow2 no_cross_power)
  with False assms sum show ?thesis
    by (simp add: uint256_exp_def Let_def)
qed

section \<open>Arrays keep their length\<close>

definition arrays_ok :: "store \<Rightarrow> bool" where
  "arrays_ok st \<longleftrightarrow> (\<forall>p. p \<noteq> NULL \<longrightarrow> length (st p) = 32)"

lemma arrays_okD: "arrays_ok st \<Longrightarrow> p \<noteq> NULL \<Longrightarrow> length (st p) = 32"
  by (simp add: arrays_ok_def)

lemma arrays_ok_upd: "arrays_ok st \<Longrightarrow> length xs = 32 \<Longrightarrow> arrays_ok (st(p := xs))"
  by (simp add: arrays_ok_def)

lemma uint256_sl_arrays_ok: "arrays_ok st \<Longrightarrow> arrays_ok (uint256_sl st res a s)"
proof -
  assume ok: "arrays_ok st"
  have "length (fst (fold (uint256_sl_step res a b m k) xs (st, 0)) p) = 32"
    if "p \<noteq> NULL" for b m k xs p
    by (rule fold_keeps)
      (use ok that in \<open>auto simp: arrays_ok_def uint256_sl_step_def Let_def split: prod.splits\<close>)
  with ok show ?thesis
    by (auto simp: uint256_sl_def Let_def arrays_ok_def)
qed

lemma uint256_add_arrays_ok: "arrays_ok st \<Longrightarrow> arrays_ok (uint256_add st res a b)"
proof -
  assume ok: "arrays_ok st"
  have "length (fst (fold (uint256_add_step res aa bb) xs (st, 0)) p) = 32"
    if "p \<noteq> NULL" for aa bb xs p
    by (rule fold_keeps)
      (use ok that in \<open>auto simp: arrays_ok_def uint256_add_step_def Let_def split: prod.splits\<close>)
  with ok show ?thesis
    by (auto simp: uint256_add_def Let_def arrays_ok_def)
qed

text \<open>In the frame of a multiplication only the accumulator and the shifted factor are written.\<close>

lemma uint256_mul_step_len:
  assumes "length (fr mul_acc) = 32" "length (fr mul_temp) = 32" "length (fr mul_aa) = 32"
  shows "length (uint256_mul_step i fr mul_acc) = 32 \<and> length (uint256_mul_step i fr mul_temp) = 32
    \<and> length (uint256_mul_step i fr mul_aa) = 32"
proof -
  let ?sl = "uint256_sl fr mul_temp mul_aa (word_of_nat (255 - i))"
  have "length (?sl mul_temp) = 32"
    using assms uint256_sl_eq [of mul_temp mul_aa fr "255 - i"] by simp
  with assms show ?thesis
    by (auto simp: uint256_mul_step_def uint256_add_other uint256_sl_other uint256_add_eq)
qed

lemma uint256_mul_arrays_ok:
  assumes "arrays_ok st" shows "arrays_ok (uint256_mul st res a b)"
proof (cases "res = NULL \<or> a = NULL \<or> b = NULL")
  case True
  with assms show ?thesis
    by (auto simp: uint256_mul_def)
next
  case False
  let ?P = "\<lambda>fr. length (fr mul_acc) = 32 \<and> length (fr mul_temp) = 32 \<and> length (fr mul_aa) = (32 :: nat)"
  have "?P (uint256_mul_frame (st a) (st b))"
    using assms False by (simp add: uint256_mul_frame_def arrays_okD memcpy_at_whole)
  then have "?P (fold uint256_mul_step (rev [0..<256]) (uint256_mul_frame (st a) (st b)))"
    by (rule fold_keeps [where P = ?P]) (use uint256_mul_step_len in blast)
  with assms False show ?thesis
    by (simp add: uint256_mul_def Let_def arrays_ok_upd memcpy_at_whole arrays_okD)
qed

section \<open>Properties\<close>

text \<open>
  \<open>uint256_exp\<close> called with the base two (an array holding 2) and a result array
  that is not the base array leaves in the result the power \<open>2 ^ exp\<close> modulo \<open>2 ^ 256\<close>, for every
  32-bit exponent.
\<close>

lemma uint256_exp_two:
  assumes "res \<noteq> NULL" "res \<noteq> base" "length (st res) = 32" "st base = zeros[31 := 2]"
  shows "be_val (uint256_exp st res base e res) = 2 ^ unat e mod 2 ^ 256"
  using uint256_exp_pow2 [OF assms] by (simp only: fun_upd_same be_val_pow2)

text \<open>
  \<open>uint256_mul\<close> multiplies modulo \<open>2 ^ 256\<close> when its second factor is a power of 256,
  whatever the first factor is and whichever of the three arrays coincide.
\<close>

lemma uint256_mul_256:
  assumes "res \<noteq> NULL" "a \<noteq> NULL" "b \<noteq> NULL"
    and "length (st res) = 32" "length (st a) = 32" "length (st b) = 32"
    and "k < 32" "be_val (st b) = 256 ^ k"
  shows "be_val (uint256_mul st res a b res) = be_val (st a) * be_val (st b) mod 2 ^ 256"
proof -
  have "(256 :: nat) ^ k < 256 ^ 32"
    by (rule power_strict_increasing) (use assms in simp_all)
  then have "be_val (pow2 (8 * k)) = be_val (st b)"
    using assms(8) by (simp only: pow2_bytes mod_less)
  then have "st b = pow2 (8 * k)"
    using assms(6) by (intro be_val_inject) simp_all
  moreover have "(2 :: nat) ^ 256 = 256 ^ 32"
    by simp
  moreover have "be_val (uint256_mul st res a b res) = be_val (st a) * 256 ^ k mod 256 ^ 32"
    using assms calculation(1) by (intro uint256_mul_bytes)
  ultimately show ?thesis
    using assms(8) by (simp only:)
qed

text \<open>
  \<open>uint256_add\<close> adds the numbers its arrays hold least significant byte first, modulo
  \<open>2 ^ 256\<close>: the carry leaves cell 0 for cell 1, although every other function of the header, and
  its callers, keep the most significant byte in cell 0.
\<close>

lemma uint256_add_little_endian:
  assumes "res \<noteq> NULL" "a \<noteq> NULL" "b \<noteq> NULL"
    and "length (st res) = 32" "length (st a) = 32" "length (st b) = 32"
  shows "le_val (uint256_add st res a b res) = (le_val (st a) + le_val (st b)) mod 2 ^ 256"
proof -
  have "le_val (add_bytes (st a) (st b) 32) + 256 ^ 32 * (unat (add_temp (st a) (st b) 32) div 256) =
      le_val (st a) + le_val (st b)"
    using add_bytes_le_val [of 32 "st a" "st b"] assms by simp
  moreover have "le_val (add_bytes (st a) (st b) 32) < 256 ^ 32"
    using le_val_less [of "add_bytes (st a) (st b) 32"] by simp
  moreover have "(2 :: nat) ^ 256 = 256 ^ 32"
    by simp
  ultimately have "(le_val (st a) + le_val (st b)) mod 2 ^ 256 = le_val (add_bytes (st a) (st b) 32)"
    by (metis mod_less mod_mult_self2)
  then show ?thesis
    by (simp only: uint256_add_eq [OF assms] fun_upd_same)
qed

text \<open>
  The carry of \<open>uint256_add\<close> is lost for numbers in the byte order of the header: the
  sum of 255 and 1 is 0, not 256.  (A multiplication by a number with more than one bit set adds
  partial products this way.)
\<close>

lemma uint256_add_loses_carry:
  "be_val (uint256_add ((\<lambda>_. zeros)(1 := zeros[31 := 255], 2 := zeros[31 := 1])) 1 1 2 1) = 0"
proof -
  have "add_bytes (zeros[31 := 255]) (zeros[31 := 1]) 32 = zeros"
    by code_simp
  then show ?thesis
    by (simp add: uint256_add_eq)
qed

text \<open>
  \<open>uint256_sl\<close> moves the bits that cross a byte boundary to the wrong position, and a
  product of powers of two with it: \<open>0x80 * 2\<close> is \<open>0x4000\<close>, not \<open>0x100\<close>.
\<close>

lemma uint256_mul_wrong_carry:
  "be_val (uint256_mul ((\<lambda>_. zeros)(1 := zeros[31 := 0x80], 2 := zeros[31 := 2])) 3 1 2 3) = 0x4000"
proof -
  have two: "zeros[31 := 2] = pow2 1"
    by (simp add: pow2_def)
  let ?st = "(\<lambda>_. zeros)(1 := zeros[31 := 0x80], 2 := zeros[31 := 2])"
  have "shifted (zeros[31 := 0x80]) 1 = zeros[30 := 0x40]"
    by code_simp
  then have "uint256_mul ?st 3 1 2 3 = zeros[30 := 0x40]"
    using uint256_mul_pow2 [of 3 1 2 ?st 1] two by simp
  moreover have "be_val (zeros[30 := 0x40]) = 0x4000"
    by (simp add: zeros_def be_val_update_replicate)
  ultimately show ?thesis
    by (simp only:)
qed

text \<open>
  \<open>uint256_exp\<close> called with the same array as result and base computes 0 for every
  exponent but 0: the base is only copied when the two pointers differ.
\<close>

lemma uint256_exp_aliased:
  assumes "res \<noteq> NULL" "length (st res) = 32" "e \<noteq> 0"
  shows "uint256_exp st res res e res = zeros"
proof -
  have z: "zeros = pow2 256"
    by (simp add: pow2_def)
  have sh: "shifted zeros s = zeros" for s
    by (rule nth_equalityI)
      (auto simp: shifted_def nth_append sl_byte_def sl_carry_def nth_Cons' split: nat.splits)
  have loop: "uint256_exp_loop fr e exp_acc = zeros \<and> (\<exists>t. uint256_exp_loop fr e exp_temp = pow2 t)"
    if "fr exp_acc = zeros" "fr exp_temp = pow2 t" for fr e t
    using that
  proof (induction fr e arbitrary: t rule: uint256_exp_loop.induct)
    case (1 fr e)
    have sq: "uint256_mul f exp_acc exp_acc exp_acc = f(exp_acc := zeros)" if "f exp_acc = zeros" for f
      using that uint256_mul_pow2 [of exp_acc exp_acc exp_acc f 256] by (simp add: z [symmetric] sh)
    have ac: "uint256_mul fr exp_temp exp_acc exp_temp = fr(exp_temp := zeros)"
      using "1.prems" uint256_mul_pow2 [of exp_temp exp_acc exp_temp fr t] by (simp add: sh)
    show ?case
      using "1.IH"(1) [of t] "1.IH"(2) [of _ _ 256] "1.prems"
      by (auto simp: uint256_exp_loop.simps [of fr e] sq ac z [symmetric] fun_upd_def)
  qed
  obtain t where "uint256_exp_loop ((\<lambda>_. [])(exp_temp := zeros[31 := 1], exp_acc := zeros)) e exp_temp = pow2 t"
    "uint256_exp_loop ((\<lambda>_. [])(exp_temp := zeros[31 := 1], exp_acc := zeros)) e exp_acc = zeros"
    using loop [of "(\<lambda>_. [])(exp_temp := zeros[31 := 1], exp_acc := zeros)" 0 e] by (auto simp: pow2_def)
  then show ?thesis
    using assms by (simp add: uint256_exp_def Let_def uint256_mul_pow2 [where s = t] sh)
qed

end
