(* ===== verification/Sha256.thy ===== *)
theory Sha256
  imports Prelude
begin

text \<open>
  The hash function of \<open>sha256.c\<close> and \<open>sha256.h\<close>.  The context structure is a record with the C
  fields, the macros are functions on 32-bit words and the counting loops are folds over the
  range of their index.  The second half states SHA-256 the way the standard (FIPS 180-4) does,
  with a padded message, a recursive message schedule and rotations, and proves that
  initialising a context, feeding it a message and finishing it yields the standard's digest.
\<close>

section \<open>Macros and constants\<close>

definition ROTLEFT :: "WORD \<Rightarrow> nat \<Rightarrow> WORD" where
  "ROTLEFT a b = push_bit b a OR drop_bit (32 - b) a"

definition ROTRIGHT :: "WORD \<Rightarrow> nat \<Rightarrow> WORD" where
  "ROTRIGHT a b = drop_bit b a OR push_bit (32 - b) a"

definition CH :: "WORD \<Rightarrow> WORD \<Rightarrow> WORD \<Rightarrow> WORD" where
  "CH x y z = (x AND y) XOR (NOT x AND z)"

definition MAJ :: "WORD \<Rightarrow> WORD \<Rightarrow> WORD \<Rightarrow> WORD" where
  "MAJ x y z = (x AND y) XOR (x AND z) XOR (y AND z)"

definition EP0 :: "WORD \<Rightarrow> WORD" where
  "EP0 x = ROTRIGHT x 2 XOR ROTRIGHT x 13 XOR ROTRIGHT x 22"

definition EP1 :: "WORD \<Rightarrow> WORD" where
  "EP1 x = ROTRIGHT x 6 XOR ROTRIGHT x 11 XOR ROTRIGHT x 25"

definition SIG0 :: "WORD \<Rightarrow> WORD" where
  "SIG0 x = ROTRIGHT x 7 XOR ROTRIGHT x 18 XOR drop_bit 3 x"

definition SIG1 :: "WORD \<Rightarrow> WORD" where
  "SIG1 x = ROTRIGHT x 17 XOR ROTRIGHT x 19 XOR drop_bit 10 x"

text \<open>The table \<open>k\<close> of round constants.\<close>

definition sha256_k :: "WORD list" where
  "sha256_k = [
     0x428A2F98, 0x71374491, 0xB5C0FBCF, 0xE9B5DBA5, 0x3956C25B, 0x59F111F1, 0x923F82A4, 0xAB1C5ED5,
     0xD807AA98, 0x12835B01, 0x243185BE, 0x550C7DC3, 0x72BE5D74, 0x80DEB1FE, 0x9BDC06A7, 0xC19BF174,
     0xE49B69C1, 0xEFBE4786, 0x0FC19DC6, 0x240CA1CC, 0x2DE92C6F, 0x4A7484AA, 0x5CB0A9DC, 0x76F988DA,
     0x983E5152, 0xA831C66D, 0xB00327C8, 0xBF597FC7, 0xC6E00BF3, 0xD5A79147, 0x06CA6351, 0x14292967,
     0x27B70A85, 0x2E1B2138, 0x4D2C6DFC, 0x53380D13, 0x650A7354, 0x766A0ABB, 0x81C2C92E, 0x92722C85,
     0xA2BFE8A1, 0xA81A664B, 0xC24B8B70, 0xC76C51A3, 0xD192E819, 0xD6990624, 0xF40E3585, 0x106AA070,
     0x19A4C116, 0x1E376C08, 0x2748774C, 0x34B0BCB5, 0x391C0CB3, 0x4ED8AA4A, 0x5B9CCA4F, 0x682E6FF3,
     0x748F82EE, 0x78A5636F, 0x84C87814, 0x8CC70208, 0x90BEFFFA, 0xA4506CEB, 0xBEF9A3F7, 0xC67178F2]"

section \<open>The context\<close>

record SHA256_CTX =
  ctx_data :: "BYTE list"
  ctx_datalen :: WORD
  ctx_bitlen :: u64
  ctx_state :: "WORD list"

section \<open>Operations\<close>

type_synonym regs = "WORD \<times> WORD \<times> WORD \<times> WORD \<times> WORD \<times> WORD \<times> WORD \<times> WORD"

text \<open>The two loops that fill the message schedule \<open>m\<close>, cell after cell.\<close>

definition sha256_load :: "BYTE list \<Rightarrow> WORD list" where
  "sha256_load d = map (\<lambda>i. let j = 4 * i in
     push_bit 24 (ucast (d ! j)) OR push_bit 16 (ucast (d ! (j + 1)))
       OR push_bit 8 (ucast (d ! (j + 2))) OR ucast (d ! (j + 3))) [0..<16]"

definition sha256_expand_step :: "nat \<Rightarrow> WORD list \<Rightarrow> WORD list" where
  "sha256_expand_step i m =
     m @ [SIG1 (m ! (i - 2)) + m ! (i - 7) + SIG0 (m ! (i - 15)) + m ! (i - 16)]"

definition sha256_schedule :: "BYTE list \<Rightarrow> WORD list" where
  "sha256_schedule d = fold sha256_expand_step [16..<64] (sha256_load d)"

fun sha256_round :: "WORD list \<Rightarrow> nat \<Rightarrow> regs \<Rightarrow> regs" where
  "sha256_round m i (a, b, c, d, e, f, g, h) =
     (let t1 = h + EP1 e + CH e f g + sha256_k ! i + m ! i;
          t2 = EP0 a + MAJ a b c
      in (t1 + t2, a, b, c, d + t1, e, f, g))"

definition sha256_transform :: "SHA256_CTX \<Rightarrow> BYTE list \<Rightarrow> SHA256_CTX" where
  "sha256_transform ctx d =
     (let m = sha256_schedule d;
          s = ctx_state ctx;
          (a, b, c, d, e, f, g, h) =
            fold (sha256_round m) [0..<64] (s ! 0, s ! 1, s ! 2, s ! 3, s ! 4, s ! 5, s ! 6, s ! 7)
      in ctx\<lparr>ctx_state := [s ! 0 + a, s ! 1 + b, s ! 2 + c, s ! 3 + d,
                           s ! 4 + e, s ! 5 + f, s ! 6 + g, s ! 7 + h]\<rparr>)"

definition sha256_init :: "SHA256_CTX \<Rightarrow> SHA256_CTX" where
  "sha256_init ctx = ctx\<lparr>ctx_datalen := 0, ctx_bitlen := 0,
     ctx_state := [0x6A09E667, 0xBB67AE85, 0x3C6EF372, 0xA54FF53A,
                   0x510E527F, 0x9B05688C, 0x1F83D9AB, 0x5BE0CD19]\<rparr>"

definition sha256_update_byte :: "BYTE \<Rightarrow> SHA256_CTX \<Rightarrow> SHA256_CTX" where
  "sha256_update_byte x ctx =
     (let ctx1 = ctx\<lparr>ctx_data := (ctx_data ctx)[unat (ctx_datalen ctx) := x],
                      ctx_datalen := ctx_datalen ctx + 1\<rparr>
      in if ctx_datalen ctx1 = 64
         then let ctx2 = sha256_transform ctx1 (ctx_data ctx1)
              in ctx2\<lparr>ctx_bitlen := ctx_bitlen ctx2 + 512, ctx_datalen := 0\<rparr>
         else ctx1)"

text \<open>
  The C loop counts with a 32-bit \<open>WORD\<close>, so it ends only for lengths below \<open>2 ^ 32\<close>; the callers
  pass 40 and 32.
\<close>

definition sha256_update :: "SHA256_CTX \<Rightarrow> BYTE list \<Rightarrow> nat \<Rightarrow> SHA256_CTX" where
  "sha256_update ctx d len = fold (\<lambda>i. sha256_update_byte (d ! i)) [0..<len] ctx"

text \<open>Zero the cells from \<open>i\<close> up to \<open>n\<close>: the \<open>while\<close> loops of the padding.\<close>

definition zero_from :: "nat \<Rightarrow> nat \<Rightarrow> BYTE list \<Rightarrow> BYTE list" where
  "zero_from i n d = fold (\<lambda>j d. d[j := 0]) [i..<n] d"

definition sha256_pad :: "SHA256_CTX \<Rightarrow> SHA256_CTX" where
  "sha256_pad ctx =
     (let i = unat (ctx_datalen ctx);
          d = (ctx_data ctx)[i := 0x80]
      in if ctx_datalen ctx < 56 then ctx\<lparr>ctx_data := zero_from (i + 1) 56 d\<rparr>
         else let ctx1 = ctx\<lparr>ctx_data := zero_from (i + 1) 64 d\<rparr>;
                  ctx2 = sha256_transform ctx1 (ctx_data ctx1)
              in ctx2\<lparr>ctx_data := memset (ctx_data ctx2) 0 56\<rparr>)"

definition sha256_put_len :: "SHA256_CTX \<Rightarrow> SHA256_CTX" where
  "sha256_put_len ctx =
     (let bl = ctx_bitlen ctx + ucast (ctx_datalen ctx * 8)
      in ctx\<lparr>ctx_bitlen := bl,
             ctx_data := (ctx_data ctx)[63 := ucast bl, 62 := ucast (drop_bit 8 bl),
               61 := ucast (drop_bit 16 bl), 60 := ucast (drop_bit 24 bl),
               59 := ucast (drop_bit 32 bl), 58 := ucast (drop_bit 40 bl),
               57 := ucast (drop_bit 48 bl), 56 := ucast (drop_bit 56 bl)]\<rparr>)"

definition sha256_output_step :: "WORD list \<Rightarrow> nat \<Rightarrow> BYTE list \<Rightarrow> BYTE list" where
  "sha256_output_step s i hash =
     (let byte = (\<lambda>w :: WORD. ucast (drop_bit (24 - i * 8) w AND 0xff) :: BYTE)
      in hash[i := byte (s ! 0), i + 4 := byte (s ! 1), i + 8 := byte (s ! 2),
              i + 12 := byte (s ! 3), i + 16 := byte (s ! 4), i + 20 := byte (s ! 5),
              i + 24 := byte (s ! 6), i + 28 := byte (s ! 7)])"

definition sha256_final :: "SHA256_CTX \<Rightarrow> BYTE list \<Rightarrow> SHA256_CTX \<times> BYTE list" where
  "sha256_final ctx hash =
     (let ctx1 = sha256_put_len (sha256_pad ctx);
          ctx2 = sha256_transform ctx1 (ctx_data ctx1)
      in (ctx2, fold (sha256_output_step (ctx_state ctx2)) [0..<4] hash))"

function sha256_compare_from :: "BYTE list \<Rightarrow> BYTE list \<Rightarrow> nat \<Rightarrow> int" where
  "sha256_compare_from digest1 digest2 i =
     (if i < 32 then
        if digest1 ! i < digest2 ! i then -1
        else if digest1 ! i > digest2 ! i then 1
        else sha256_compare_from digest1 digest2 (i + 1)
      else 0)"
  by pat_completeness auto
termination
  by (relation "measure (\<lambda>(d1, d2, i). 32 - i)") auto

declare sha256_compare_from.simps [simp del]

definition sha256_compare :: "BYTE list \<Rightarrow> BYTE list \<Rightarrow> int" where
  "sha256_compare digest1 digest2 = sha256_compare_from digest1 digest2 0"

section \<open>SHA-256 as the standard states it\<close>

definition fips_Sigma0 :: "WORD \<Rightarrow> WORD" where
  "fips_Sigma0 x = word_rotr 2 x XOR word_rotr 13 x XOR word_rotr 22 x"

definition fips_Sigma1 :: "WORD \<Rightarrow> WORD" where
  "fips_Sigma1 x = word_rotr 6 x XOR word_rotr 11 x XOR word_rotr 25 x"

definition fips_sigma0 :: "WORD \<Rightarrow> WORD" where
  "fips_sigma0 x = word_rotr 7 x XOR word_rotr 18 x XOR drop_bit 3 x"

definition fips_sigma1 :: "WORD \<Rightarrow> WORD" where
  "fips_sigma1 x = word_rotr 17 x XOR word_rotr 19 x XOR drop_bit 10 x"

text \<open>Bitwise choice and majority, by their truth tables.\<close>

definition fips_Ch :: "WORD \<Rightarrow> WORD \<Rightarrow> WORD \<Rightarrow> WORD" where
  "fips_Ch x y z = (x AND y) OR (NOT x AND z)"

definition fips_Maj :: "WORD \<Rightarrow> WORD \<Rightarrow> WORD \<Rightarrow> WORD" where
  "fips_Maj x y z = (x AND y) OR (x AND z) OR (y AND z)"

text \<open>The sixteen big-endian words of a block, and the message schedule as a recurrence.\<close>

definition block_word :: "BYTE list \<Rightarrow> nat \<Rightarrow> WORD" where
  "block_word blk t = word_of_nat (be_val (take 4 (drop (4 * t) blk)))"

function fips_W :: "BYTE list \<Rightarrow> nat \<Rightarrow> WORD" where
  "fips_W blk t =
     (if t < 16 then block_word blk t
      else fips_sigma1 (fips_W blk (t - 2)) + fips_W blk (t - 7)
        + fips_sigma0 (fips_W blk (t - 15)) + fips_W blk (t - 16))"
  by pat_completeness auto
termination
  by (relation "measure snd") auto

declare fips_W.simps [simp del]

fun fips_step :: "BYTE list \<Rightarrow> nat \<Rightarrow> regs \<Rightarrow> regs" where
  "fips_step blk t (a, b, c, d, e, f, g, h) =
     (let T1 = h + fips_Sigma1 e + fips_Ch e f g + sha256_k ! t + fips_W blk t;
          T2 = fips_Sigma0 a + fips_Maj a b c
      in (T1 + T2, a, b, c, d + T1, e, f, g))"

primrec fips_vars :: "BYTE list \<Rightarrow> regs \<Rightarrow> nat \<Rightarrow> regs" where
  "fips_vars blk r 0 = r"
| "fips_vars blk r (Suc t) = fips_step blk t (fips_vars blk r t)"

definition fips_compress :: "WORD list \<Rightarrow> BYTE list \<Rightarrow> WORD list" where
  "fips_compress H blk =
     (case fips_vars blk (H ! 0, H ! 1, H ! 2, H ! 3, H ! 4, H ! 5, H ! 6, H ! 7) 64 of
        (a, b, c, d, e, f, g, h) \<Rightarrow>
          [H ! 0 + a, H ! 1 + b, H ! 2 + c, H ! 3 + d, H ! 4 + e, H ! 5 + f, H ! 6 + g, H ! 7 + h])"

function fips_chain :: "WORD list \<Rightarrow> BYTE list \<Rightarrow> WORD list" where
  "fips_chain H msg =
     (if length msg < 64 then H else fips_chain (fips_compress H (take 64 msg)) (drop 64 msg))"
  by pat_completeness auto
termination
  by (relation "measure (\<lambda>(H, msg). length msg)") auto

declare fips_chain.simps [simp del]

text \<open>The padding: a one bit, the fewest zero bits that fill the block, the length in 64 bits.\<close>

definition be64 :: "nat \<Rightarrow> BYTE list" where
  "be64 n = map (\<lambda>j. word_of_nat (n div 256 ^ j)) [7, 6, 5, 4, 3, 2, 1, 0]"

definition pad_zeros :: "nat \<Rightarrow> nat" where
  "pad_zeros n = (if n mod 64 < 56 then 55 - n mod 64 else 119 - n mod 64)"

definition fips_pad :: "BYTE list \<Rightarrow> BYTE list" where
  "fips_pad msg = msg @ [0x80] @ replicate (pad_zeros (length msg)) 0 @ be64 (8 * length msg)"

definition fips_H0 :: "WORD list" where
  "fips_H0 = [0x6A09E667, 0xBB67AE85, 0x3C6EF372, 0xA54FF53A,
              0x510E527F, 0x9B05688C, 0x1F83D9AB, 0x5BE0CD19]"

definition be_bytes32 :: "WORD \<Rightarrow> BYTE list" where
  "be_bytes32 w = [ucast (drop_bit 24 w), ucast (drop_bit 16 w), ucast (drop_bit 8 w), ucast w]"

definition fips_sha256 :: "BYTE list \<Rightarrow> BYTE list" where
  "fips_sha256 msg = concat (map be_bytes32 (fips_chain fips_H0 (fips_pad msg)))"

section \<open>The macros agree with the standard\<close>

named_theorems sha_macros

lemma ROTRIGHT_rotr: "n \<le> 32 \<Longrightarrow> ROTRIGHT x n = word_rotr n x"
proof (rule bit_word_eqI)
  fix i assume n: "n \<le> 32" and "i < LENGTH(32)"
  then have i: "i < 32" by simp
  show "bit (ROTRIGHT x n) i \<longleftrightarrow> bit (word_rotr n x) i"
  proof (cases "i + n < 32")
    case True
    then show ?thesis
      using i by (auto simp: ROTRIGHT_def bit_simps bit_word_rotr_iff add.commute)
  next
    case False
    then have "(i + n) mod 32 = i + n - 32"
      using i n by (simp add: mod_if)
    moreover have "\<not> bit x (n + i)"
      using False by (auto dest: bit_imp_le_length)
    ultimately show ?thesis
      using False i n by (auto simp: ROTRIGHT_def bit_simps bit_word_rotr_iff)
  qed
qed

lemma ROTLEFT_rotl: "n \<le> 32 \<Longrightarrow> ROTLEFT x n = word_rotr (32 - n) x"
  using ROTRIGHT_rotr [of "32 - n" x] by (simp add: ROTLEFT_def ROTRIGHT_def or.commute)

lemma CH_fips [sha_macros]: "CH = fips_Ch"
  by (intro ext bit_word_eqI) (auto simp: CH_def fips_Ch_def bit_simps)

lemma MAJ_fips [sha_macros]: "MAJ = fips_Maj"
  by (intro ext bit_word_eqI) (auto simp: MAJ_def fips_Maj_def bit_simps)

lemma EP_fips [sha_macros]: "EP0 = fips_Sigma0" "EP1 = fips_Sigma1"
  by (simp_all add: fun_eq_iff EP0_def EP1_def fips_Sigma0_def fips_Sigma1_def ROTRIGHT_rotr)

lemma SIG_fips [sha_macros]: "SIG0 = fips_sigma0" "SIG1 = fips_sigma1"
  by (simp_all add: fun_eq_iff SIG0_def SIG1_def fips_sigma0_def fips_sigma1_def ROTRIGHT_rotr)

lemma be_word_shifts:
  fixes a b c d :: BYTE
  shows "push_bit 24 (ucast a) OR push_bit 16 (ucast b) OR push_bit 8 (ucast c) OR ucast d =
    (word_of_nat (be_val [a, b, c, d]) :: WORD)"
proof -
  have or_add: "x OR y = x + y" if "\<And>n. \<not> bit x n \<or> \<not> bit y n" for x y :: WORD
    by (rule disjunctive_add [symmetric]) (rule that)
  have hi: "\<not> bit z n" if "8 \<le> n" for z :: BYTE and n
    using that by (auto dest: bit_imp_le_length)
  let ?a = "ucast a :: WORD" and ?b = "ucast b :: WORD" and ?c = "ucast c :: WORD" and ?d = "ucast d :: WORD"
  have "push_bit 8 ?c OR ?d = push_bit 8 ?c + ?d"
    by (rule or_add) (auto simp: bit_simps hi)
  moreover have "push_bit 16 ?b OR (push_bit 8 ?c OR ?d) = push_bit 16 ?b + (push_bit 8 ?c OR ?d)"
    by (rule or_add) (auto simp: bit_simps hi)
  moreover have "push_bit 24 ?a OR (push_bit 16 ?b OR (push_bit 8 ?c OR ?d)) =
      push_bit 24 ?a + (push_bit 16 ?b OR (push_bit 8 ?c OR ?d))"
    by (rule or_add) (auto simp: bit_simps hi)
  ultimately have "push_bit 24 ?a OR push_bit 16 ?b OR push_bit 8 ?c OR ?d =
      push_bit 24 ?a + (push_bit 16 ?b + (push_bit 8 ?c + ?d))"
    by simp
  also have "\<dots> = word_of_nat (be_val [a, b, c, d])"
    by (simp add: push_bit_eq_mult algebra_simps)
  finally show ?thesis .
qed

section \<open>One block\<close>

lemma take_4: "n + 4 \<le> length xs \<Longrightarrow> take 4 (drop n xs) = [xs ! n, xs ! (n + 1), xs ! (n + 2), xs ! (n + 3)]"
  by (rule nth_equalityI) (auto simp: nth_Cons' less_Suc_eq numeral_eq_Suc)

lemma length_sha256_load [simp]: "length (sha256_load blk) = 16"
  by (simp add: sha256_load_def)

lemma sha256_load_word:
  assumes "length blk = 64" "i < 16" shows "sha256_load blk ! i = fips_W blk i"
proof -
  have "take 4 (drop (4 * i) blk) =
      [blk ! (4 * i), blk ! (4 * i + 1), blk ! (4 * i + 2), blk ! (4 * i + 3)]"
    by (rule take_4) (use assms in simp)
  with assms show ?thesis
    by (simp add: sha256_load_def fips_W.simps [of blk i] block_word_def be_word_shifts Let_def
      del: be_val.simps)
qed

lemma sha256_schedule_upto:
  assumes "length blk = 64" "16 \<le> n"
  shows "fold sha256_expand_step [16..<n] (sha256_load blk) = map (fips_W blk) [0..<n]"
  using assms(2)
proof (induction n rule: nat_induct_at_least)
  case base
  have "sha256_load blk = map (fips_W blk) [0..<16]"
    by (rule nth_equalityI) (use assms in \<open>auto simp: sha256_load_word simp del: upt_rec_numeral\<close>)
  then show ?case by simp
next
  case (Suc n)
  then show ?case
    by (simp add: sha256_expand_step_def fips_W.simps [of blk n] sha_macros)
qed

lemma sha256_schedule_nth:
  "length blk = 64 \<Longrightarrow> i < 64 \<Longrightarrow> sha256_schedule blk ! i = fips_W blk i"
  using sha256_schedule_upto [of blk 64] by (simp add: sha256_schedule_def del: upt_rec_numeral)

lemma sha256_rounds:
  assumes "length blk = 64" "n \<le> 64"
  shows "fold (sha256_round (sha256_schedule blk)) [0..<n] r = fips_vars blk r n"
  using assms(2)
proof (induction n)
  case 0
  then show ?case by simp
next
  case (Suc n)
  obtain a b c d e f g h where v: "fips_vars blk r n = (a, b, c, d, e, f, g, h)"
    by (cases "fips_vars blk r n") auto
  show ?case
    using Suc assms(1) by (simp add: v sha256_schedule_nth sha_macros)
qed

lemma sha256_transform_compress:
  "length blk = 64 \<Longrightarrow> sha256_transform ctx blk = ctx\<lparr>ctx_state := fips_compress (ctx_state ctx) blk\<rparr>"
  by (simp add: sha256_transform_def fips_compress_def sha256_rounds Let_def
    del: upt_rec_numeral split: prod.splits)

lemma fips_chain_append:
  "64 dvd length xs \<Longrightarrow> fips_chain H (xs @ ys) = fips_chain (fips_chain H xs) ys"
proof (induction H xs rule: fips_chain.induct)
  case (1 H xs)
  show ?case
  proof (cases "length xs < 64")
    case True
    then have "xs = []"
      using "1.prems" by (auto dest: dvd_imp_le)
    then show ?thesis
      by (simp add: fips_chain.simps [of H "[]"])
  next
    case False
    then have "64 dvd length (drop 64 xs)"
      using "1.prems" by (simp add: dvd_minus_self)
    with False "1.IH" show ?thesis
      by (simp add: fips_chain.simps [of H "xs @ ys"] fips_chain.simps [of H xs])
  qed
qed

lemma fips_chain_Nil [simp]: "fips_chain H [] = H"
  by (simp add: fips_chain.simps)

lemma fips_chain_block: "length blk = 64 \<Longrightarrow> fips_chain H blk = fips_compress H blk"
  by (simp add: fips_chain.simps [of H blk])

section \<open>Feeding a message\<close>

text \<open>What the context holds after the first \<open>n\<close> bytes of a message.\<close>

definition ctx_inv :: "BYTE list \<Rightarrow> nat \<Rightarrow> SHA256_CTX \<Rightarrow> bool" where
  "ctx_inv msg n ctx \<longleftrightarrow>
     length (ctx_data ctx) = 64
     \<and> ctx_datalen ctx = word_of_nat (n mod 64)
     \<and> ctx_bitlen ctx = word_of_nat (512 * (n div 64))
     \<and> take (n mod 64) (ctx_data ctx) = drop (64 * (n div 64)) (take n msg)
     \<and> ctx_state ctx = fips_chain fips_H0 (take (64 * (n div 64)) msg)"

lemma ctx_inv_init: "length (ctx_data ctx) = 64 \<Longrightarrow> ctx_inv msg 0 (sha256_init ctx)"
  by (simp add: ctx_inv_def sha256_init_def fips_H0_def)

lemma small_word_of_nat: "n < 64 \<Longrightarrow> unat (word_of_nat n :: WORD) = n"
  by (simp add: unat_of_nat)

lemma drop_take_Suc:
  "k \<le> n \<Longrightarrow> n < length xs \<Longrightarrow> drop k (take (Suc n) xs) = drop k (take n xs) @ [xs ! n]"
  by (simp add: take_Suc_conv_app_nth)

lemma ctx_inv_update_byte:
  assumes inv: "ctx_inv msg n ctx" and n: "n < length msg"
  shows "ctx_inv msg (Suc n) (sha256_update_byte (msg ! n) ctx)"
proof -
  define q r where "q = n div 64" and "r = n mod 64"
  have nqr: "n = 64 * q + r" and r: "r < 64"
    by (simp_all add: q_def r_def)
  let ?data = "(ctx_data ctx)[r := msg ! n]"
  have I: "length (ctx_data ctx) = 64" "ctx_datalen ctx = word_of_nat r"
    "ctx_bitlen ctx = word_of_nat (512 * q)" "take r (ctx_data ctx) = drop (64 * q) (take n msg)"
    "ctx_state ctx = fips_chain fips_H0 (take (64 * q) msg)"
    using inv by (simp_all add: ctx_inv_def q_def r_def)
  have ur: "unat (ctx_datalen ctx) = r"
    using r by (simp add: I(2) small_word_of_nat)
  have dl: "ctx_datalen ctx + 1 = word_of_nat (Suc r)"
    by (simp add: I(2))
  have tk: "take (Suc r) ?data = drop (64 * q) (take (Suc n) msg)"
    using n r I(1,4) nqr by (simp add: take_Suc_conv_app_nth drop_take_Suc)
  have full: "(word_of_nat (Suc r) :: WORD) = 64 \<longleftrightarrow> Suc r = 64"
    using r by (simp add: word_unat_eq_iff unat_of_nat del: of_nat_Suc)
  show ?thesis
  proof (cases "Suc r = 64")
    case False
    have "Suc n mod 64 = Suc r" "Suc n div 64 = q"
      using False r by (simp_all add: q_def r_def mod_Suc div_Suc)
    moreover have "sha256_update_byte (msg ! n) ctx =
        ctx\<lparr>ctx_data := ?data, ctx_datalen := word_of_nat (Suc r)\<rparr>"
      using False full by (simp add: sha256_update_byte_def ur dl Let_def del: of_nat_Suc)
    ultimately show ?thesis
      using I tk by (simp add: ctx_inv_def del: of_nat_Suc)
  next
    case True
    have sn: "Suc n mod 64 = 0" "Suc n div 64 = Suc q"
      using True by (simp_all add: q_def r_def mod_Suc div_Suc)
    have Sn: "Suc n = 64 * Suc q"
      using True nqr by simp
    have blk: "?data = drop (64 * q) (take (Suc n) msg)"
      using tk True I(1) by simp
    have "min (64 * q) (Suc n) = 64 * q"
      using nqr by simp
    then have "take (64 * Suc q) msg = take (64 * q) msg @ ?data"
      using append_take_drop_id [of "64 * q" "take (Suc n) msg"] by (simp only: take_take blk Sn)
    then have "fips_chain fips_H0 (take (64 * Suc q) msg) =
        fips_compress (fips_chain fips_H0 (take (64 * q) msg)) ?data"
      using n nqr I(1) by (simp add: fips_chain_append fips_chain_block)
    moreover have "sha256_update_byte (msg ! n) ctx =
        ctx\<lparr>ctx_data := ?data, ctx_datalen := 0, ctx_bitlen := ctx_bitlen ctx + 512,
          ctx_state := fips_compress (ctx_state ctx) ?data\<rparr>"
      using True full I(1)
      by (simp add: sha256_update_byte_def ur dl Let_def sha256_transform_compress del: of_nat_Suc)
    ultimately show ?thesis
      using I sn Sn by (simp add: ctx_inv_def algebra_simps)
  qed
qed

lemma ctx_inv_update:
  assumes "length (ctx_data ctx) = 64" "n \<le> length msg"
  shows "ctx_inv msg n (sha256_update (sha256_init ctx) msg n)"
  using assms(2)
proof (induction n)
  case 0
  then show ?case
    using assms(1) by (simp add: sha256_update_def ctx_inv_init)
next
  case (Suc n)
  then show ?case
    by (simp add: sha256_update_def ctx_inv_update_byte)
qed

section \<open>Finishing\<close>

lemma zero_from_eq:
  assumes "i \<le> n" "n \<le> length d"
  shows "zero_from i n d = take i d @ replicate (n - i) 0 @ drop n d"
  using assms
proof (induction n rule: dec_induct)
  case base
  then show ?case by (simp add: zero_from_def)
next
  case (step n)
  have "zero_from i (Suc n) d = (zero_from i n d)[n := 0]"
    using step.hyps by (simp add: zero_from_def)
  also have "\<dots> = (take i d @ replicate (n - i) 0 @ [0]) @ drop (Suc n) d"
    using step by (simp add: update_next_cell [of "take i d @ replicate (n - i) 0" n d 0, simplified])
  also have "\<dots> = take i d @ replicate (Suc n - i) 0 @ drop (Suc n) d"
    using step.hyps by (simp add: Suc_diff_le replicate_append_same)
  finally show ?case .
qed

lemma marked_prefix:
  "i < length d \<Longrightarrow> take (Suc i) (d[i := x]) = take i d @ [x]"
  by (simp add: take_Suc_conv_app_nth)

lemma byte_of_u64:
  "j < 8 \<Longrightarrow> (ucast (drop_bit (8 * j) (word_of_nat N :: u64)) :: BYTE) = word_of_nat (N div 256 ^ j)"
proof -
  assume j: "j < 8"
  have "take_bit 8 (drop_bit (8 * j) (take_bit 64 N)) = take_bit 8 (drop_bit (8 * j) N)"
    using j by (auto simp: bit_eq_iff bit_simps)
  moreover have "drop_bit (8 * j) N = N div 256 ^ j"
    by (simp add: drop_bit_eq_div power_mult)
  ultimately show ?thesis
    by (simp add: word_unat_eq_iff unsigned_ucast_eq unsigned_drop_bit_eq unsigned_of_nat
      del: take_bit_drop_bit)
qed

lemma be64_word:
  fixes bl :: u64
  assumes "bl = word_of_nat N"
  shows "be64 N = [ucast (drop_bit 56 bl), ucast (drop_bit 48 bl), ucast (drop_bit 40 bl),
    ucast (drop_bit 32 bl), ucast (drop_bit 24 bl), ucast (drop_bit 16 bl), ucast (drop_bit 8 bl), ucast bl]"
  using byte_of_u64 [of 7 N] byte_of_u64 [of 6 N] byte_of_u64 [of 5 N] byte_of_u64 [of 4 N]
    byte_of_u64 [of 3 N] byte_of_u64 [of 2 N] byte_of_u64 [of 1 N] byte_of_u64 [of 0 N]
  by (simp add: be64_def assms)

lemma length_be64 [simp]: "length (be64 n) = 8"
  by (simp add: be64_def)

lemma write_last_8:
  assumes "length ys = 56" "length zs = 8"
  shows "(ys @ zs)[63 := a7, 62 := a6, 61 := a5, 60 := a4, 59 := a3, 58 := a2, 57 := a1, 56 := a0] =
    ys @ [a0, a1, a2, a3, a4, a5, a6, a7]"
proof -
  obtain z0 z1 z2 z3 z4 z5 z6 z7 where "zs = [z0, z1, z2, z3, z4, z5, z6, z7]"
    using assms(2) by (auto simp: length_Suc_conv numeral_eq_Suc)
  with assms(1) show ?thesis
    by (simp add: list_update_append)
qed

lemma sha256_put_len_data:
  assumes "ctx_datalen ctx = word_of_nat (n mod 64)" "ctx_bitlen ctx = word_of_nat (512 * (n div 64))"
    and "ctx_data ctx = ys @ zs" "length ys = 56" "length zs = 8"
  shows "ctx_data (sha256_put_len ctx) = ys @ be64 (8 * n)"
    and "ctx_state (sha256_put_len ctx) = ctx_state ctx"
proof -
  let ?bl = "ctx_bitlen ctx + ucast (ctx_datalen ctx * 8)"
  have "unat (ctx_datalen ctx * 8) = 8 * (n mod 64)"
    by (simp add: assms(1) unat_word_ariths unat_of_nat mult.commute)
  then have "(ucast (ctx_datalen ctx * 8) :: u64) = word_of_nat (8 * (n mod 64))"
    by (metis of_nat_unat)
  then have "?bl = word_of_nat (512 * (n div 64) + 8 * (n mod 64))"
    by (simp add: assms(2))
  also have "512 * (n div 64) + 8 * (n mod 64) = 8 * n"
    using div_mult_mod_eq [of n 64] by linarith
  finally have "be64 (8 * n) = [ucast (drop_bit 56 ?bl), ucast (drop_bit 48 ?bl), ucast (drop_bit 40 ?bl),
    ucast (drop_bit 32 ?bl), ucast (drop_bit 24 ?bl), ucast (drop_bit 16 ?bl), ucast (drop_bit 8 ?bl), ucast ?bl]"
    by (rule be64_word)
  with assms(3-5) show "ctx_data (sha256_put_len ctx) = ys @ be64 (8 * n)"
    by (simp only: sha256_put_len_def Let_def write_last_8) simp
  show "ctx_state (sha256_put_len ctx) = ctx_state ctx"
    by (simp add: sha256_put_len_def Let_def)
qed

lemma ucast_and_255: "(ucast (w AND 255) :: BYTE) = ucast (w :: WORD)"
  by (simp add: word_unat_eq_iff unsigned_ucast_eq take_bit_eq_mod unat_and_255)

lemma upt_0_32:
  "[0..<32] = [0, 1, 2, 3, 4, 5, 6, 7, 8, 9, 10, 11, 12, 13, 14, 15, 16, 17, 18, 19, 20, 21, 22, 23,
    24, 25, 26, 27, 28, 29, 30, 31]"
  by code_simp

lemma sha256_output:
  assumes "length s = 8" "length hash = 32"
  shows "fold (sha256_output_step s) [0..<4] hash = concat (map be_bytes32 s)"
proof -
  obtain a b c d e f g h where s: "s = [a, b, c, d, e, f, g, h]"
    using assms(1) by (auto simp: length_Suc_conv numeral_eq_Suc)
  have "fold (sha256_output_step s) [0..<4] hash =
      sha256_output_step s 3 (sha256_output_step s 2 (sha256_output_step s 1 (sha256_output_step s 0 hash)))"
    by (simp add: upt_rec_numeral numeral_eq_Suc)
  moreover obtain x where "hash = map x [0..<32]"
    using assms(2) by (metis map_nth)
  then have "hash = [x 0, x 1, x 2, x 3, x 4, x 5, x 6, x 7, x 8, x 9, x 10, x 11, x 12, x 13, x 14, x 15,
      x 16, x 17, x 18, x 19, x 20, x 21, x 22, x 23, x 24, x 25, x 26, x 27, x 28, x 29, x 30, x 31]"
    by (simp add: upt_0_32)
  ultimately show ?thesis
    by (simp add: s sha256_output_step_def be_bytes32_def ucast_and_255)
qed

lemma length_fips_compress [simp]: "length (fips_compress H blk) = 8"
  by (simp add: fips_compress_def split: prod.splits)

text \<open>The block or blocks the padding produces after the whole blocks of the message.\<close>

lemma sha256_final_state:
  assumes inv: "ctx_inv msg (length msg) ctx"
  shows "ctx_state (fst (sha256_final ctx hash)) = fips_chain fips_H0 (fips_pad msg)"
proof -
  define n q r where "n = length msg" and "q = n div 64" and "r = n mod 64"
  let ?rest = "drop (64 * q) msg" and ?whole = "take (64 * q) msg"
  let ?S = "fips_chain fips_H0 ?whole"
  have I: "length (ctx_data ctx) = 64" "ctx_datalen ctx = word_of_nat r"
    "ctx_bitlen ctx = word_of_nat (512 * q)" "take r (ctx_data ctx) = ?rest" "ctx_state ctx = ?S"
    using inv by (simp_all add: ctx_inv_def n_def q_def r_def)
  have nqr: "n = 64 * q + r" and r: "r < 64"
    by (simp_all add: q_def r_def)
  have ur: "unat (ctx_datalen ctx) = r"
    using r by (simp add: I(2) small_word_of_nat)
  have lt: "ctx_datalen ctx < 56 \<longleftrightarrow> r < 56"
    by (simp add: word_less_nat_alt ur)
  have lens: "length ?rest = r" "64 dvd length ?whole"
    using nqr by (simp_all add: n_def)
  have "fips_pad msg = ?whole @ (?rest @ 0x80 # replicate (pad_zeros n) 0 @ be64 (8 * n))"
    by (simp add: fips_pad_def n_def)
  then have chain: "fips_chain fips_H0 (fips_pad msg) =
      fips_chain ?S (?rest @ 0x80 # replicate (pad_zeros n) 0 @ be64 (8 * n))"
    using lens(2) by (simp only: fips_chain_append)
  show ?thesis
  proof (cases "r < 56")
    case True
    let ?ys = "?rest @ 0x80 # replicate (55 - r) 0"
    have "sha256_pad ctx = ctx\<lparr>ctx_data := ?ys @ drop 56 (ctx_data ctx)\<rparr>"
      using True I(1,4) by (simp add: sha256_pad_def ur lt zero_from_eq marked_prefix Let_def)
    then have "ctx_data (sha256_put_len (sha256_pad ctx)) = ?ys @ be64 (8 * n)"
      "ctx_state (sha256_put_len (sha256_pad ctx)) = ?S"
      using sha256_put_len_data [of "sha256_pad ctx" n ?ys "drop 56 (ctx_data ctx)"] I True lens
      by (simp_all add: r_def q_def)
    moreover have "pad_zeros n = 55 - r"
      using True by (simp add: pad_zeros_def r_def)
    ultimately show ?thesis
      using chain True lens by (simp add: sha256_final_def sha256_transform_compress fips_chain_block Let_def)
  next
    case False
    define ys where "ys = ?rest @ 0x80 # replicate (63 - r) 0"
    let ?ctx = "ctx\<lparr>ctx_data := ys, ctx_state := fips_compress ?S ys\<rparr>"
    have ys: "length ys = 64"
      using lens r by (simp add: ys_def)
    have "zero_from (Suc r) 64 ((ctx_data ctx)[r := 0x80]) = ys"
      using r I(1,4) by (simp add: zero_from_eq marked_prefix ys_def)
    then have "sha256_pad ctx = ?ctx\<lparr>ctx_data := replicate 56 0 @ drop 56 ys\<rparr>"
      using False ys I(5) by (simp add: sha256_pad_def ur lt sha256_transform_compress memset_def Let_def)
    then have "ctx_data (sha256_put_len (sha256_pad ctx)) = replicate 56 0 @ be64 (8 * n)"
      "ctx_state (sha256_put_len (sha256_pad ctx)) = fips_compress ?S ys"
      using sha256_put_len_data [of "sha256_pad ctx" n "replicate 56 0" "drop 56 ys"] I ys
      by (simp_all add: r_def q_def)
    moreover have "replicate (pad_zeros n) (0 :: BYTE) = replicate (63 - r) 0 @ replicate 56 0"
      using False r by (simp add: pad_zeros_def r_def replicate_add [symmetric])
    then have "fips_chain fips_H0 (fips_pad msg) = fips_chain ?S (ys @ (replicate 56 0 @ be64 (8 * n)))"
      by (simp only: chain append_assoc append_Cons ys_def)
    then have "fips_chain fips_H0 (fips_pad msg) =
        fips_compress (fips_compress ?S ys) (replicate 56 0 @ be64 (8 * n))"
      using ys fips_chain_append [of ys ?S "replicate 56 0 @ be64 (8 * n)"] by (simp add: fips_chain_block)
    ultimately show ?thesis
      by (simp add: sha256_final_def sha256_transform_compress Let_def)
  qed
qed

lemma sha256_final_hash:
  assumes "ctx_inv msg (length msg) ctx" "length hash = 32"
  shows "snd (sha256_final ctx hash) = fips_sha256 msg"
proof -
  have "snd (sha256_final ctx hash) = fold (sha256_output_step (ctx_state (fst (sha256_final ctx hash)))) [0..<4] hash"
    by (simp add: sha256_final_def Let_def)
  moreover have "length (ctx_state (fst (sha256_final ctx hash))) = 8"
    by (simp add: sha256_final_def sha256_transform_def Let_def split: prod.splits)
  ultimately show ?thesis
    using assms(2) by (simp add: sha256_output fips_sha256_def sha256_final_state [OF assms(1)])
qed

lemma length_fips_sha256 [simp]: "length (fips_sha256 msg) = 32"
proof -
  obtain ctx :: SHA256_CTX where "length (ctx_data ctx) = 64"
    by (rule that [of "\<lparr>ctx_data = replicate 64 0, ctx_datalen = 0, ctx_bitlen = 0, ctx_state = []\<rparr>"]) simp
  then have "snd (sha256_final (sha256_update (sha256_init ctx) msg (length msg)) (replicate 32 0)) = fips_sha256 msg"
    by (intro sha256_final_hash ctx_inv_update) simp_all
  moreover have "length (fold (sha256_output_step s) [0..<4] hash) = length hash" for s hash
    by (rule fold_keeps) (simp_all add: sha256_output_step_def Let_def)
  ultimately show ?thesis
    by (metis (no_types, lifting) length_replicate sha256_final_def snd_conv)
qed

section \<open>Comparison\<close>

lemma sha256_compare_from_drop:
  assumes "length d1 = 32" "length d2 = 32" "i \<le> 32"
  shows "sha256_compare_from d1 d2 i =
    (if be_val (drop i d1) < be_val (drop i d2) then -1
     else if be_val (drop i d1) > be_val (drop i d2) then 1 else 0)"
  using assms(3)
proof (induction i rule: inc_induct)
  case base
  then show ?case
    using assms by (simp add: sha256_compare_from.simps [of d1 d2 32])
next
  case (step i)
  have i: "i < 32"
    using step.hyps by simp
  let ?n = "256 ^ (31 - i) :: nat"
  let ?x = "be_val (drop (Suc i) d1)" and ?y = "be_val (drop (Suc i) d2)"
  have d: "be_val (drop i d1) = unat (d1 ! i) * ?n + ?x" "be_val (drop i d2) = unat (d2 ! i) * ?n + ?y"
    using assms(1,2) i by (simp_all add: Cons_nth_drop_Suc [symmetric])
  have b: "?x < ?n" "?y < ?n"
    using be_val_less [of "drop (Suc i) d1"] be_val_less [of "drop (Suc i) d2"] assms(1,2) by simp_all
  have less: "a * ?n + u < c * ?n + v" if "a < c" "u < ?n" for a c u v :: nat
  proof -
    have "a * ?n + u < Suc a * ?n" using that(2) by simp
    also have "\<dots> \<le> c * ?n" using that(1) by (intro mult_le_mono1) simp
    finally show ?thesis by simp
  qed
  consider "d1 ! i < d2 ! i" | "d1 ! i > d2 ! i" | "d1 ! i = d2 ! i"
    by (meson linorder_neqE)
  then show ?case
  proof cases
    case 1
    then have "be_val (drop i d1) < be_val (drop i d2)"
      using less [of "unat (d1 ! i)" "unat (d2 ! i)" ?x ?y] b by (simp add: d word_less_nat_alt)
    with 1 i show ?thesis
      by (simp add: sha256_compare_from.simps [of d1 d2 i])
  next
    case 2
    then have "be_val (drop i d1) > be_val (drop i d2)"
      using less [of "unat (d2 ! i)" "unat (d1 ! i)" ?y ?x] b by (simp add: d word_less_nat_alt)
    with 2 i show ?thesis
      by (simp add: sha256_compare_from.simps [of d1 d2 i])
  next
    case 3
    with i step.IH show ?thesis
      by (simp add: sha256_compare_from.simps [of d1 d2 i] d)
  qed
qed

lemma sha256_compare_value:
  assumes "length d1 = 32" "length d2 = 32"
  shows "sha256_compare d1 d2 =
    (if be_val d1 < be_val d2 then -1 else if be_val d1 > be_val d2 then 1 else 0)"
  using sha256_compare_from_drop [OF assms, of 0] by (simp add: sha256_compare_def)

section \<open>Properties\<close>

lemma sha256_update_whole: "sha256_update ctx xs (length xs) = fold sha256_update_byte xs ctx"
proof -
  have "fold sha256_update_byte xs ctx = fold sha256_update_byte (map ((!) xs) [0..<length xs]) ctx"
    by (simp only: map_nth)
  then show ?thesis
    by (simp only: sha256_update_def fold_map comp_def)
qed

text \<open>
  Property C1. Hashing a message with \<open>sha256_init\<close>, \<open>sha256_update\<close> and \<open>sha256_final\<close>, starting
  from an uninitialised context and an uninitialised digest array, stores the SHA-256 digest of the
  message as the standard defines it.
\<close>

theorem sha256_correct:
  assumes "length (ctx_data ctx) = 64" "length hash = 32" "length msg < 2 ^ 32"
  shows "snd (sha256_final (sha256_update (sha256_init ctx) msg (length msg)) hash) = fips_sha256 msg"
  using assms by (intro sha256_final_hash ctx_inv_update) simp_all

theorem sha256_correct_witness:
  "snd (sha256_final
      (sha256_update
        (sha256_init \<lparr>ctx_data = replicate 64 7, ctx_datalen = 9, ctx_bitlen = 1, ctx_state = []\<rparr>)
        [97, 98, 99] 3)
      (replicate 32 1)) = fips_sha256 [97, 98, 99]"
  using sha256_correct
    [of "\<lparr>ctx_data = replicate 64 7, ctx_datalen = 9, ctx_bitlen = 1, ctx_state = []\<rparr>"
      "replicate 32 1" "[97, 98, 99]"]
  by (simp add: numeral_3_eq_3)

text \<open>
  Feeding a message in two pieces leaves the same context as feeding it at once.
\<close>

lemma sha256_update_append:
  "sha256_update ctx (xs @ ys) (length (xs @ ys)) =
     sha256_update (sha256_update ctx xs (length xs)) ys (length ys)"
  by (simp only: sha256_update_whole fold_append comp_def)

text \<open>
  \<open>sha256_compare\<close> orders two digests as the numbers they hold most significant byte
  first: \<open>-1\<close>, 0 or 1 for less, equal or greater.
\<close>

lemma sha256_compare_order:
  assumes "length d1 = 32" "length d2 = 32"
  shows "sha256_compare d1 d2 =
    (if be_val d1 < be_val d2 then -1 else if be_val d1 > be_val d2 then 1 else 0)"
  using assms by (rule sha256_compare_value)

end
