(* ===== verification/C_Text.thy ===== *)
theory C_Text
  imports Prelude
begin

text \<open>
  The text side of the C library as the server uses it: strings that end at a NUL character,
  the \<open>sscanf\<close> conversions \<open>%x\<close>, \<open>%lx\<close>, \<open>%2hhx\<close> and \<open>%s\<close>, and the \<open>printf\<close> conversions that
  print fixed-width hexadecimal and decimal numbers.  A conversion that does not match returns
  \<open>None\<close>: \<open>sscanf\<close> then stops and leaves the remaining variables unassigned.  The lemmas show that
  scanning undoes printing.
\<close>

section \<open>Strings\<close>

abbreviation (input) NUL :: char where "NUL \<equiv> CHR 0x00"
abbreviation (input) CR :: char where "CR \<equiv> CHR 0x0D"
abbreviation (input) LF :: char where "LF \<equiv> CHR 0x0A"
abbreviation (input) TAB :: char where "TAB \<equiv> CHR 0x09"

text \<open>The string that starts at the beginning of a memory area.\<close>

definition c_str :: "char list \<Rightarrow> char list" where
  "c_str mem = takeWhile (\<lambda>c. c \<noteq> NUL) mem"

definition strlen :: "char list \<Rightarrow> nat" where
  "strlen mem = length (c_str mem)"

lemma c_str_append_NUL [simp]: "NUL \<notin> set s \<Longrightarrow> c_str (s @ NUL # t) = s"
  by (induction s) (auto simp: c_str_def)

lemma c_str_id: "NUL \<notin> set s \<Longrightarrow> c_str s = s"
  by (auto simp: c_str_def takeWhile_eq_all_conv)

lemma NUL_notin_c_str [simp]: "NUL \<notin> set (c_str s)"
  by (auto simp: c_str_def dest: set_takeWhileD)

text \<open>
  The same on memory with cells that were never written: reading one of them, or running off the
  end of the area before a NUL is found, is a fault.
\<close>

fun read_str :: "char option list \<Rightarrow> char list c_result" where
  "read_str [] = Inl Out_Of_Bounds"
| "read_str (None # _) = Inl Uninitialised_Read"
| "read_str (Some c # mem) = (if c = NUL then Inr [] else bind_c (read_str mem) (\<lambda>s. Inr (c # s)))"

lemma read_str_string [simp]:
  "NUL \<notin> set s \<Longrightarrow> read_str (map Some s @ Some NUL # mem) = Inr s"
  by (induction s) auto

text \<open>Storing a string and its terminator at the beginning of an area.\<close>

definition store_str :: "char list \<Rightarrow> char option list \<Rightarrow> char option list c_result" where
  "store_str s mem =
     (if length s + 1 \<le> length mem then Inr (map Some (s @ [NUL]) @ drop (length s + 1) mem)
      else Inl Out_Of_Bounds)"

definition isspace :: "char \<Rightarrow> bool" where
  "isspace c \<longleftrightarrow> c \<in> {CHR '' '', TAB, LF, CHR 0x0B, CHR 0x0C, CR}"

section \<open>Hexadecimal digits\<close>

definition hex_digit :: "char \<Rightarrow> nat option" where
  "hex_digit c =
     (let n = of_char c in
      if 48 \<le> n \<and> n \<le> 57 then Some (n - 48)
      else if 97 \<le> n \<and> n \<le> 102 then Some (n - 87)
      else if 65 \<le> n \<and> n \<le> 70 then Some (n - 55)
      else None)"

definition isxdigit :: "char \<Rightarrow> bool" where
  "isxdigit c \<longleftrightarrow> hex_digit c \<noteq> None"

text \<open>The value of a run of hexadecimal digits.\<close>

definition hex_value :: "char list \<Rightarrow> nat" where
  "hex_value ds = foldl (\<lambda>v c. 16 * v + (case hex_digit c of Some d \<Rightarrow> d | None \<Rightarrow> 0)) 0 ds"

definition hex_char :: "nat \<Rightarrow> char" where
  "hex_char d = (if d < 10 then char_of (48 + d) else char_of (87 + d))"

text \<open>\<open>%0nx\<close> of a number that has at most \<open>n\<close> hexadecimal digits.\<close>

fun print_hex :: "nat \<Rightarrow> nat \<Rightarrow> char list" where
  "print_hex 0 v = []"
| "print_hex (Suc n) v = print_hex n (v div 16) @ [hex_char (v mod 16)]"

lemma hex_digit_hex_char [simp]: "d < 16 \<Longrightarrow> hex_digit (hex_char d) = Some d"
  by (auto simp: hex_digit_def hex_char_def Let_def)

lemma isxdigit_hex_char [simp]: "d < 16 \<Longrightarrow> isxdigit (hex_char d)"
  by (simp add: isxdigit_def)

lemma length_print_hex [simp]: "length (print_hex n v) = n"
  by (induction n arbitrary: v) simp_all

lemma print_hex_digits: "c \<in> set (print_hex n v) \<Longrightarrow> isxdigit c"
  by (induction n arbitrary: v) auto

lemma hex_value_snoc: "hex_value (ds @ [c]) = 16 * hex_value ds + (case hex_digit c of Some d \<Rightarrow> d | None \<Rightarrow> 0)"
  by (simp add: hex_value_def)

lemma hex_value_print_hex [simp]: "v < 16 ^ n \<Longrightarrow> hex_value (print_hex n v) = v"
proof (induction n arbitrary: v)
  case 0
  then show ?case by (simp add: hex_value_def)
next
  case (Suc n)
  then have "v div 16 < 16 ^ n"
    by (simp add: less_mult_imp_div_less mult.commute)
  with Suc.IH show ?case
    by (simp add: hex_value_snoc)
qed

text \<open>Separators and letters that are not hexadecimal digits.\<close>

lemma not_isxdigit [simp]:
  "\<not> isxdigit (CHR '' '')" "\<not> isxdigit NUL" "\<not> isxdigit CR" "\<not> isxdigit LF"
  "\<not> isxdigit (CHR ''x'')" "\<not> isxdigit (CHR ''X'')" "\<not> isxdigit (CHR ''-'')" "\<not> isxdigit (CHR ''+'')"
  by (simp_all add: isxdigit_def hex_digit_def Let_def)

lemma isxdigit_not_space: "isxdigit c \<Longrightarrow> \<not> isspace c"
  by (auto simp: isspace_def isxdigit_def hex_digit_def Let_def)

section \<open>Scanning\<close>

text \<open>
  The conversions for hexadecimal numbers.  After white space they take an optional sign, an
  optional prefix \<open>0x\<close> and a run of digits, all within the field width if there is one.  The
  result is the sign, the magnitude and the unread rest.
\<close>

definition scan_hex :: "nat option \<Rightarrow> char list \<Rightarrow> ((bool \<times> nat) \<times> char list) option" where
  "scan_hex width s =
     (let s1 = dropWhile isspace s;
          field = (case width of None \<Rightarrow> s1 | Some w \<Rightarrow> take w s1);
          neg = (case field of c # _ \<Rightarrow> c = CHR ''-'' | [] \<Rightarrow> False);
          t = (case field of c # u \<Rightarrow> if c = CHR ''-'' \<or> c = CHR ''+'' then u else field | [] \<Rightarrow> []);
          prefix = (case t of c # d # _ \<Rightarrow> c = CHR ''0'' \<and> (d = CHR ''x'' \<or> d = CHR ''X'') | _ \<Rightarrow> False);
          u = (if prefix then drop 2 t else t);
          ds = takeWhile isxdigit u;
          used = length field - length u + length ds
      in if ds = [] \<and> \<not> prefix then None
         else Some ((neg, hex_value ds), drop used s1))"

text \<open>\<open>strtoul\<close>: a magnitude that does not fit is replaced by the largest value.\<close>

definition strtoul :: "bool \<times> nat \<Rightarrow> u64" where
  "strtoul v = (case v of (neg, n) \<Rightarrow>
     if n \<ge> 2 ^ 64 then -1 else if neg then - word_of_nat n else word_of_nat n)"

definition scan_lx :: "char list \<Rightarrow> (u64 \<times> char list) option" where
  "scan_lx s = map_option (\<lambda>(v, r). (strtoul v, r)) (scan_hex None s)"

definition scan_x :: "char list \<Rightarrow> (WORD \<times> char list) option" where
  "scan_x s = map_option (\<lambda>(v, r). (ucast (strtoul v), r)) (scan_hex None s)"

definition scan_2hhx :: "char list \<Rightarrow> (BYTE \<times> char list) option" where
  "scan_2hhx s = map_option (\<lambda>(v, r). (ucast (strtoul v), r)) (scan_hex (Some 2) s)"

text \<open>\<open>%s\<close>: a non-empty run of characters that are not white space.\<close>

definition scan_s :: "char list \<Rightarrow> (char list \<times> char list) option" where
  "scan_s s =
     (let s1 = dropWhile isspace s;
          tok = takeWhile (\<lambda>c. \<not> isspace c) s1
      in if tok = [] then None else Some (tok, drop (length tok) s1))"

section \<open>Scanning what was printed\<close>

lemma takeWhile_stop: "list_all P xs \<Longrightarrow> (ys = [] \<or> \<not> P (hd ys)) \<Longrightarrow> takeWhile P (xs @ ys) = xs"
  by (cases ys) (auto simp: list_all_iff takeWhile_append)

lemma dropWhile_space_digits:
  assumes "list_all isxdigit ds" "ds \<noteq> []"
  shows "dropWhile isspace (CHR '' '' # ds @ r) = ds @ r" "dropWhile isspace (ds @ r) = ds @ r"
  using assms by (cases ds; auto simp: isspace_def dest: isxdigit_not_space)+

text \<open>A run of digits without sign or prefix, followed by something that is not a digit.\<close>

lemma scan_hex_digits:
  assumes ds: "list_all isxdigit ds" "ds \<noteq> []" and r: "r = [] \<or> \<not> isxdigit (hd r) \<and> hd r \<notin> {CHR ''x'', CHR ''X''}"
  shows "scan_hex None (ds @ r) = Some ((False, hex_value ds), r)"
    and "scan_hex None (CHR '' '' # ds @ r) = Some ((False, hex_value ds), r)"
proof -
  obtain d ds' where d: "ds = d # ds'"
    using ds(2) by (cases ds) auto
  have xd: "isxdigit d" and sgn: "d \<noteq> CHR ''-''" "d \<noteq> CHR ''+''"
    using ds(1) d by auto
  have pre: "\<not> (case ds @ r of c # e # _ \<Rightarrow> c = CHR ''0'' \<and> (e = CHR ''x'' \<or> e = CHR ''X'') | _ \<Rightarrow> False)"
    using ds(1) r by (cases ds'; cases r) (auto simp: d)
  have "takeWhile isxdigit (ds @ r) = ds"
    by (rule takeWhile_stop) (use ds r in auto)
  with d pre sgn have "scan_hex None (ds @ r) = Some ((False, hex_value ds), r)"
    using dropWhile_space_digits(2) [OF ds, of r] by (simp add: scan_hex_def Let_def split: list.splits)
  moreover have "scan_hex None (CHR '' '' # ds @ r) = scan_hex None (ds @ r)"
    using dropWhile_space_digits [OF ds, of r] by (simp add: scan_hex_def)
  ultimately show "scan_hex None (ds @ r) = Some ((False, hex_value ds), r)"
    and "scan_hex None (CHR '' '' # ds @ r) = Some ((False, hex_value ds), r)"
    by simp_all
qed

lemma scan_hex_pair:
  assumes "isxdigit a" "isxdigit b"
  shows "scan_hex (Some 2) (a # b # r) = Some ((False, hex_value [a, b]), r)"
proof -
  have "\<not> isspace a" "a \<noteq> CHR ''-''" "a \<noteq> CHR ''+''" "b \<noteq> CHR ''x''" "b \<noteq> CHR ''X''"
    using assms isxdigit_not_space by auto
  with assms show ?thesis
    by (simp add: scan_hex_def Let_def)
qed

lemma scan_s_token:
  assumes "list_all (\<lambda>c. \<not> isspace c) tok" "tok \<noteq> []" "r = [] \<or> isspace (hd r)"
  shows "scan_s (CHR '' '' # tok @ r) = Some (tok, r)"
proof -
  have "dropWhile isspace (CHR '' '' # tok @ r) = tok @ r"
    using assms(1,2) by (cases tok) (auto simp: isspace_def)
  moreover have "takeWhile (\<lambda>c. \<not> isspace c) (tok @ r) = tok"
    by (rule takeWhile_stop) (use assms in auto)
  ultimately show ?thesis
    using assms(2) by (simp add: scan_s_def)
qed

lemma strtoul_small: "n < 2 ^ 64 \<Longrightarrow> strtoul (False, n) = word_of_nat n"
  by (simp add: strtoul_def)

lemma list_all_print_hex [simp]: "list_all isxdigit (print_hex n v)"
  by (auto simp: list_all_iff dest: print_hex_digits)

lemma print_hex_not_space [simp]: "list_all (\<lambda>c. \<not> isspace c) (print_hex n v)"
  by (auto simp: list_all_iff dest: print_hex_digits isxdigit_not_space)

lemma print_hex_Nil_iff [simp]: "print_hex n v = [] \<longleftrightarrow> n = 0"
  by (metis length_0_conv length_print_hex)

lemma unat_word_lt: "unat (w :: WORD) < 16 ^ 8" "unat (x :: u64) < 16 ^ 16" "unat (b :: BYTE) < 16 ^ 2"
  using unsigned_less [of w] unsigned_less [of x] unsigned_less [of b] by simp_all

lemma unat_lt_64: "unat (w :: WORD) < 2 ^ 64" "unat (b :: BYTE) < 2 ^ 64"
  using unsigned_less [of w] unsigned_less [of b]
  by (auto intro: order.strict_trans)

lemma ucast_word_of_unat:
  "ucast (word_of_nat (unat w) :: u64) = (w :: WORD)" "ucast (word_of_nat (unat b) :: u64) = (b :: BYTE)"
  by (simp_all add: of_nat_unat ucast_up_ucast_id is_up_def source_size target_size)

lemma scan_x_print_hex:
  assumes "r = [] \<or> hd r = CHR '' ''"
  shows "scan_x (print_hex 8 (unat w) @ r) = Some (w, r)"
proof -
  have "scan_hex None (print_hex 8 (unat w) @ r) = Some ((False, unat w), r)"
    using scan_hex_digits(1) [of "print_hex 8 (unat w)" r] assms unat_word_lt(1) [of w] by auto
  then show ?thesis
    using unat_lt_64(1) [of w] by (simp only: scan_x_def option.map prod.case strtoul_small ucast_word_of_unat)
qed

lemma scan_lx_print_hex:
  assumes "r = [] \<or> hd r = CHR '' ''"
  shows "scan_lx (CHR '' '' # print_hex 16 (unat w) @ r) = Some (w, r)"
proof -
  have "scan_hex None (CHR '' '' # print_hex 16 (unat w) @ r) = Some ((False, unat w), r)"
    using scan_hex_digits(2) [of "print_hex 16 (unat w)" r] assms unat_word_lt(2) [of w] by auto
  moreover have "unat w < 2 ^ 64"
    using unsigned_less [of w] by simp
  ultimately show ?thesis
    by (simp add: scan_lx_def strtoul_def)
qed

lemma scan_2hhx_print_hex: "scan_2hhx (print_hex 2 (unat b) @ r) = Some (b, r)"
proof -
  have two: "print_hex 2 (unat b) = [hex_char (unat b div 16 mod 16), hex_char (unat b mod 16)]"
    by (simp add: numeral_2_eq_2)
  have "scan_hex (Some 2) (print_hex 2 (unat b) @ r) = Some ((False, hex_value (print_hex 2 (unat b))), r)"
    unfolding two by (simp add: scan_hex_pair)
  moreover have "hex_value (print_hex 2 (unat b)) = unat b"
    using unat_word_lt(3) [of b] by simp
  ultimately show ?thesis
    using unat_lt_64(2) [of b] by (simp only: scan_2hhx_def option.map prod.case strtoul_small ucast_word_of_unat)
qed

section \<open>Decimal numbers\<close>

text \<open>\<open>%d\<close>, and \<open>%0nd\<close> where \<open>n\<close> is the minimal width.\<close>

fun print_nat :: "nat \<Rightarrow> char list" where
  "print_nat n = (if n < 10 then [char_of (48 + n)] else print_nat (n div 10) @ [char_of (48 + n mod 10)])"

declare print_nat.simps [simp del]

definition print_int :: "int \<Rightarrow> char list" where
  "print_int i = (if i < 0 then ''-'' @ print_nat (nat (- i)) else print_nat (nat i))"

definition print_0d :: "nat \<Rightarrow> int \<Rightarrow> char list" where
  "print_0d width i =
     (let sign = (if i < 0 then ''-'' else []); ds = print_nat (nat \<bar>i\<bar>)
      in sign @ replicate (width - length sign - length ds) (CHR ''0'') @ ds)"

text \<open>\<open>%-ns\<close>: padded with spaces on the right.\<close>

definition print_left :: "nat \<Rightarrow> char list \<Rightarrow> char list" where
  "print_left width s = s @ replicate (width - length s) (CHR '' '')"

lemma length_print_nat: "n < 10 ^ k \<Longrightarrow> 0 < k \<Longrightarrow> length (print_nat n) \<le> k"
proof (induction n arbitrary: k rule: print_nat.induct)
  case (1 n)
  show ?case
  proof (cases "n < 10")
    case True
    then show ?thesis
      using 1(3) by (simp add: print_nat.simps)
  next
    case False
    obtain j where k: "k = Suc j"
      using 1(3) by (cases k) auto
    with 1(2) False have "0 < j" "n div 10 < 10 ^ j"
      by (cases j; simp add: less_mult_imp_div_less mult.commute)+
    with 1(1) [OF False] k False show ?thesis
      by (simp add: print_nat.simps [of n])
  qed
qed

lemma length_print_0d:
  "0 \<le> i \<Longrightarrow> i < 10 ^ k \<Longrightarrow> 0 < k \<Longrightarrow> length (print_0d k i) = k"
  using length_print_nat [of "nat i" k] by (simp add: print_0d_def nat_less_iff Let_def)

lemma NUL_notin_print_nat [simp]: "NUL \<notin> set (print_nat n)"
proof (induction n rule: print_nat.induct)
  case (1 n)
  have digit: "NUL \<noteq> char_of (48 + m)" if "m < 10" for m :: nat
  proof
    assume "NUL = char_of (48 + m)"
    then have "of_char (char_of (48 + m)) = (of_char NUL :: nat)" by (simp only:)
    with that show False by simp
  qed
  show ?case
    by (subst print_nat.simps) (use 1 digit in simp)
qed

lemma NUL_notin_print_0d [simp]: "NUL \<notin> set (print_0d k i)"
  by (auto simp: print_0d_def Let_def)

end
