(* ===== verification/Pow.thy ===== *)
theory Pow
  imports Uint256 Sha256 C_Text
begin

text \<open>
  The proof-of-work functions of \<open>handler_helper.c\<close>: reading a seed from hexadecimal text,
  expanding the difficulty to a 256-bit target, laying out the 40 bytes that are hashed and
  comparing the double SHA-256 digest with the target.  The byte order of the host is a
  parameter: \<open>ntohl\<close> and a \<open>memcpy\<close> from an integer depend on it.
\<close>

section \<open>Byte order\<close>

text \<open>The four bytes of a 32-bit word in the opposite order.\<close>

definition bswap32 :: "WORD \<Rightarrow> WORD" where
  "bswap32 w = push_bit 24 (w AND 0xff) OR push_bit 16 (drop_bit 8 w AND 0xff)
     OR push_bit 8 (drop_bit 16 w AND 0xff) OR drop_bit 24 w"

datatype endian = Little | Big

definition ntohl :: "endian \<Rightarrow> WORD \<Rightarrow> WORD" where
  "ntohl host w = (case host of Little \<Rightarrow> bswap32 w | Big \<Rightarrow> w)"

text \<open>The eight bytes of a 64-bit integer, most significant first, and as the host stores them.\<close>

definition be_bytes64 :: "u64 \<Rightarrow> BYTE list" where
  "be_bytes64 w = map (\<lambda>i. ucast (drop_bit (8 * i) w)) (rev [0..<8])"

definition host_bytes64 :: "endian \<Rightarrow> u64 \<Rightarrow> BYTE list" where
  "host_bytes64 host w = (case host of Little \<Rightarrow> rev (be_bytes64 w) | Big \<Rightarrow> be_bytes64 w)"

section \<open>Hexadecimal text\<close>

definition byte_print :: "BYTE list \<Rightarrow> nat \<Rightarrow> char list" where
  "byte_print b n =
     ''0x'' @ concat (map (\<lambda>i. print_hex 2 (unat (b ! i))) [0..<n]) @ [LF]"

definition print_uint256 :: "BYTE list \<Rightarrow> char list" where
  "print_uint256 uint256 =
     ''0x'' @ concat (map (\<lambda>i. print_hex 2 (unat (uint256 ! i))) [0..<32]) @ [LF]"

text \<open>
  One call \<open>sscanf (pos, "%2hhx", val + count)\<close>.  The cell keeps its value when the conversion
  does not match.  The pointer moves on by two characters whatever was read.
\<close>

definition hstob_step :: "char option list \<Rightarrow> nat \<Rightarrow> BYTE list \<Rightarrow> BYTE list c_result" where
  "hstob_step mem count val =
     bind_c (read_str (drop (2 * count) mem)) (\<lambda>s.
       Inr (case scan_2hhx s of Some (b, _) \<Rightarrow> val[count := b] | None \<Rightarrow> val))"

definition hstob :: "char option list \<Rightarrow> nat \<Rightarrow> BYTE list c_result" where
  "hstob hex_string n =
     fold (\<lambda>count r. bind_c r (hstob_step hex_string count)) [0..<n] (Inr (replicate n 0))"

definition seed_from_raw :: "char option list \<Rightarrow> BYTE list c_result" where
  "seed_from_raw raw_seed = hstob raw_seed 32"

section \<open>Target\<close>

definition BYTE_TWO :: "BYTE list" where
  "BYTE_TWO = [0x00, 0x00, 0x00, 0x00,
               0x00, 0x00, 0x00, 0x00,
               0x00, 0x00, 0x00, 0x00,
               0x00, 0x00, 0x00, 0x00,
               0x00, 0x00, 0x00, 0x00,
               0x00, 0x00, 0x00, 0x00,
               0x00, 0x00, 0x00, 0x00,
               0x00, 0x00, 0x00, 0x02]"

text \<open>
  The arrays \<open>get_target\<close> works with, at distinct addresses: the constant two, the local \<open>beta\<close>
  and the two blocks from \<open>malloc\<close>.  The contents of the last three are arbitrary at first.
\<close>

abbreviation (input) p_two :: ptr where "p_two \<equiv> 10"
abbreviation (input) p_beta :: ptr where "p_beta \<equiv> 11"
abbreviation (input) p_target :: ptr where "p_target \<equiv> 12"
abbreviation (input) p_two_exp :: ptr where "p_two_exp \<equiv> 13"

definition get_target_in :: "store \<Rightarrow> WORD \<Rightarrow> store" where
  "get_target_in st0 difficulty =
     (let alpha_int = uint (difficulty AND 0xFF);
          st1 = uint256_init st0 p_beta;
          st2 = st1(p_beta := (st1 p_beta)
                  [29 := ucast (drop_bit (8 * 1) difficulty AND 0xFF),
                   30 := ucast (drop_bit (8 * 2) difficulty AND 0xFF),
                   31 := ucast (drop_bit (8 * 3) difficulty AND 0xFF)]);
          st3 = uint256_init (uint256_init st2 p_target) p_two_exp;
          st4 = uint256_exp st3 p_two_exp p_two (word_of_int (8 * (alpha_int - 3)))
      in uint256_mul st4 p_target p_beta p_two_exp)"

definition get_target_frame :: store where
  "get_target_frame = (\<lambda>_. replicate 32 0xA5)(p_two := BYTE_TWO)"

definition get_target :: "WORD \<Rightarrow> BYTE list" where
  "get_target difficulty = get_target_in get_target_frame difficulty p_target"

section \<open>The hashed block\<close>

definition get_x :: "endian \<Rightarrow> BYTE list \<Rightarrow> u64 \<Rightarrow> BYTE list" where
  "get_x host seed solution =
     (let x = memcpy_at (replicate 40 0xA5) 0 seed 32
      in if ucast (ntohl host (ucast solution)) \<noteq> solution
         then fold (\<lambda>i x. x[39 - i := ucast (drop_bit (8 * i) solution AND 0xFF)]) [0..<8] x
         else memcpy_at x 32 (host_bytes64 host solution) 8)"

text \<open>A context and a digest buffer that were never written.\<close>

definition fresh_ctx :: SHA256_CTX where
  "fresh_ctx = \<lparr>ctx_data = replicate 64 0xA5, ctx_datalen = 0xA5, ctx_bitlen = 0xA5,
                ctx_state = replicate 8 0xA5\<rparr>"

definition is_valid_soln :: "endian \<Rightarrow> BYTE list \<Rightarrow> BYTE list \<Rightarrow> u64 \<Rightarrow> int" where
  "is_valid_soln host target seed solution =
     (let x = get_x host seed solution;
          (ctx1, buf1) = sha256_final (sha256_update (sha256_init fresh_ctx) x 40) (replicate 32 0xA5);
          (ctx2, buf2) = sha256_final (sha256_update (sha256_init ctx1) buf1 32) buf1
      in sha256_compare buf2 target)"

section \<open>Reading what was printed\<close>

lemma hex_char_not_NUL [simp]: "d < 16 \<Longrightarrow> hex_char d \<noteq> NUL"
  by (metis isxdigit_hex_char not_isxdigit(2))

lemma NUL_notin_print_hex [simp]: "NUL \<notin> set (print_hex n v)"
  using print_hex_digits not_isxdigit(2) by blast

definition hex_text :: "BYTE list \<Rightarrow> char list" where
  "hex_text bs = concat (map (\<lambda>b. print_hex 2 (unat b)) bs)"

lemma length_hex_text [simp]: "length (hex_text bs) = 2 * length bs"
  by (induction bs) (simp_all add: hex_text_def)

lemma hex_text_append: "hex_text (xs @ ys) = hex_text xs @ hex_text ys"
  by (simp add: hex_text_def)

lemma NUL_notin_hex_text [simp]: "NUL \<notin> set (hex_text bs)"
  by (auto simp: hex_text_def)

lemma hex_text_digits: "c \<in> set (hex_text bs) \<Longrightarrow> isxdigit c"
  by (auto simp: hex_text_def dest: print_hex_digits)

lemma byte_print_eq: "byte_print b (length b) = ''0x'' @ hex_text b @ [LF]"
proof -
  have "map (\<lambda>i. print_hex 2 (unat (b ! i))) [0..<length b] = map (\<lambda>x. print_hex 2 (unat x)) b"
    by (rule nth_equalityI) simp_all
  then show ?thesis
    by (simp only: byte_print_def hex_text_def)
qed

lemma hstob_step_hex_text:
  assumes "k < length bs" "length val = n" "NUL \<notin> set s"
  shows "hstob_step (map Some (hex_text bs @ s) @ Some NUL # rest) k val = Inr (val[k := bs ! k])"
proof -
  have split: "hex_text bs = hex_text (take k bs) @ print_hex 2 (unat (bs ! k)) @ hex_text (drop (Suc k) bs)"
    by (subst id_take_nth_drop [OF assms(1)]) (simp only: hex_text_def map_append list.map concat_append concat.simps)
  have "drop (2 * k) (map Some (hex_text bs @ s) @ Some NUL # rest) =
      map Some (print_hex 2 (unat (bs ! k)) @ hex_text (drop (Suc k) bs) @ s) @ Some NUL # rest"
    using assms(1) by (subst split) simp
  moreover have "NUL \<notin> set (print_hex 2 (unat (bs ! k)) @ hex_text (drop (Suc k) bs) @ s)"
    using assms(3) by auto
  ultimately show ?thesis
    by (simp only: hstob_step_def read_str_string bind_c_simps scan_2hhx_print_hex
      option.case prod.case not_False_eq_True)
qed

lemma hstob_hex_text:
  assumes "NUL \<notin> set s"
  shows "hstob (map Some (hex_text bs @ s) @ Some NUL # rest) (length bs) = Inr bs"
proof -
  let ?mem = "map Some (hex_text bs @ s) @ Some NUL # rest"
  have "k \<le> length bs \<Longrightarrow>
    fold (\<lambda>count r. bind_c r (hstob_step ?mem count)) [0..<k] (Inr (replicate (length bs) 0)) =
      Inr (take k bs @ replicate (length bs - k) 0)" for k
  proof (induction k)
    case 0
    then show ?case by simp
  next
    case (Suc k)
    let ?v = "take k bs @ replicate (length bs - k) (0 :: BYTE)"
    have "hstob_step ?mem k ?v = Inr (?v[k := bs ! k])"
      by (rule hstob_step_hex_text) (use Suc assms in auto)
    moreover have "?v[k := bs ! k] = take (Suc k) bs @ replicate (length bs - Suc k) 0"
    proof -
      have "replicate (length bs - k) (0 :: BYTE) = 0 # replicate (length bs - Suc k) 0"
        using Suc.prems by (metis Suc_diff_le diff_Suc_Suc replicate_Suc)
      then show ?thesis
        using Suc.prems by (simp add: list_update_append take_Suc_conv_app_nth)
    qed
    ultimately show ?case
      using Suc by (simp add: upt_Suc_append del: upt_Suc)
  qed
  from this [of "length bs"] show ?thesis
    by (simp add: hstob_def)
qed

section \<open>The target as a number\<close>

lemma BYTE_TWO_eq: "BYTE_TWO = zeros[31 := 2]"
  by (simp add: BYTE_TWO_def zeros_def numeral_eq_Suc)

lemma ucast_and_ff: "ucast (x AND 0xFF :: WORD) = (ucast x :: BYTE)"
proof -
  have "x AND 0xFF = take_bit 8 x"
    by (simp add: take_bit_eq_mask mask_eq_exp_minus_1)
  then show ?thesis
    by (auto intro!: bit_eqI simp: bit_simps)
qed

lemma be_val_last3:
  assumes "length xs = 32" "take 29 xs = replicate 29 0"
  shows "be_val (xs[29 := a, 30 := b, 31 := c]) = unat a * 65536 + unat b * 256 + unat c"
proof -
  have "length (drop 29 xs) = Suc (Suc (Suc 0))"
    using assms(1) by simp
  then obtain u v w where "drop 29 xs = [u, v, w]"
    by (auto simp only: length_Suc_conv length_0_conv)
  then have "xs = replicate 29 0 @ [u, v, w]"
    using assms(2) by (metis append_take_drop_id)
  then show ?thesis
    by (simp add: list_update_append be_val_append)
qed

lemma get_target_store:
  assumes len: "length (st p_beta) = 32" "length (st p_target) = 32" "length (st p_two_exp) = 32"
    and two: "st p_two = BYTE_TWO"
  shows "get_target_in st d =
    uint256_mul (st(p_beta := zeros[29 := ucast (drop_bit 8 d), 30 := ucast (drop_bit 16 d),
                                     31 := ucast (drop_bit 24 d)],
                    p_target := zeros,
                    p_two_exp := pow2 (unat (word_of_int (8 * (uint (d AND 0xFF) - 3)) :: WORD))))
      p_target p_beta p_two_exp"
proof -
  have "uint256_exp (st(p_beta := b, p_target := zeros, p_two_exp := zeros)) p_two_exp p_two e =
      st(p_beta := b, p_target := zeros, p_two_exp := pow2 (unat e))" for b e
    by (subst uint256_exp_pow2) (simp_all add: two BYTE_TWO_eq)
  then show ?thesis
    by (simp add: get_target_in_def Let_def uint256_init_eq len ucast_and_ff)
qed

lemma unat_exponent:
  assumes "a < 256"
  shows "unat (word_of_int (8 * (int a - 3)) :: WORD) = 8 * (if a < 3 then 2 ^ 29 - 3 + a else a - 3)"
proof -
  have "unat (word_of_int (8 * (int a - 3)) :: WORD) = nat (8 * (int a - 3) mod 2 ^ 32)"
    by (simp only: unat_eq_nat_uint uint_word_of_int len_num1 len_bit0 len_bit1) simp
  moreover have "nat (8 * (int a - 3) mod 2 ^ 32) = 8 * (if a < 3 then 2 ^ 29 - 3 + a else a - 3)"
  proof (cases "a < 3")
    case True
    then have "a = 0 \<or> a = 1 \<or> a = 2" by arith
    then show ?thesis by auto
  next
    case False
    then have "8 * (int a - 3) mod 2 ^ 32 = 8 * (int a - 3)"
      using assms by (intro mod_pos_pos_trivial) simp_all
    with False show ?thesis by simp
  qed
  ultimately show ?thesis by (rule trans)
qed

lemma exponent_bytes:
  fixes d :: WORD
  shows "unat (word_of_int (8 * (uint (d AND 0xFF) - 3)) :: WORD) =
    8 * (if unat (d AND 0xFF) < 3 then 2 ^ 29 - 3 + unat (d AND 0xFF) else unat (d AND 0xFF) - 3)"
proof -
  have "unat (d AND 0xFF) < 256" "uint (d AND 0xFF) = int (unat (d AND 0xFF))"
    by (simp add: unat_and_255) simp
  then show ?thesis
    using unat_exponent by (simp only:)
qed

definition compact_beta :: "WORD \<Rightarrow> nat" where
  "compact_beta d = unat (ucast (drop_bit 8 d) :: BYTE) * 65536
     + unat (ucast (drop_bit 16 d) :: BYTE) * 256 + unat (ucast (drop_bit 24 d) :: BYTE)"

lemma get_target_in_value:
  assumes "length (st p_beta) = 32" "length (st p_target) = 32" "length (st p_two_exp) = 32"
    and "st p_two = BYTE_TWO"
  shows "be_val (get_target_in st d p_target) =
    (if unat (d AND 0xFF) < 3 then 0
     else compact_beta d * 256 ^ (unat (d AND 0xFF) - 3) mod 256 ^ 32)"
proof -
  let ?b = "zeros[29 := ucast (drop_bit 8 d), 30 := ucast (drop_bit 16 d), 31 := ucast (drop_bit 24 d :: WORD)]"
  let ?k = "if unat (d AND 0xFF) < 3 then 2 ^ 29 - 3 + unat (d AND 0xFF) else unat (d AND 0xFF) - 3"
  have "be_val (get_target_in st d p_target) = be_val ?b * 256 ^ ?k mod 256 ^ 32"
    unfolding get_target_store [OF assms]
    by (subst uint256_mul_bytes [where k = ?k]) (simp_all only: exponent_bytes fun_upd_apply length_list_update length_zeros if_True if_False simp_thms arith_simps num.distinct num.inject zero_neq_numeral numeral_eq_iff refl not_False_eq_True)
  also have "be_val ?b = compact_beta d"
    by (subst be_val_last3) (simp_all add: compact_beta_def, simp add: zeros_def)
  finally show ?thesis
    using le_imp_power_dvd [of 32 "2 ^ 29 - 3 + unat (d AND 0xFF)" "256 :: nat"]
    by (auto simp: mod_eq_0_iff_dvd simp del: power_Suc)
qed

lemma and_ff: "(x :: WORD) AND 0xFF = take_bit 8 x"
  by (simp add: take_bit_eq_mask mask_eq_exp_minus_1)

lemma bswap32_bytes:
  "ucast (bswap32 w) = (ucast (drop_bit 24 w) :: BYTE)"
  "ucast (drop_bit 8 (bswap32 w)) = (ucast (drop_bit 16 w) :: BYTE)"
  "ucast (drop_bit 16 (bswap32 w)) = (ucast (drop_bit 8 w) :: BYTE)"
  "ucast (drop_bit 24 (bswap32 w)) = (ucast w :: BYTE)"
  unfolding bswap32_def and_ff by (rule bit_eqI; auto simp: bit_simps)+

lemma unat_byte_of: "unat (ucast (drop_bit n w :: WORD) :: BYTE) = unat w div 2 ^ n mod 256"
  using unat_word_lt(1) [of w]
  by (simp add: unsigned_ucast_eq unsigned_drop_bit_eq take_bit_eq_mod) (simp add: drop_bit_eq_div)

lemma alpha_wire: "unat (bswap32 w AND 0xFF) = unat w div 2 ^ 24"
proof -
  have "unat (bswap32 w AND 0xFF) = unat (ucast (bswap32 w) :: BYTE)"
    by (simp add: unat_and_255 unsigned_ucast_eq take_bit_eq_mod)
  also have "\<dots> = unat w div 2 ^ 24 mod 256"
    by (simp only: bswap32_bytes unat_byte_of)
  also have "\<dots> = unat w div 2 ^ 24"
    using unsigned_less [of w] by (intro mod_less) (simp add: div_less_iff_less_mult)
  finally show ?thesis .
qed

lemma compact_beta_wire: "compact_beta (bswap32 w) = unat w mod 2 ^ 24"
proof -
  have "compact_beta (bswap32 w) = unat w div 2 ^ 16 mod 256 * 65536 + unat w div 2 ^ 8 mod 256 * 256 + unat w div 2 ^ 0 mod 256"
    using unat_byte_of [of 0 w] by (simp only: compact_beta_def bswap32_bytes unat_byte_of drop_bit_0 id_apply)
  also have "\<dots> = unat w mod 2 ^ 24"
    using mod_mult2_eq [of "unat w" 256 65536] mod_mult2_eq [of "unat w div 256" 256 256]
    by (simp add: div_mult2_eq [symmetric])
  finally show ?thesis .
qed

section \<open>The hashed block\<close>

lemma length_be_bytes64 [simp]: "length (be_bytes64 w) = 8"
  by (simp add: be_bytes64_def)

lemma get_x_eq:
  assumes "length seed = 32"
  shows "get_x host seed n =
    seed @ (if ucast (ntohl host (ucast n)) \<noteq> n then be_bytes64 n else host_bytes64 host n)"
proof -
  have byte: "ucast (w AND 0xFF :: u64) = (ucast w :: BYTE)" for w
  proof -
    have "w AND 0xFF = take_bit 8 w"
      by (simp add: take_bit_eq_mask mask_eq_exp_minus_1)
    then show ?thesis by (auto intro!: bit_eqI simp: bit_simps)
  qed
  have "replicate 40 0xA5 = replicate 32 0xA5 @ replicate 8 (0xA5 :: BYTE)"
    by (simp add: replicate_add [symmetric])
  then have x: "memcpy_at (replicate 40 0xA5) 0 seed 32 = seed @ replicate 8 0xA5"
    using assms by (simp add: memcpy_at_def)
  have "fold (\<lambda>i x. x[39 - i := ucast (drop_bit (8 * i) n AND 0xFF)]) [0..<8] (seed @ replicate 8 0xA5)
      = seed @ be_bytes64 n"
    using assms by (simp add: numeral_eq_Suc be_bytes64_def byte list_update_append)
  moreover have "memcpy_at (seed @ replicate 8 0xA5) 32 (host_bytes64 host n) 8 = seed @ host_bytes64 host n"
    using assms by (simp add: memcpy_at_def host_bytes64_def split: endian.split)
  ultimately show ?thesis
    by (simp only: get_x_def Let_def x if_distrib)  simp
qed

lemma length_get_x [simp]: "length seed = 32 \<Longrightarrow> length (get_x host seed n) = 40"
  by (simp add: get_x_eq host_bytes64_def split: endian.split)

text \<open>
  The test \<open>ntohl (solution) != solution\<close> is meant to detect a little-endian host.  It fails to
  on values below \<open>2 ^ 32\<close> whose four low bytes read the same in both directions; the bytes are
  then copied in host order.
\<close>

definition byte_palindrome :: "u64 \<Rightarrow> bool" where
  "byte_palindrome n \<longleftrightarrow> ucast (bswap32 (ucast n)) = n"

lemma get_x_big: "length seed = 32 \<Longrightarrow> get_x Big seed n = seed @ be_bytes64 n"
  by (simp add: get_x_eq ntohl_def host_bytes64_def)

lemma get_x_little:
  "length seed = 32 \<Longrightarrow>
    get_x Little seed n = seed @ (if byte_palindrome n then rev (be_bytes64 n) else be_bytes64 n)"
  by (simp add: get_x_eq ntohl_def host_bytes64_def byte_palindrome_def)

lemma palindrome_high:
  assumes "byte_palindrome n" "32 \<le> k" shows "\<not> bit n k"
proof -
  have "bit (ucast (bswap32 (ucast n)) :: u64) k = False"
    using assms(2) by (auto simp: bit_simps dest: bit_imp_le_length)
  then show ?thesis
    using assms(1) by (simp add: byte_palindrome_def)
qed

lemma palindrome_reversed_eq:
  assumes "byte_palindrome n" "rev (be_bytes64 n) = be_bytes64 n" shows "n = 0"
proof (rule bit_eqI)
  fix k
  assume k: "possible_bit TYPE(64 word) k"
  have sym: "drop_bit (8 * j) n = drop_bit (56 - 8 * j) n \<or> (ucast (drop_bit (8 * j) n) :: BYTE) = ucast (drop_bit (56 - 8 * j) n)"
    if "j < 8" for j
  proof -
    have "rev (be_bytes64 n) ! j = be_bytes64 n ! j"
      using assms(2) by simp
    then show ?thesis
      using that by (auto simp: be_bytes64_def rev_map rev_nth diff_mult_distrib2)
  qed
  have "\<not> bit n k" if "k < 32"
  proof -
    define j where "j = k div 8"
    have j: "j < 4" "k = 8 * j + k mod 8" "k mod 8 < 8"
      using that by (simp_all add: j_def)
    have "bit (ucast (drop_bit (8 * j) n) :: BYTE) (k mod 8) = bit (ucast (drop_bit (56 - 8 * j) n) :: BYTE) (k mod 8)"
      using sym [of j] j(1) by auto
    then have "bit n (8 * j + k mod 8) = bit n (56 - 8 * j + k mod 8)"
      using j(3) by (simp add: bit_simps)
    moreover have "\<not> bit n (56 - 8 * j + k mod 8)"
      using j(1) by (intro palindrome_high [OF assms(1)]) simp
    ultimately show ?thesis
      using j(2) by simp
  qed
  then show "bit n k = bit 0 k"
    using palindrome_high [OF assms(1), of k] by (cases "k < 32") simp_all
qed

section \<open>Checking a solution\<close>

lemma length_ctx_data_transform [simp]: "ctx_data (sha256_transform ctx blk) = ctx_data ctx"
  by (simp add: sha256_transform_def Let_def split: prod.split)

lemma length_zero_from [simp]: "length (zero_from i n d) = length d"
proof -
  have "length (fold (\<lambda>j d. d[j := z]) xs d) = length d" for xs and z :: BYTE
    by (induction xs arbitrary: d) simp_all
  then show ?thesis by (simp add: zero_from_def)
qed


lemma length_ctx_data_final:
  assumes "length (ctx_data ctx) = 64"
  shows "length (ctx_data (fst (sha256_final ctx hash))) = 64"
  using assms by (simp add: sha256_final_def sha256_put_len_def sha256_pad_def Let_def)

lemma length_ctx_data_update [simp]:
  "length (ctx_data (sha256_update ctx d n)) = length (ctx_data ctx)"
proof -
  have "length (ctx_data (fold (\<lambda>i. sha256_update_byte (d ! i)) xs ctx)) = length (ctx_data ctx)" for xs
    by (rule fold_keeps [where P = "\<lambda>c. length (ctx_data c) = length (ctx_data ctx)"])
      (simp_all add: sha256_update_byte_def Let_def)
  then show ?thesis by (simp add: sha256_update_def)
qed

lemma is_valid_soln_eq:
  assumes "length seed = 32"
  shows "is_valid_soln host target seed n =
    sha256_compare (fips_sha256 (fips_sha256 (get_x host seed n))) target"
proof -
  have hash: "snd (sha256_final (sha256_update (sha256_init ctx) msg n) hash) = fips_sha256 msg"
    if "length (ctx_data ctx) = 64" "length hash = 32" "length msg = n" for ctx msg hash n
    using that ctx_inv_update [of ctx n msg] by (intro sha256_final_hash) simp_all
  let ?f = "sha256_final (sha256_update (sha256_init fresh_ctx) (get_x host seed n) 40) (replicate 32 0xA5)"
  have one: "snd ?f = fips_sha256 (get_x host seed n)"
    using assms by (intro hash) (simp_all add: fresh_ctx_def)
  have "length (ctx_data (fst ?f)) = 64"
    by (rule length_ctx_data_final) (simp add: sha256_init_def fresh_ctx_def)
  then have "snd (sha256_final (sha256_update (sha256_init (fst ?f)) (snd ?f) 32) (snd ?f)) =
      fips_sha256 (snd ?f)"
    by (intro hash) (simp_all add: one)
  then show ?thesis
    by (simp add: is_valid_soln_def Let_def case_prod_beta one)
qed

section \<open>What a solution is\<close>

text \<open>
  The target that a compact difficulty stands for, and the condition on a solution, in terms of
  numbers and of the standard's hash function.
\<close>

definition target_of :: "WORD \<Rightarrow> nat" where
  "target_of w =
     (if unat w div 2 ^ 24 < 3 then 0
      else (unat w mod 2 ^ 24) * 256 ^ (unat w div 2 ^ 24 - 3) mod 256 ^ 32)"

definition solves :: "WORD \<Rightarrow> BYTE list \<Rightarrow> u64 \<Rightarrow> bool" where
  "solves w seed n \<longleftrightarrow> be_val (fips_sha256 (fips_sha256 (seed @ be_bytes64 n))) < target_of w"

lemma target_value: "be_val (get_target (ntohl Little w)) = target_of w"
  unfolding get_target_def target_of_def
  by (subst get_target_in_value)
    (simp_all add: get_target_frame_def ntohl_def alpha_wire compact_beta_wire BYTE_TWO_def
      del: power_Suc)

lemma length_get_target [simp]: "length (get_target d) = 32"
  unfolding get_target_def
  by (subst get_target_store)
    (simp_all add: get_target_frame_def BYTE_TWO_def uint256_mul_pow2)

lemma valid_soln_value:
  assumes "length seed = 32" "length target = 32" "host = Little \<Longrightarrow> \<not> byte_palindrome n"
  shows "is_valid_soln host target seed n = -1 \<longleftrightarrow>
    be_val (fips_sha256 (fips_sha256 (seed @ be_bytes64 n))) < be_val target"
proof -
  have "get_x host seed n = seed @ be_bytes64 n"
    using assms(1,3) by (cases host) (simp_all add: get_x_little get_x_big)
  then show ?thesis
    using assms(1,2) by (simp add: is_valid_soln_eq sha256_compare_value)
qed

lemma valid_soln_solves:
  assumes "length seed = 32" "\<not> byte_palindrome n"
  shows "is_valid_soln Little (get_target (ntohl Little w)) seed n = -1 \<longleftrightarrow> solves w seed n"
  using valid_soln_value [OF assms(1) length_get_target, of Little n "ntohl Little w"] assms(2)
  by (simp only: solves_def target_value not_False_eq_True simp_thms)

section \<open>Properties\<close>

text \<open>
  Property C29. Scanning the hexadecimal text that \<open>byte_print\<close> writes gives back the bytes:
  \<open>hstob\<close>, started behind the prefix \<open>0x\<close>, returns the array that was printed, whatever follows
  the terminator in memory.
\<close>

theorem hstob_byte_print:
  "hstob (drop 2 (map Some (byte_print bs (length bs)) @ Some NUL # rest)) (length bs) = Inr bs
   \<and> print_uint256 ys = byte_print ys 32"
proof
  show "hstob (drop 2 (map Some (byte_print bs (length bs)) @ Some NUL # rest)) (length bs) = Inr bs"
    using hstob_hex_text [of "[LF]" bs rest] by (simp add: byte_print_eq)
  show "print_uint256 ys = byte_print ys 32"
    by (simp only: print_uint256_def byte_print_def)
qed

text \<open>
  Property C5. The target that the server derives from the eight hexadecimal digits of a
  difficulty on a little-endian host: the low 24 bits times \<open>256 ^ (\<alpha> - 3)\<close> for the top byte \<open>\<alpha>\<close>,
  modulo \<open>2 ^ 256\<close>; exponents \<open>\<alpha>\<close> below 3 wrap around in the 32-bit argument of \<open>uint256_exp\<close> and
  give the target 0, which no digest is below.
\<close>

theorem get_target_value:
  "be_val (get_target (ntohl Little w)) =
     (if unat w div 2 ^ 24 < 3 then 0
      else (unat w mod 2 ^ 24) * 256 ^ (unat w div 2 ^ 24 - 3) mod 256 ^ 32)"
  by (simp only: target_value target_of_def)

text \<open>
  Property C30. On a little-endian host \<open>get_x\<close> appends the nonce most significant byte first,
  except for the non-zero nonces below \<open>2 ^ 32\<close> whose four low bytes are a palindrome: the
  run-time test takes the host for big-endian there.
\<close>

theorem get_x_little_endian:
  assumes "length seed = 32"
  shows "get_x Little seed n = seed @ be_bytes64 n \<longleftrightarrow> (byte_palindrome n \<longrightarrow> n = 0)"
proof -
  have "rev (be_bytes64 0) = be_bytes64 0"
    by (simp add: be_bytes64_def numeral_eq_Suc)
  then show ?thesis
    using palindrome_reversed_eq [of n] by (auto simp: get_x_little [OF assms])
qed

theorem get_x_little_endian_witness:
  "get_x Little zeros 0x01000001 \<noteq> zeros @ be_bytes64 0x01000001
    \<and> get_x Little zeros 0x1000000023212147 = zeros @ be_bytes64 0x1000000023212147"
proof -
  have "byte_palindrome 0x01000001" "\<not> byte_palindrome 0x1000000023212147"
    by (simp_all add: byte_palindrome_def bswap32_def)
  then show ?thesis
    using get_x_little_endian [of zeros "0x01000001"] get_x_little_endian [of zeros "0x1000000023212147"]
    by simp
qed



end
