(* ===== verification/Cmd_Buffer.thy ===== *)
theory Cmd_Buffer
  imports C_Text
begin

text \<open>
  The receive buffer of a client (\<open>has_command\<close>, \<open>get_command\<close> and \<open>join_client_command\<close> of
  \<open>handler_helper.c\<close>) and the reading loop of \<open>client_handler\<close> that feeds it.  Memory is a list of
  cells that may be uninitialised; every access is checked, so that a read or write outside a
  block, a read of a cell that was never written and an overflow of an \<open>int\<close> are visible as
  faults.  Allocation is assumed to succeed, as the code assumes.  The abstract view of the buffer
  is the text received and not yet consumed; the locale states the contract of the buffer in
  these terms and derives that the commands do not depend on how the stream was cut into reads.
\<close>

section \<open>The buffer\<close>

record recv_buf =
  recieved_string :: "char option list"
  recv_str_len :: int
  recv_used_len :: int

definition INT_MAX :: int where
  "INT_MAX = 2 ^ 31 - 1"

definition INIT_CMD_STR_SIZE :: int where
  "INIT_CMD_STR_SIZE = 128"

definition recv_buf_init :: recv_buf where
  "recv_buf_init = \<lparr>recieved_string = replicate (nat INIT_CMD_STR_SIZE) None,
     recv_str_len = INIT_CMD_STR_SIZE, recv_used_len = 0\<rparr>"

definition read_cell :: "char option list \<Rightarrow> nat \<Rightarrow> char c_result" where
  "read_cell mem i =
     (if i < length mem then case mem ! i of Some c \<Rightarrow> Inr c | None \<Rightarrow> Inl Uninitialised_Read
      else Inl Out_Of_Bounds)"

text \<open>
  The loop that \<open>has_command\<close> and \<open>get_command\<close> share: the first \<open>i\<close> with a carriage return at \<open>i\<close>
  and a line feed at \<open>i + 1\<close>.  The second cell is read only when the first one matches.
\<close>

function find_crlf :: "char option list \<Rightarrow> int \<Rightarrow> nat \<Rightarrow> nat option c_result" where
  "find_crlf mem used_len i =
     (if int i < used_len - 1 then
        case read_cell mem i of
          Inl e \<Rightarrow> Inl e
        | Inr c \<Rightarrow>
            if c = CR then
              case read_cell mem (i + 1) of
                Inl e \<Rightarrow> Inl e
              | Inr d \<Rightarrow> if d = LF then Inr (Some i) else find_crlf mem used_len (i + 1)
            else find_crlf mem used_len (i + 1)
      else Inr None)"
  by pat_completeness auto
termination
  by (relation "measure (\<lambda>(mem, used_len, i). nat (used_len - int i))") auto

declare find_crlf.simps [simp del]

definition has_command :: "recv_buf \<Rightarrow> int c_result" where
  "has_command b =
     bind_c (find_crlf (recieved_string b) (recv_used_len b) 0) (\<lambda>r.
       Inr (case r of Some i \<Rightarrow> 1 | None \<Rightarrow> 0))"

text \<open>
  \<open>get_command\<close> returns the block with the command and its terminator, or \<open>None\<close> for NULL.  The
  remaining text moves to a new block of \<open>len\<close> cells.
\<close>

definition get_command :: "recv_buf \<Rightarrow> (char option list option \<times> recv_buf) c_result" where
  "get_command b =
     (let mem = recieved_string b; len = recv_str_len b in
      bind_c (find_crlf mem (recv_used_len b) 0) (\<lambda>r. case r of
        None \<Rightarrow> Inr (None, b)
      | Some i \<Rightarrow>
          if int i > int (length mem) \<or> len - int i - 2 < 0 \<or> len > int (length mem) then Inl Out_Of_Bounds
          else let cmd = (memcpy_at (replicate (i + 1) None) 0 mem i)[i := Some NUL];
                   rest = memcpy_at (replicate (nat len) None) 0 (drop (i + 2) mem) (nat (len - int i - 2))
               in Inr (Some cmd, b\<lparr>recieved_string := rest, recv_used_len := recv_used_len b - (int i + 2)\<rparr>)))"

definition c_realloc :: "char option list \<Rightarrow> nat \<Rightarrow> char option list" where
  "c_realloc mem n = take n mem @ replicate (n - length mem) None"

text \<open>The loop that makes room: it doubles the length, and for the length 0 it would not end.\<close>

partial_function (option) grow_recv :: "char option list \<Rightarrow> int \<Rightarrow> int \<Rightarrow> (char option list \<times> int) c_result option" where
  [code]: "grow_recv mem str_len need =
     (if str_len < need then
        if str_len * 2 > INT_MAX \<or> str_len * 2 < - INT_MAX - 1 then Some (Inl Signed_Overflow)
        else grow_recv (c_realloc mem (nat (str_len * 2))) (str_len * 2) need
      else Some (Inr (mem, str_len)))"

definition join_client_command :: "recv_buf \<Rightarrow> char option list \<Rightarrow> recv_buf c_result option" where
  "join_client_command b command_str =
     (case read_str command_str of
        Inl e \<Rightarrow> Some (Inl e)
      | Inr s \<Rightarrow>
          let cmd_len = int (length s); used = recv_used_len b in
          if used + cmd_len + 1 > INT_MAX then Some (Inl Signed_Overflow)
          else map_option (\<lambda>r. bind_c r (\<lambda>(mem, str_len).
                 if used < 0 \<or> used + cmd_len > int (length mem) then Inl Out_Of_Bounds
                 else Inr (b\<lparr>recieved_string := memcpy_at mem (nat used) command_str (nat cmd_len),
                             recv_str_len := str_len, recv_used_len := used + cmd_len\<rparr>)))
               (grow_recv (recieved_string b) (recv_str_len b) (used + cmd_len + 1)))"

section \<open>The reading loop\<close>

definition BUFFER_LEN :: nat where
  "BUFFER_LEN = 256"

text \<open>
  The local array after \<open>bzero (buffer, BUFFER_LEN)\<close> and a \<open>read\<close> of at most \<open>BUFFER_LEN - 1\<close> bytes.
\<close>

definition read_buffer :: "char list \<Rightarrow> char option list" where
  "read_buffer chunk = memcpy_at (replicate BUFFER_LEN (Some NUL)) 0 (map Some chunk) (length chunk)"

lemma find_crlf_bounds: "find_crlf mem n i = Inr (Some k) \<Longrightarrow> i \<le> k \<and> int k < n - 1"
proof (induction mem n i rule: find_crlf.induct)
  case (1 mem n i)
  from 1(3) show ?case
    by (subst (asm) find_crlf.simps)
      (auto split: if_splits sum.splits dest: 1(1,2))
qed

lemma get_command_shorter:
  "get_command b = Inr (Some cmd, b') \<Longrightarrow> nat (recv_used_len b') < nat (recv_used_len b)"
  by (auto simp: get_command_def Let_def bind_c_eq_Inr dest!: find_crlf_bounds split: option.splits if_splits)

text \<open>
  The inner loop of \<open>client_handler\<close>: take commands until there is none.  The commands are returned
  in the order in which threads are started for them.
\<close>

function take_commands :: "recv_buf \<Rightarrow> (char option list list \<times> recv_buf) c_result" where
  "take_commands b =
     (case get_command b of
        Inl e \<Rightarrow> Inl e
      | Inr (None, b') \<Rightarrow> Inr ([], b')
      | Inr (Some cmd, b') \<Rightarrow>
          (case take_commands b' of Inl e \<Rightarrow> Inl e | Inr (cmds, b'') \<Rightarrow> Inr (cmd # cmds, b'')))"
  by pat_completeness auto
termination
  by (relation "measure (\<lambda>b. nat (recv_used_len b))") (auto dest: get_command_shorter)

declare take_commands.simps [simp del]

text \<open>
  The outer loop on the sequence of results of \<open>read\<close>; the empty result and the end of the sequence
  are the end of the connection.  The first argument bounds the number of iterations.
\<close>

fun client_loop :: "nat \<Rightarrow> recv_buf \<Rightarrow> char list list \<Rightarrow> (char option list list \<times> recv_buf) c_result option" where
  "client_loop 0 b chunks = None"
| "client_loop (Suc n) b chunks =
     (let continue = (\<lambda>b1 chunks'.
            case take_commands b1 of
              Inl e \<Rightarrow> Some (Inl e)
            | Inr (cmds, b2) \<Rightarrow>
                map_option (\<lambda>r. bind_c r (\<lambda>(cmds', b3). Inr (cmds @ cmds', b3))) (client_loop n b2 chunks'))
      in case has_command b of
           Inl e \<Rightarrow> Some (Inl e)
         | Inr h \<Rightarrow>
             if h \<noteq> 0 then continue b chunks
             else case chunks of
               [] \<Rightarrow> Some (Inr ([], b))
             | chunk # chunks' \<Rightarrow>
                 if chunk = [] then Some (Inr ([], b))
                 else case join_client_command b (read_buffer chunk) of
                   None \<Rightarrow> None
                 | Some (Inl e) \<Rightarrow> Some (Inl e)
                 | Some (Inr b1) \<Rightarrow> continue b1 chunks')"

section \<open>Commands in a text\<close>

fun crlf_index :: "char list \<Rightarrow> nat option" where
  "crlf_index (c # d # s) = (if c = CR \<and> d = LF then Some 0 else map_option Suc (crlf_index (d # s)))"
| "crlf_index _ = None"

lemma crlf_index_bound: "crlf_index s = Some i \<Longrightarrow> i + 1 < length s"
  by (induction s arbitrary: i rule: crlf_index.induct) (auto split: if_splits)

lemma crlf_index_append: "crlf_index s = Some i \<Longrightarrow> crlf_index (s @ t) = Some i"
  by (induction s arbitrary: i rule: crlf_index.induct) (auto split: if_splits)

text \<open>The commands that a text contains and what remains after the last of them.\<close>

function split_commands :: "char list \<Rightarrow> char list list \<times> char list" where
  "split_commands s =
     (case crlf_index s of
        None \<Rightarrow> ([], s)
      | Some i \<Rightarrow> (let (cs, r) = split_commands (drop (i + 2) s) in (take i s # cs, r)))"
  by pat_completeness auto
termination
  by (relation "measure length") (auto dest: crlf_index_bound)

declare split_commands.simps [simp del]

lemma split_commands_append:
  "split_commands (s @ t) =
     (case split_commands s of (cs, r) \<Rightarrow>
        case split_commands (r @ t) of (ds, r') \<Rightarrow> (cs @ ds, r'))"
proof (induction s rule: split_commands.induct)
  case (1 s)
  show ?case
  proof (cases "crlf_index s")
    case None
    then have "split_commands s = ([], s)"
      by (simp add: split_commands.simps)
    then show ?thesis by simp
  next
    case (Some i)
    have i: "i + 1 < length s"
      by (rule crlf_index_bound [OF Some])
    have "split_commands (s @ t) =
        (case split_commands (drop (i + 2) s @ t) of (cs, r) \<Rightarrow> (take i s # cs, r))"
      using i by (subst split_commands.simps) (simp add: crlf_index_append [OF Some])
    moreover have "split_commands s = (case split_commands (drop (i + 2) s) of (cs, r) \<Rightarrow> (take i s # cs, r))"
      by (subst split_commands.simps) (simp add: Some)
    ultimately show ?thesis
      using 1 [OF Some] by (simp split: prod.splits)
  qed
qed

lemma split_commands_rest: "crlf_index (snd (split_commands s)) = None"
proof (induction s rule: split_commands.induct)
  case (1 s)
  then show ?case
    by (subst split_commands.simps) (auto split: option.splits prod.splits)
qed

lemma read_buffer_str:
  assumes "length chunk < BUFFER_LEN" shows "read_str (read_buffer chunk) = Inr (c_str chunk)"
proof -
  obtain k where "BUFFER_LEN - length chunk = Suc k"
    using assms by (metis Suc_diff_Suc)
  moreover have "read_str (map Some cs @ Some NUL # mem) = Inr (c_str cs)" for cs mem
    by (induction cs) (simp_all add: c_str_def)
  ultimately show ?thesis
    by (simp add: read_buffer_def memcpy_at_def)
qed

section \<open>The contract of the buffer\<close>

text \<open>The block that holds a command: its characters and the terminator.\<close>

definition cmd_mem :: "char list \<Rightarrow> char option list" where
  "cmd_mem s = map Some s @ [Some NUL]"

text \<open>
  A receive buffer, seen from \<open>client_handler\<close>: \<open>pending\<close> is the text it holds, \<open>room\<close> bounds how
  much it can hold.
\<close>

locale command_buffer =
  fixes ok :: "'b \<Rightarrow> bool" and pending :: "'b \<Rightarrow> char list" and room :: nat
    and has :: "'b \<Rightarrow> int c_result"
    and get :: "'b \<Rightarrow> (char option list option \<times> 'b) c_result"
    and join :: "'b \<Rightarrow> char option list \<Rightarrow> 'b c_result option"
  assumes has: "ok b \<Longrightarrow> has b = Inr (if crlf_index (pending b) = None then 0 else 1)"
    and get_none: "ok b \<Longrightarrow> crlf_index (pending b) = None \<Longrightarrow> get b = Inr (None, b)"
    and get_some: "ok b \<Longrightarrow> crlf_index (pending b) = Some i \<Longrightarrow>
      \<exists>b'. get b = Inr (Some (cmd_mem (take i (pending b))), b')
        \<and> ok b' \<and> pending b' = drop (i + 2) (pending b)"
    and join: "ok b \<Longrightarrow> read_str mem = Inr s \<Longrightarrow> length (pending b) + length s < room \<Longrightarrow>
      \<exists>b'. join b mem = Some (Inr b') \<and> ok b' \<and> pending b' = pending b @ s"

text \<open>A client that reads into the buffer and takes out commands as \<open>client_handler\<close> does.\<close>

locale buffer_client = command_buffer ok pending room has get join
  for ok :: "'b \<Rightarrow> bool" and pending room has get join +
  fixes drain :: "'b \<Rightarrow> (char option list list \<times> 'b) c_result"
    and loop :: "nat \<Rightarrow> 'b \<Rightarrow> char list list \<Rightarrow> (char option list list \<times> 'b) c_result option"
  assumes drain: "drain b =
      (case get b of
         Inl e \<Rightarrow> Inl e
       | Inr (None, b') \<Rightarrow> Inr ([], b')
       | Inr (Some cmd, b') \<Rightarrow>
           (case drain b' of Inl e \<Rightarrow> Inl e | Inr (cmds, b'') \<Rightarrow> Inr (cmd # cmds, b'')))"
    and loop_end: "has b = Inr 0 \<Longrightarrow> loop (Suc n) b [] = Some (Inr ([], b))"
    and loop_read: "has b = Inr 0 \<Longrightarrow> chunk \<noteq> [] \<Longrightarrow>
      join b (read_buffer chunk) = Some (Inr b1) \<Longrightarrow> drain b1 = Inr (cmds, b2) \<Longrightarrow>
      loop (Suc n) b (chunk # chunks) =
        map_option (\<lambda>r. bind_c r (\<lambda>(cmds', b3). Inr (cmds @ cmds', b3))) (loop n b2 chunks)"
begin

lemma drain_ok:
  assumes "ok b"
  shows "\<exists>b'. drain b = Inr (map cmd_mem (fst (split_commands (pending b))), b')
    \<and> ok b' \<and> pending b' = snd (split_commands (pending b))"
  using assms
proof (induction "length (pending b)" arbitrary: b rule: less_induct)
  case less
  show ?case
  proof (cases "crlf_index (pending b)")
    case None
    then show ?thesis
      using less.prems get_none [OF less.prems None]
      by (simp add: drain [of b] split_commands.simps [of "pending b"])
  next
    case (Some i)
    obtain b' where b': "get b = Inr (Some (cmd_mem (take i (pending b))), b')" "ok b'"
        "pending b' = drop (i + 2) (pending b)"
      using get_some [OF less.prems Some] by auto
    have "length (pending b') < length (pending b)"
      using crlf_index_bound [OF Some] by (simp add: b'(3))
    from less.hyps [OF this b'(2)] show ?thesis
      by (auto simp: drain [of b] b'(1,3) Some split_commands.simps [of "pending b"] split: prod.splits)
  qed
qed

lemma loop_ok:
  assumes "ok b" "crlf_index (pending b) = None"
    and "\<forall>c \<in> set chunks. c \<noteq> [] \<and> length c < BUFFER_LEN"
    and "length (pending b) + length (concat (map c_str chunks)) < room"
  shows "\<exists>b'. loop (Suc (length chunks)) b chunks =
      Some (Inr (map cmd_mem (fst (split_commands (pending b @ concat (map c_str chunks)))), b'))
    \<and> ok b' \<and> pending b' = snd (split_commands (pending b @ concat (map c_str chunks)))"
  using assms
proof (induction chunks arbitrary: b)
  case Nil
  then show ?case
    using has [of b] loop_end [of b] by (simp add: split_commands.simps [of "pending b"])
next
  case (Cons chunk chunks)
  let ?s = "c_str chunk"
  have chunk: "chunk \<noteq> []" "length chunk < BUFFER_LEN"
    using Cons.prems by simp_all
  obtain b1 where b1: "join b (read_buffer chunk) = Some (Inr b1)" "ok b1" "pending b1 = pending b @ ?s"
    using join [OF Cons.prems(1) read_buffer_str [OF chunk(2)]] Cons.prems(4) by auto
  obtain b2 where b2: "drain b1 = Inr (map cmd_mem (fst (split_commands (pending b1))), b2)" "ok b2"
      "pending b2 = snd (split_commands (pending b1))"
    using drain_ok [OF b1(2)] by auto
  have len: "length (snd (split_commands t)) \<le> length t" for t
    by (induction t rule: split_commands.induct)
      (subst split_commands.simps, fastforce split: option.splits prod.splits)
  obtain b3 where b3: "loop (Suc (length chunks)) b2 chunks =
        Some (Inr (map cmd_mem (fst (split_commands (pending b2 @ concat (map c_str chunks)))), b3))"
      "ok b3" "pending b3 = snd (split_commands (pending b2 @ concat (map c_str chunks)))"
    using Cons.IH [OF b2(2)] Cons.prems(3,4) len [of "pending b1"]
    by (auto simp: b2(3) b1(3) split_commands_rest)
  have "loop (Suc (length (chunk # chunks))) b (chunk # chunks) =
      map_option (\<lambda>r. bind_c r (\<lambda>(cmds', b3). Inr (map cmd_mem (fst (split_commands (pending b1))) @ cmds', b3)))
        (loop (Suc (length chunks)) b2 chunks)"
    using has [OF Cons.prems(1)] Cons.prems(2) loop_read [OF _ chunk(1) b1(1) b2(1)] by simp
  with b3 show ?case
    using split_commands_append [of "pending b @ ?s" "concat (map c_str chunks)"]
    by (auto simp: b2(3) b1(3) split: prod.splits)
qed

end


section \<open>The code meets the contract\<close>

definition recv_ok :: "recv_buf \<Rightarrow> bool" where
  "recv_ok b \<longleftrightarrow>
     int (length (recieved_string b)) = recv_str_len b \<and> recv_str_len b \<le> INT_MAX
     \<and> 0 \<le> recv_used_len b \<and> recv_used_len b < recv_str_len b
     \<and> (\<forall>c \<in> set (take (nat (recv_used_len b)) (recieved_string b)). c \<noteq> None \<and> c \<noteq> Some NUL)"

definition recv_pending :: "recv_buf \<Rightarrow> char list" where
  "recv_pending b = map the (take (nat (recv_used_len b)) (recieved_string b))"

lemma recv_ok_init: "recv_ok recv_buf_init" "recv_pending recv_buf_init = []"
  by (simp_all add: recv_ok_def recv_pending_def recv_buf_init_def INIT_CMD_STR_SIZE_def INT_MAX_def)

lemma recv_ok_cells:
  assumes "recv_ok b"
  shows "take (nat (recv_used_len b)) (recieved_string b) = map Some (recv_pending b)"
    and "int (length (recv_pending b)) = recv_used_len b" and "NUL \<notin> set (recv_pending b)"
proof -
  show "take (nat (recv_used_len b)) (recieved_string b) = map Some (recv_pending b)"
    using assms unfolding recv_ok_def recv_pending_def by (auto simp: map_idI)
  show "int (length (recv_pending b)) = recv_used_len b"
    using assms by (auto simp: recv_ok_def recv_pending_def)
  show "NUL \<notin> set (recv_pending b)"
    using assms by (force simp: recv_ok_def recv_pending_def)
qed

lemma find_crlf_eq:
  assumes "take n mem = map Some s" "length s = n" "i \<le> n"
  shows "find_crlf mem (int n) i = Inr (map_option ((+) i) (crlf_index (drop i s)))"
  using assms(3)
proof (induction i rule: inc_induct)
  case base
  then show ?case
    using assms(2) by (simp add: find_crlf.simps)
next
  case (step i)
  have cell: "read_cell mem j = Inr (s ! j)" if "j < n" for j
  proof -
    have "take n mem ! j = Some (s ! j)" "length (take n mem) = n"
      using that assms(1,2) by simp_all
    then show ?thesis
      using that by (simp add: read_cell_def)
  qed
  show ?case
  proof (cases "Suc i < n")
    case True
    then have "drop i s = s ! i # s ! Suc i # drop (Suc (Suc i)) s"
      "drop (Suc i) s = s ! Suc i # drop (Suc (Suc i)) s"
      using assms(2) by (simp_all add: Cons_nth_drop_Suc)
    with True step show ?thesis
      by (subst find_crlf.simps) (auto simp: cell option.map_comp comp_def)
  next
    case False
    with step have "Suc i = n" by simp
    then have "drop i s = [s ! i]"
      using assms(2) by (metis Cons_nth_drop_Suc drop_all lessI order_refl)
    then show ?thesis
      using \<open>Suc i = n\<close> by (simp add: find_crlf.simps)
  qed
qed

lemma find_crlf_pending:
  assumes "recv_ok b"
  shows "find_crlf (recieved_string b) (recv_used_len b) 0 = Inr (crlf_index (recv_pending b))"
proof -
  have "nat (recv_used_len b) = length (recv_pending b)"
    using recv_ok_cells(2) [OF assms] by simp
  moreover have "map_option ((+) 0) r = r" for r :: "nat option"
    by (cases r) simp_all
  ultimately show ?thesis
    using find_crlf_eq [of "length (recv_pending b)" "recieved_string b" "recv_pending b" 0]
      recv_ok_cells(1,2) [OF assms] by simp
qed

text \<open>A buffer in the invariant, given by its block and the text at the beginning of it.\<close>

definition buf_of :: "char option list \<Rightarrow> char list \<Rightarrow> recv_buf" where
  "buf_of m p = \<lparr>recieved_string = m, recv_str_len = int (length m), recv_used_len = int (length p)\<rparr>"

lemma recv_ok_buf_of:
  assumes "take (length p) m = map Some p" "NUL \<notin> set p" "length p < length m" "int (length m) \<le> INT_MAX"
  shows "recv_ok (buf_of m p)" "recv_pending (buf_of m p) = p"
  using assms by (auto simp: recv_ok_def recv_pending_def buf_of_def comp_def)

lemma recv_okE:
  assumes "recv_ok b"
  obtains m p where "b = buf_of m p" "recv_pending b = p" "take (length p) m = map Some p"
    "NUL \<notin> set p" "length p < length m" "int (length m) \<le> INT_MAX"
proof (rule that [of "recieved_string b" "recv_pending b"])
  have n: "nat (recv_used_len b) = length (recv_pending b)"
    using recv_ok_cells(2) [OF assms] by (metis nat_int)
  show "take (length (recv_pending b)) (recieved_string b) = map Some (recv_pending b)"
    using recv_ok_cells(1) [OF assms] by (simp only: n)
  show "b = buf_of (recieved_string b) (recv_pending b)"
    using assms recv_ok_cells(2) [OF assms] by (simp add: buf_of_def recv_ok_def)
  show "length (recv_pending b) < length (recieved_string b)"
    "int (length (recieved_string b)) \<le> INT_MAX"
    using assms n by (auto simp: recv_ok_def)
qed (use recv_ok_cells(3) [OF assms] in auto)

lemma get_command_some:
  assumes ok: "recv_ok b" and i: "crlf_index (recv_pending b) = Some i"
  shows "\<exists>b'. get_command b = Inr (Some (cmd_mem (take i (recv_pending b))), b')
    \<and> recv_ok b' \<and> recv_pending b' = drop (i + 2) (recv_pending b)"
proof -
  obtain m p where b: "b = buf_of m p" "recv_pending b = p" and cells: "take (length p) m = map Some p"
    and nul: "NUL \<notin> set p" and pm: "length p < length m" and max: "int (length m) \<le> INT_MAX"
    using ok by (rule recv_okE)
  have i2: "i + 1 < length p"
    using crlf_index_bound [OF i] by (simp only: b(2))
  have "take i m = map Some (take i p)"
    using arg_cong [OF cells, of "take i"] i2 by (simp add: take_map min_def)
  moreover have "drop i (replicate (i + 1) None) = [None :: char option]"
    by (simp only: drop_replicate) simp
  ultimately have cmd: "(memcpy_at (replicate (i + 1) None) 0 m i)[i := Some NUL] = cmd_mem (take i p)"
    using i2 pm by (simp add: memcpy_at_def cmd_mem_def list_update_append)
  define rest where "rest = drop (i + 2) m @ replicate (i + 2) None"
  have nat: "nat (int (length m) - int i - 2) = length m - (i + 2)"
    by simp
  have rest: "memcpy_at (replicate (nat (int (length m))) None) 0 (drop (i + 2) m)
      (nat (int (length m) - int i - 2)) = rest" "length rest = length m"
    using i2 pm unfolding nat by (simp_all add: memcpy_at_def rest_def)
  have "get_command b = Inr (Some (cmd_mem (take i p)), buf_of rest (drop (i + 2) p))"
    using find_crlf_pending [OF ok] i i2 pm cmd rest
    by (simp add: get_command_def Let_def b(2)) (simp add: b(1) buf_of_def of_nat_diff)
  moreover have "take (length (drop (i + 2) p)) rest = map Some (drop (i + 2) p)"
    using arg_cong [OF cells, of "drop (i + 2)"] i2 pm
    by (simp add: rest_def drop_map drop_take)
  then have "recv_ok (buf_of rest (drop (i + 2) p))" "recv_pending (buf_of rest (drop (i + 2) p)) = drop (i + 2) p"
    by (rule recv_ok_buf_of; use nul pm max rest(2) in \<open>auto dest: in_set_dropD\<close>)+
  ultimately show ?thesis
    unfolding b(2) by blast
qed

lemma grow_recv_ok:
  assumes "0 < str_len" "str_len \<le> INT_MAX" "need \<le> 2 ^ 30" "int (length mem) = str_len"
  shows "\<exists>mem' n. grow_recv mem str_len need = Some (Inr (mem', n)) \<and> need \<le> n \<and> str_len \<le> n
    \<and> n \<le> INT_MAX \<and> int (length mem') = n \<and> take (length mem) mem' = mem"
  using assms(1,2,4)
proof (induction "nat (need - str_len)" arbitrary: mem str_len rule: less_induct)
  case less
  show ?case
  proof (cases "str_len < need")
    case False
    with less.prems show ?thesis
      by (subst grow_recv.simps) auto
  next
    case True
    let ?m = "c_realloc mem (nat (str_len * 2))"
    have lim: "\<not> str_len * 2 > INT_MAX"
      using True assms(3) by (simp add: INT_MAX_def)
    have m: "int (length ?m) = str_len * 2" "take (length mem) ?m = mem"
      using less.prems by (auto simp: c_realloc_def)
    obtain mem' n where "grow_recv ?m (str_len * 2) need = Some (Inr (mem', n))" "need \<le> n"
        "str_len * 2 \<le> n" "n \<le> INT_MAX" "int (length mem') = n" "take (length ?m) mem' = ?m"
      using less.hyps [of "str_len * 2" ?m] True less.prems lim m(1) by auto
    moreover from this(6) have "take (length mem) mem' = mem"
      using m by (metis min.absorb1 nat_le_linear take_all take_take)
    ultimately show ?thesis
      using True lim less.prems by (subst grow_recv.simps) (auto simp: INT_MAX_def)
  qed
qed

lemma read_str_cells:
  "read_str mem = Inr s \<Longrightarrow> NUL \<notin> set s \<and> take (length s) mem = map Some s \<and> length s \<le> length mem"
  by (induction mem arbitrary: s rule: read_str.induct) (auto simp: bind_c_eq_Inr split: if_splits)

lemma join_client_command_ok:
  assumes ok: "recv_ok b" and str: "read_str mem = Inr s"
    and room: "length (recv_pending b) + length s < 2 ^ 30"
  shows "\<exists>b'. join_client_command b mem = Some (Inr b') \<and> recv_ok b' \<and> recv_pending b' = recv_pending b @ s"
proof -
  obtain m0 p where b: "b = buf_of m0 p" "recv_pending b = p" and cells: "take (length p) m0 = map Some p"
    and nul: "NUL \<notin> set p" and pm: "length p < length m0" and max: "int (length m0) \<le> INT_MAX"
    using ok by (rule recv_okE)
  have need: "int (length p) + int (length s) + 1 \<le> 2 ^ 30"
    using room by (simp add: b(2))
  obtain m where g: "grow_recv m0 (int (length m0)) (int (length p) + int (length s) + 1) = Some (Inr (m, int (length m)))"
      "length p + length s < length m" "int (length m) \<le> INT_MAX" "take (length m0) m = m0"
    using grow_recv_ok [OF _ max need refl] pm by force
  have "take (length p) m = map Some p"
    using cells g(4) pm by (metis min.absorb3 min.commute take_take)
  then have mm: "memcpy_at m (length p) mem (length s) = map Some (p @ s) @ drop (length p + length s) m"
    using read_str_cells [OF str] by (simp add: memcpy_at_def)
  let ?b = "buf_of (map Some (p @ s) @ drop (length p + length s) m) (p @ s)"
  have "join_client_command b mem = Some (Inr ?b)"
    using need g(1,2) mm by (simp add: join_client_command_def str Let_def INT_MAX_def b(1) buf_of_def)
  moreover have "recv_ok ?b" "recv_pending ?b = p @ s"
    by (rule recv_ok_buf_of; use g(2,3) nul read_str_cells [OF str] in simp)+
  ultimately show ?thesis
    unfolding b(2) by blast
qed

interpretation recv: command_buffer recv_ok recv_pending "2 ^ 30" has_command get_command join_client_command
proof
  show "has_command b = Inr (if crlf_index (recv_pending b) = None then 0 else 1)" if "recv_ok b" for b
    using that by (auto simp: has_command_def find_crlf_pending split: option.split)
  show "get_command b = Inr (None, b)" if "recv_ok b" "crlf_index (recv_pending b) = None" for b
    using that by (simp add: get_command_def find_crlf_pending Let_def)
qed (use get_command_some join_client_command_ok in blast)+

interpretation recv: buffer_client recv_ok recv_pending "2 ^ 30" has_command get_command join_client_command
  take_commands client_loop
  by unfold_locales (simp_all only: take_commands.simps [symmetric], simp_all)


declare client_loop.simps [simp del]

section \<open>Properties\<close>

text \<open>
  Property C6. The commands a client sends are recovered from the byte stream whatever the sizes
  of the reads that deliver it: for every sequence of reads of 1 to 255 bytes, the loop of
  \<open>client_handler\<close> ends at the end of the connection, without any access outside a block or to an
  uninitialised cell and without an \<open>int\<close> overflow, and has started a thread for each piece of the
  stream that ends in CR LF, in order; the rest stays in the buffer.  A read is cut at its first
  NUL character.
\<close>

theorem client_loop_commands:
  assumes "\<forall>c \<in> set chunks. c \<noteq> [] \<and> length c < BUFFER_LEN"
    and "length (concat (map c_str chunks)) < 2 ^ 30"
    and "split_commands (concat (map c_str chunks)) = (cmds, rest)"
  shows "\<exists>b. client_loop (Suc (length chunks)) recv_buf_init chunks = Some (Inr (map cmd_mem cmds, b))
    \<and> recv_ok b \<and> recv_pending b = rest"
  using recv.loop_ok [OF recv_ok_init(1), of chunks] assms by (simp add: recv_ok_init(2))

theorem client_loop_commands_witness:
  "\<exists>b. client_loop 3 recv_buf_init [''PI'', ''NG'' @ [CR, LF] @ ''SL''] =
      Some (Inr ([cmd_mem ''PING''], b)) \<and> recv_pending b = ''SL''"
  using client_loop_commands [of "[''PI'', ''NG'' @ [CR, LF] @ ''SL'']" "[''PING'']" "''SL''"]
  by (auto simp: BUFFER_LEN_def c_str_def split_commands.simps numeral_3_eq_3)

text \<open>
  Two ways of cutting the same stream into reads give the same commands, provided
  the stream has no NUL character.
\<close>

lemma client_loop_chunking:
  assumes "concat chunks = concat chunks'" "NUL \<notin> set (concat chunks)"
    and "length (concat chunks) < 2 ^ 30"
    and "\<forall>c \<in> set chunks \<union> set chunks'. c \<noteq> [] \<and> length c < BUFFER_LEN"
  shows "\<exists>cmds b b'.
    client_loop (Suc (length chunks)) recv_buf_init chunks = Some (Inr (cmds, b))
    \<and> client_loop (Suc (length chunks')) recv_buf_init chunks' = Some (Inr (cmds, b'))
    \<and> recv_pending b = recv_pending b'"
proof -
  have c: "concat (map c_str xs) = concat xs" if "NUL \<notin> set (concat xs)" for xs
    using that by (induction xs) (auto simp: c_str_id)
  have "NUL \<notin> set (concat chunks')"
    using assms(1,2) by metis
  then show ?thesis
    using recv.loop_ok [OF recv_ok_init(1), of chunks] recv.loop_ok [OF recv_ok_init(1), of chunks']
      c [of chunks] c [of chunks'] assms by (auto simp: recv_ok_init(2))
qed

text \<open>
  \<open>get_command\<close> on a buffer in the invariant: it never faults, it returns NULL and
  changes nothing when the pending text has no CR LF, and otherwise it returns the text before
  the first CR LF with a terminator and leaves exactly the text behind it.
\<close>

lemma get_command_spec:
  assumes "recv_ok b"
  shows "case crlf_index (recv_pending b) of
      None \<Rightarrow> get_command b = Inr (None, b)
    | Some i \<Rightarrow> \<exists>b'. get_command b = Inr (Some (cmd_mem (take i (recv_pending b))), b')
        \<and> recv_ok b' \<and> recv_pending b' = drop (i + 2) (recv_pending b)"
  using recv.get_none [OF assms] recv.get_some [OF assms] by (simp split: option.split)

text \<open>
  \<open>join_client_command\<close> returns (its doubling loop ends), keeps the invariant and
  appends the string in the read buffer to the pending text, as long as the text stays below
  \<open>2 ^ 30\<close> characters.
\<close>

lemma join_client_command_spec:
  assumes "recv_ok b" "read_str mem = Inr s" "length (recv_pending b) + length s < 2 ^ 30"
  shows "\<exists>b'. join_client_command b mem = Some (Inr b') \<and> recv_ok b' \<and> recv_pending b' = recv_pending b @ s"
  using assms by (rule join_client_command_ok)

end
