(* ===== verification/Messages.thy ===== *)
theory Messages
  imports C_Text
begin

text \<open>
  What the server writes: the log file (\<open>logger_log\<close> of \<open>logger.c\<close>) and the socket (\<open>send_message\<close>
  and \<open>send_formatted\<close> of \<open>handler_helper.c\<close>).  The effects are a list of events.  The clock, the
  address of the server and the textual form of a client address, which the operating system
  supplies, are part of the environment.

  Two blocks of \<open>logger_log\<close> are smaller than what is written to them.  To say what the function
  does when the bytes behind them happen to be unused, the environment also tells how many bytes
  behind a block can be overwritten without harm; with 0 the model is that of the C standard.
\<close>

section \<open>Environment and events\<close>

record tm =
  tm_mday :: int
  tm_mon :: int
  tm_year :: int
  tm_hour :: int
  tm_min :: int
  tm_sec :: int

text \<open>An address as the logger sees it: the text of \<open>inet_ntoa\<close> and the port in host order.\<close>

record sockaddr_in =
  sin_addr :: "char list"
  sin_port :: int

record io_env =
  env_time :: tm
  env_server :: sockaddr_in
  heap_slack :: nat
  stack_slack :: nat

datatype io_event =
    Log_Line "char list"
  | Write int "char list"
  | Close int

section \<open>Log\<close>

definition log_text :: "tm \<Rightarrow> int \<Rightarrow> char list \<Rightarrow> char list \<Rightarrow> int \<Rightarrow> char list \<Rightarrow> char list" where
  "log_text t i to ip port s =
     ''['' @ print_0d 2 (tm_mday t) @ ''/'' @ print_0d 2 (tm_mon t + 1) @ ''/'' @ print_0d 2 (tm_year t - 100)
     @ '' '' @ print_0d 2 (tm_hour t) @ '':'' @ print_0d 2 (tm_min t) @ '':'' @ print_0d 2 (tm_sec t)
     @ ''] '' @ print_0d 3 i @ '' '' @ to @ '' '' @ print_left 15 ip @ '':'' @ print_0d 5 port @ '' '' @ s @ [LF]"

text \<open>
  The copy \<open>cpy\<close> has \<open>strlen (str)\<close> bytes and \<open>to_write\<close> has \<open>42 + len\<close>; \<open>strcpy\<close> and \<open>sprintf\<close>
  write one byte more than the text they copy.
\<close>

definition logger_log :: "io_env \<Rightarrow> sockaddr_in option \<Rightarrow> int \<Rightarrow> char option list \<Rightarrow> int \<Rightarrow> io_event list c_result" where
  "logger_log env src i str len =
     bind_c (read_str str) (\<lambda>s.
       if length s + 1 > length s + heap_slack env then Inl Out_Of_Bounds
       else let to = (case src of None \<Rightarrow> ''<'' | Some a \<Rightarrow> ''@'');
                ip = (case src of None \<Rightarrow> ''0.0.0.0'' | Some a \<Rightarrow> sin_addr a);
                port = (case src of None \<Rightarrow> sin_port (env_server env) | Some a \<Rightarrow> sin_port a);
                line = log_text (env_time env) i to ip port s
            in if int (length line) + 1 > 42 + len + int (stack_slack env) then Inl Out_Of_Bounds
               else Inr [Log_Line (c_str line)])"

section \<open>Messages to the client\<close>

text \<open>
  \<open>send_message\<close> logs the message without its last two bytes and hands all of it to \<open>write\<close>; the
  result of \<open>write\<close> is ignored.
\<close>

definition send_message :: "io_env \<Rightarrow> int \<Rightarrow> char option list \<Rightarrow> nat \<Rightarrow> io_event list c_result" where
  "send_message env newsockfd to_send len =
     (if len > length to_send \<or> len < 2 then Inl Out_Of_Bounds
      else let to_log = (memcpy_at (replicate len None) 0 to_send len)[len - 2 := Some NUL]
           in bind_c (logger_log env None newsockfd to_log (int len - 2)) (\<lambda>evs.
                if None \<in> set (take len to_send) then Inl Uninitialised_Read
                else Inr (evs @ [Write newsockfd (map the (take len to_send))])))"

text \<open>The 45 bytes that \<open>send_formatted\<close> prepares; \<open>info\<close> and \<open>msg\<close> are strings.\<close>

definition formatted :: "char list \<Rightarrow> char list option \<Rightarrow> char list" where
  "formatted info msg =
     (let to_send = replicate 45 (CHR '' '');
          to_send = (memcpy_at to_send 0 info 4)[4 := TAB];
          to_send = (case msg of
              None \<Rightarrow> to_send
            | Some s \<Rightarrow> (let len = length s; i = (if len > 40 then 40 else len) in memcpy_at to_send 5 s i))
      in to_send[43 := CR, 44 := LF])"

definition send_formatted :: "io_env \<Rightarrow> int \<Rightarrow> char list \<Rightarrow> char list option \<Rightarrow> io_event list c_result" where
  "send_formatted env newsockfd info msg =
     (if length info < 4 then Inl Out_Of_Bounds
      else send_message env newsockfd (map Some (formatted info msg)) 45)"

section \<open>The frame\<close>

lemma update_last2:
  assumes "length xs = n" shows "(xs @ [a, b])[n := c, Suc n := d] = xs @ [c, d]"
  using assms by (auto simp: list_update_append)

lemma formatted_eq:
  assumes "length info = 4"
  shows "formatted info msg =
    info @ [TAB] @ take 38 (case msg of None \<Rightarrow> [] | Some s \<Rightarrow> s)
      @ replicate (38 - length (case msg of None \<Rightarrow> [] | Some s \<Rightarrow> s)) (CHR '' '') @ [CR, LF]"
proof -
  define s where "s = (case msg of None \<Rightarrow> [] | Some s \<Rightarrow> s)"
  let ?sp = "\<lambda>n. replicate n (CHR '' '')"
  have "?sp 45 = ?sp 4 @ [CHR '' ''] @ ?sp 40"
    using replicate_add [of 4 41 "CHR '' ''"] replicate_add [of 1 40 "CHR '' ''"] by simp
  then have head: "(memcpy_at (?sp 45) 0 info 4)[4 := TAB] = info @ [TAB] @ ?sp 40"
    using assms by (simp add: memcpy_at_def list_update_append)
  have body: "(case msg of None \<Rightarrow> info @ [TAB] @ ?sp 40
      | Some s \<Rightarrow> memcpy_at (info @ [TAB] @ ?sp 40) 5 s (if length s > 40 then 40 else length s)) =
      info @ [TAB] @ take 40 s @ ?sp (40 - length s)"
    using assms by (auto simp: s_def memcpy_at_def split: option.split)
  define m where "m = take 40 s @ ?sp (40 - length s)"
  have "length (drop 38 m) = Suc (Suc 0)"
    by (simp add: m_def)
  then obtain a b where ab: "drop 38 m = [a, b]"
    by (auto simp only: length_Suc_conv length_0_conv)
  then have split: "m = take 38 m @ [a, b]"
    by (metis append_take_drop_id)
  have len: "length (take 38 m) = 38"
    by (simp add: m_def)
  have "take 38 m = take 38 s @ ?sp (38 - length s)"
    by (simp add: m_def min_def)
  moreover have "(info @ [TAB] @ m)[43 := CR, 44 := LF] = info @ [TAB] @ take 38 m @ [CR, LF]"
    using update_last2 [of "info @ [TAB] @ take 38 m" 43 a b CR LF] assms len
    by (subst split) simp
  ultimately show ?thesis
    using head body by (simp only: formatted_def Let_def s_def [symmetric] m_def append_assoc)
qed

lemma length_formatted [simp]: "length info = 4 \<Longrightarrow> length (formatted info msg) = 45"
  by (simp add: formatted_eq split: option.split)


lemma NUL_notin_formatted:
  assumes "length info = 4" "NUL \<notin> set info" "\<forall>s. msg = Some s \<longrightarrow> NUL \<notin> set s"
  shows "NUL \<notin> set (formatted info msg)"
  using assms by (auto simp: formatted_eq split: option.splits dest: in_set_takeD)

section \<open>The log line\<close>

definition tm_ok :: "tm \<Rightarrow> bool" where
  "tm_ok t \<longleftrightarrow> 1 \<le> tm_mday t \<and> tm_mday t \<le> 31 \<and> 0 \<le> tm_mon t \<and> tm_mon t \<le> 11
     \<and> 100 \<le> tm_year t \<and> tm_year t < 200 \<and> 0 \<le> tm_hour t \<and> tm_hour t \<le> 23
     \<and> 0 \<le> tm_min t \<and> tm_min t \<le> 59 \<and> 0 \<le> tm_sec t \<and> tm_sec t \<le> 60"

definition addr_ok :: "sockaddr_in \<Rightarrow> bool" where
  "addr_ok a \<longleftrightarrow> length (sin_addr a) \<le> 15 \<and> NUL \<notin> set (sin_addr a) \<and> 0 \<le> sin_port a \<and> sin_port a < 65536"

lemma length_log_text:
  assumes "tm_ok t" "0 \<le> i" "i < 1000" "length to = 1" "length ip \<le> 15" "0 \<le> port" "port < 65536"
  shows "length (log_text t i to ip port s) = 49 + length s"
proof -
  have "length (print_0d 2 v) = 2" if "0 \<le> v" "v < 100" for v
    using that by (intro length_print_0d) simp_all
  moreover have "length (print_0d 3 i) = 3" "length (print_0d 5 port) = 5"
    using assms by (auto intro!: length_print_0d)
  moreover have "length (print_left 15 ip) = 15"
    using assms(5) by (simp add: print_left_def)
  ultimately show ?thesis
    using assms(1,4) by (simp add: log_text_def tm_ok_def)
qed

lemma NUL_notin_log_text:
  "NUL \<notin> set s \<Longrightarrow> NUL \<notin> set to \<Longrightarrow> NUL \<notin> set ip \<Longrightarrow> NUL \<notin> set (log_text t i to ip port s)"
  by (auto simp: log_text_def print_left_def)

text \<open>The line a call of \<open>logger_log\<close> is meant to write.\<close>

definition log_line :: "io_env \<Rightarrow> sockaddr_in option \<Rightarrow> int \<Rightarrow> char list \<Rightarrow> char list" where
  "log_line env src i s =
     (case src of
        None \<Rightarrow> log_text (env_time env) i ''<'' ''0.0.0.0'' (sin_port (env_server env)) s
      | Some a \<Rightarrow> log_text (env_time env) i ''@'' (sin_addr a) (sin_port a) s)"

definition env_ok :: "io_env \<Rightarrow> bool" where
  "env_ok env \<longleftrightarrow> tm_ok (env_time env) \<and> addr_ok (env_server env)"

lemma logger_log_eq:
  assumes env: "env_ok env" "0 \<le> i" "i < 1000" and src: "\<forall>a. src = Some a \<longrightarrow> addr_ok a"
    and s: "NUL \<notin> set s"
  shows "logger_log env src i (map Some s @ Some NUL # rest) (int (length s)) =
    (if heap_slack env = 0 \<or> stack_slack env < 8 then Inl Out_Of_Bounds
     else Inr [Log_Line (log_line env src i s)])"
proof -
  define to ip port where "to = (case src of None \<Rightarrow> ''<'' | Some a \<Rightarrow> ''@'')"
    and "ip = (case src of None \<Rightarrow> ''0.0.0.0'' | Some a \<Rightarrow> sin_addr a)"
    and "port = (case src of None \<Rightarrow> sin_port (env_server env) | Some a \<Rightarrow> sin_port a)"
  note d = to_def ip_def port_def
  have "length (log_text (env_time env) i to ip port s) = 49 + length s"
    by (rule length_log_text) (use env src in \<open>auto simp: env_ok_def addr_ok_def d split: option.split\<close>)
  moreover have "NUL \<notin> set (log_text (env_time env) i to ip port s)"
    by (rule NUL_notin_log_text) (use s src in \<open>auto simp: addr_ok_def d split: option.split\<close>)
  moreover have "log_line env src i s = log_text (env_time env) i to ip port s"
    by (simp add: log_line_def d split: option.split)
  ultimately show ?thesis
    using s by (simp add: logger_log_def Let_def c_str_id d [symmetric])
qed

definition safe_env :: "io_env \<Rightarrow> bool" where
  "safe_env env \<longleftrightarrow> env_ok env \<and> heap_slack env \<ge> 1 \<and> stack_slack env \<ge> 8"

lemma send_message_eq:
  assumes "safe_env env" "0 \<le> fd" "fd < 1000" "NUL \<notin> set s" "length to_send = length s + 2"
    "take (length s) to_send = s"
  shows "send_message env fd (map Some to_send @ rest) (length s + 2) =
    Inr [Log_Line (log_line env None fd s), Write fd to_send]"
proof -
  obtain a b where ts: "to_send = s @ [a, b]"
  proof -
    have "length (drop (length s) to_send) = Suc (Suc 0)"
      using assms(5) by simp
    then obtain a b where "drop (length s) to_send = [a, b]"
      by (auto simp only: length_Suc_conv length_0_conv)
    then show thesis
      using that assms(6) by (metis append_take_drop_id)
  qed
  have "(memcpy_at (replicate (length s + 2) None) 0 (map Some to_send @ rest) (length s + 2))[length s := Some NUL] =
      map Some s @ Some NUL # [Some b]"
    by (simp add: memcpy_at_def ts list_update_append)
  with assms show ?thesis
    using logger_log_eq [of env fd None s "[Some b]"]
    by (simp add: send_message_def Let_def safe_env_def ts comp_def image_iff)
qed

lemma send_formatted_eq:
  assumes env: "safe_env env" "0 \<le> fd" "fd < 1000" and info: "length info = 4" "NUL \<notin> set info"
    and msg: "\<forall>s. msg = Some s \<longrightarrow> NUL \<notin> set s"
  shows "send_formatted env fd info msg =
    Inr [Log_Line (log_line env None fd (take 43 (formatted info msg))), Write fd (formatted info msg)]"
proof -
  define f where "f = formatted info msg"
  have len: "length f = 45"
    using info(1) by (simp add: f_def)
  have "NUL \<notin> set (take 43 f)"
    using NUL_notin_formatted [OF info msg] unfolding f_def by (meson in_set_takeD)
  then have "send_message env fd (map Some f @ []) (length (take 43 f) + 2) =
      Inr [Log_Line (log_line env None fd (take 43 f)), Write fd f]"
    by (rule send_message_eq [OF env]) (simp_all add: len)
  then show ?thesis
    using info(1) len by (simp add: send_formatted_def f_def [symmetric])
qed

section \<open>Properties\<close>

text \<open>
  Property C27. An answer with a reason is one frame of exactly 45 bytes: the four letters of the
  command, a tab, the reason cut or padded with blanks to 38 characters, and CR LF.  (The
  function copies up to 40 characters of the reason and then puts CR LF over the last two of
  them.)  The same text is logged without the CR LF.
\<close>

theorem send_formatted_frame:
  assumes "safe_env env" "0 \<le> fd" "fd < 1000" "length info = 4" "NUL \<notin> set info" "NUL \<notin> set reason"
  shows "\<exists>frame. send_formatted env fd info (Some reason) =
      Inr [Log_Line (log_line env None fd (take 43 frame)), Write fd frame]
    \<and> length frame = 45
    \<and> frame = info @ [TAB] @ take 38 reason @ replicate (38 - length reason) (CHR '' '') @ [CR, LF]"
proof (intro exI [of _ "formatted info (Some reason)"] conjI)
  show "send_formatted env fd info (Some reason) =
      Inr [Log_Line (log_line env None fd (take 43 (formatted info (Some reason)))),
           Write fd (formatted info (Some reason))]"
    by (rule send_formatted_eq) (use assms in auto)
  show "formatted info (Some reason) =
      info @ [TAB] @ take 38 reason @ replicate (38 - length reason) (CHR '' '') @ [CR, LF]"
    using formatted_eq [OF assms(4), of "Some reason"] by (simp only: option.case)
qed (simp add: assms(4))

definition sample_env :: io_env where
  "sample_env = \<lparr>
     env_time = \<lparr>tm_mday = 26, tm_mon = 4, tm_year = 117, tm_hour = 9, tm_min = 5, tm_sec = 0\<rparr>,
     env_server = \<lparr>sin_addr = ''0.0.0.0'', sin_port = 4480\<rparr>, heap_slack = 1, stack_slack = 8\<rparr>"

lemma safe_sample_env: "safe_env sample_env" "env_ok sample_env"
  by (simp_all add: safe_env_def env_ok_def sample_env_def tm_ok_def addr_ok_def)

theorem send_formatted_frame_witness:
  "\<exists>l. send_formatted sample_env 4 ''ERRO'' (Some ''1234567890123456789012345678901234567890'') =
    Inr [l, Write 4 (''ERRO'' @ [TAB] @ ''12345678901234567890123456789012345678'' @ [CR, LF])]"
  using send_formatted_frame [OF safe_sample_env(1), of 4 "''ERRO''" "''1234567890123456789012345678901234567890''"]
  by auto

text \<open>
  Every call of \<open>logger_log\<close> with the length of its text writes outside its blocks:
  one byte behind the copy of the text and, for a date, socket number, address and port of the
  usual widths, eight bytes behind \<open>to_write\<close>.  Where these bytes are not in use it appends one line
  of 49 characters plus the text to the log.
\<close>

lemma logger_log_overrun:
  assumes "env_ok env" "0 \<le> i" "i < 1000" "\<forall>a. src = Some a \<longrightarrow> addr_ok a" "NUL \<notin> set s"
  shows "logger_log env src i (map Some s @ Some NUL # rest) (int (length s)) =
    (if heap_slack env = 0 \<or> stack_slack env < 8 then Inl Out_Of_Bounds
     else Inr [Log_Line (log_line env src i s)])
    \<and> length (log_line env src i s) = 49 + length s"
proof (rule conjI [OF logger_log_eq [OF assms]])
  show "length (log_line env src i s) = 49 + length s"
    unfolding log_line_def using assms
    by (auto simp: env_ok_def addr_ok_def length_log_text split: option.split)
qed

end
