(* ===== verification/Handler.thy ===== *)
theory Handler
  imports Pow Cmd_Buffer Messages
begin

text \<open>
  Choosing and running the handler of a command (\<open>handler.c\<close>): the dispatch of \<open>client_handler\<close> with
  its temporary change of the fifth character, the handlers that only answer, and \<open>soln_handler\<close>.
  A handler is the list of its log and socket events; a fault is what the C standard leaves
  undefined on the way.
\<close>

section \<open>Arguments\<close>

text \<open>The fields of \<open>worker_arg_t\<close> that the handlers read; the shared objects are in the server model.\<close>

record worker_arg =
  newsockfd :: int
  command_str :: "char option list"
  cust_head :: "char list option"
  cust_msg :: "char list option"

datatype worker_func =
    Ping_handler | Pong_handler | Okay_handler | Erro_handler | Soln_handler | Slep_handler
  | Abrt_handler | Work_handler | Cust_handler | Unkn_handler

definition GLOBAL_WORK_LIMIT :: int where
  "GLOBAL_WORK_LIMIT = 10"

section \<open>Dispatch\<close>

text \<open>The chain of \<open>strcmp\<close> tests; the second argument is the number of WORK commands in the server.\<close>

definition choose_handler :: "char list \<Rightarrow> nat \<Rightarrow> int \<Rightarrow> worker_func \<times> int" where
  "choose_handler name orig_len work_count =
     (if name = ''PING'' \<and> orig_len = 4 then (Ping_handler, work_count)
      else if name = ''PONG'' \<and> orig_len = 4 then (Pong_handler, work_count)
      else if name = ''OKAY'' \<and> orig_len = 4 then (Okay_handler, work_count)
      else if name = ''ERRO'' \<and> orig_len = 4 then (Erro_handler, work_count)
      else if name = ''SOLN'' \<and> orig_len = 95 then (Soln_handler, work_count)
      else if name = ''SLEP'' \<and> orig_len = 4 then (Slep_handler, work_count)
      else if name = ''ABRT'' \<and> orig_len = 4 then (Abrt_handler, work_count)
      else if name = ''WORK'' \<and> orig_len = 98 then
        (if work_count < GLOBAL_WORK_LIMIT then (Work_handler, work_count + 1)
         else (Cust_handler, work_count))
      else (Unkn_handler, work_count))"

text \<open>
  The whole block from \<open>strlen (cmd)\<close> to the restored character: the chosen handler, its argument
  and the new number of WORK commands.
\<close>

definition dispatch :: "int \<Rightarrow> char option list \<Rightarrow> int \<Rightarrow> (worker_func \<times> worker_arg \<times> int) c_result" where
  "dispatch fd cmd work_count =
     bind_c (read_str cmd) (\<lambda>s.
       let orig_len = length s;
           changed = (if orig_len > 4 \<and> s ! 4 = CHR '' '' then Some (s ! 4) else None);
           cmd1 = (if changed = None then cmd else cmd[4 := Some NUL])
       in bind_c (read_str cmd1) (\<lambda>name.
            let (f, n) = choose_handler name orig_len work_count;
                cmd2 = (case changed of None \<Rightarrow> cmd1 | Some c \<Rightarrow> cmd1[4 := Some c]);
                full = (f = Cust_handler)
            in Inr (f, \<lparr>newsockfd = fd, command_str = cmd2,
                        cust_head = (if full then Some ''ERRO'' else None),
                        cust_msg = (if full then Some ''Server is full of WORK'' else None)\<rparr>, n)))"

section \<open>Answering handlers\<close>

text \<open>A string literal in memory.\<close>

abbreviation (input) lit :: "char list \<Rightarrow> char option list" where
  "lit s \<equiv> cmd_mem s"

definition ping_handler :: "io_env \<Rightarrow> worker_arg \<Rightarrow> io_event list c_result" where
  "ping_handler env arg = send_message env (newsockfd arg) (lit (''PONG'' @ [CR, LF])) 6"

definition unkn_handler :: "io_env \<Rightarrow> worker_arg \<Rightarrow> io_event list c_result" where
  "unkn_handler env arg = send_formatted env (newsockfd arg) ''ERRO'' (Some ''Unknown command or format'')"

definition erro_handler :: "io_env \<Rightarrow> worker_arg \<Rightarrow> io_event list c_result" where
  "erro_handler env arg = send_formatted env (newsockfd arg) ''ERRO'' (Some ''Only I can send YOU errors =.='')"

definition okay_handler :: "io_env \<Rightarrow> worker_arg \<Rightarrow> io_event list c_result" where
  "okay_handler env arg =
     send_formatted env (newsockfd arg) ''ERRO''
       (Some (''Dude it'' @ [CHR 0x27] @ ''s not okay to send OKAY okay?''))"

definition pong_handler :: "io_env \<Rightarrow> worker_arg \<Rightarrow> io_event list c_result" where
  "pong_handler env arg = send_formatted env (newsockfd arg) ''ERRO'' (Some ''PONG is strictly reserved for server'')"

definition cust_handler :: "io_env \<Rightarrow> worker_arg \<Rightarrow> io_event list c_result" where
  "cust_handler env arg =
     (case cust_head arg of
        None \<Rightarrow> Inl Uninitialised_Read
      | Some h \<Rightarrow> (case cust_msg arg of
          None \<Rightarrow> Inl Uninitialised_Read
        | Some msg \<Rightarrow> send_formatted env (newsockfd arg) h (Some msg)))"

definition slep_handler :: "io_env \<Rightarrow> worker_arg \<Rightarrow> io_event list c_result" where
  "slep_handler env arg =
     bind_c (send_formatted env (newsockfd arg) ''OKAY'' (Some ''sleeping 3 seconds..'')) (\<lambda>evs.
     bind_c (send_formatted env (newsockfd arg) ''OKAY'' (Some ''I just woke up!'')) (\<lambda>evs'.
       Inr (evs @ evs')))"

section \<open>Checking a solution\<close>

text \<open>
  \<open>sscanf (s, "%x %s %lx", ...)\<close> with the string stored at \<open>raw_seed\<close>.  A conversion that fails
  leaves the remaining variables as they were, that is, uninitialised.
\<close>

definition sscanf_soln :: "char list \<Rightarrow> char option list \<Rightarrow>
    (WORD option \<times> char option list \<times> u64 option) c_result" where
  "sscanf_soln s raw_seed =
     (case scan_x s of
        None \<Rightarrow> Inr (None, raw_seed, None)
      | Some (difficulty, r) \<Rightarrow> (case scan_s r of
          None \<Rightarrow> Inr (Some difficulty, raw_seed, None)
        | Some (tok, r') \<Rightarrow>
            bind_c (store_str tok raw_seed) (\<lambda>raw.
              Inr (Some difficulty, raw, map_option fst (scan_lx r')))))"

text \<open>The array \<open>raw_seed[64]\<close> before it is written, with the harmless bytes behind it.\<close>

definition raw_seed_array :: "io_env \<Rightarrow> char option list" where
  "raw_seed_array env = replicate (64 + stack_slack env) None"

definition soln_handler :: "endian \<Rightarrow> io_env \<Rightarrow> worker_arg \<Rightarrow> io_event list c_result" where
  "soln_handler host env arg =
     bind_c (read_str (drop 5 (command_str arg))) (\<lambda>s.
     bind_c (sscanf_soln s (raw_seed_array env)) (\<lambda>(difficulty, raw_seed, solution).
       case difficulty of
         None \<Rightarrow> Inl Uninitialised_Read
       | Some d \<Rightarrow>
           let target = get_target (ntohl host d) in
           bind_c (seed_from_raw raw_seed) (\<lambda>seed.
             case solution of
               None \<Rightarrow> Inl Uninitialised_Read
             | Some n \<Rightarrow>
                 if is_valid_soln host target seed n = -1
                 then send_message env (newsockfd arg) (lit (''OKAY'' @ [CR, LF])) 6
                 else send_formatted env (newsockfd arg) ''ERRO'' (Some ''Not a valid solution''))))"

section \<open>Dispatch, as a property of the text\<close>

lemma read_cmd_mem: "NUL \<notin> set s \<Longrightarrow> read_str (cmd_mem s) = Inr s"
  by (simp add: cmd_mem_def)

text \<open>The handler for a command line.\<close>

definition handler_for :: "char list \<Rightarrow> int \<Rightarrow> worker_func" where
  "handler_for s work_count =
     (if s = ''PING'' then Ping_handler
      else if s = ''PONG'' then Pong_handler
      else if s = ''OKAY'' then Okay_handler
      else if s = ''ERRO'' then Erro_handler
      else if s = ''SLEP'' then Slep_handler
      else if s = ''ABRT'' then Abrt_handler
      else if take 5 s = ''SOLN '' \<and> length s = 95 then Soln_handler
      else if take 5 s = ''WORK '' \<and> length s = 98 then
        (if work_count < GLOBAL_WORK_LIMIT then Work_handler else Cust_handler)
      else Unkn_handler)"

lemma choose_handler_short: "length s \<le> 4 \<or> s ! 4 \<noteq> CHR '' '' \<Longrightarrow>
    choose_handler s (length s) c = (handler_for s c, c)"
  by (auto simp: choose_handler_def handler_for_def numeral_eq_Suc take_Suc_conv_app_nth)

lemma choose_handler_spaced:
  assumes "length s > 4" "s ! 4 = CHR '' ''"
  shows "choose_handler (take 4 s) (length s) c =
    (handler_for s c, if handler_for s c = Work_handler then c + 1 else c)"
proof -
  have five: "take 5 s = take 4 s @ [CHR '' '']"
    using take_Suc_conv_app_nth [OF assms(1)] assms(2) by (simp add: eval_nat_numeral)
  have "s \<noteq> t" if "length t = 4" for t
    using that assms(1) by auto
  then have "s \<noteq> ''PING''" "s \<noteq> ''PONG''" "s \<noteq> ''OKAY''" "s \<noteq> ''ERRO''" "s \<noteq> ''SLEP''" "s \<noteq> ''ABRT''"
    by simp_all
  then show ?thesis
    using assms(1) by (auto simp: choose_handler_def handler_for_def five)
qed

lemma handler_for_not_work:
  "length s \<le> 4 \<or> s ! 4 \<noteq> CHR '' '' \<Longrightarrow> handler_for s c \<noteq> Work_handler \<and> handler_for s c \<noteq> Cust_handler"
  by (auto simp: handler_for_def numeral_eq_Suc take_Suc_conv_app_nth)

definition arg_for :: "int \<Rightarrow> char list \<Rightarrow> worker_func \<Rightarrow> worker_arg" where
  "arg_for fd s f = \<lparr>newsockfd = fd, command_str = cmd_mem s,
     cust_head = (if f = Cust_handler then Some ''ERRO'' else None),
     cust_msg = (if f = Cust_handler then Some ''Server is full of WORK'' else None)\<rparr>"

lemma dispatch_eq:
  assumes "NUL \<notin> set s"
  shows "dispatch fd (cmd_mem s) c =
    Inr (handler_for s c, arg_for fd s (handler_for s c),
         if handler_for s c = Work_handler then c + 1 else c)"
proof (cases "length s > 4 \<and> s ! 4 = CHR '' ''")
  case True
  have split: "cmd_mem s = map Some (take 4 s) @ Some (CHR '' '') # map Some (drop 5 s) @ [Some NUL]"
    using id_take_nth_drop [of 4 s] True by (simp add: cmd_mem_def flip: map_append list.map(2))
  have upd: "(cmd_mem s)[4 := Some NUL] = map Some (take 4 s) @ Some NUL # map Some (drop 5 s) @ [Some NUL]"
    unfolding split using True by (simp add: list_update_append min_def)
  have "NUL \<notin> set (take 4 s)"
    using assms by (meson in_set_takeD)
  then have "read_str ((cmd_mem s)[4 := Some NUL]) = Inr (take 4 s)"
    by (simp add: upd)
  moreover have "(cmd_mem s)[4 := Some NUL, 4 := Some (CHR '' '')] = cmd_mem s"
    unfolding split using True by (simp add: list_update_append min_def)
  ultimately show ?thesis
    using True by (simp add: dispatch_def read_cmd_mem [OF assms] choose_handler_spaced arg_for_def Let_def)
next
  case False
  then show ?thesis
    using choose_handler_short [of s c] handler_for_not_work [of s c]
    by (auto simp: dispatch_def read_cmd_mem [OF assms] arg_for_def Let_def)
qed

section \<open>A well-formed SOLN command\<close>

definition soln_text :: "WORD \<Rightarrow> BYTE list \<Rightarrow> u64 \<Rightarrow> char list" where
  "soln_text w seed n =
     ''SOLN '' @ print_hex 8 (unat w) @ '' '' @ hex_text seed @ '' '' @ print_hex 16 (unat n)"

lemma length_soln_text: "length seed = 32 \<Longrightarrow> length (soln_text w seed n) = 95"
  by (simp add: soln_text_def)

lemma NUL_notin_soln_text: "NUL \<notin> set (soln_text w seed n)"
  by (simp add: soln_text_def)

lemma hex_text_scan:
  assumes "seed \<noteq> []" "r = [] \<or> isspace (hd r)"
  shows "scan_s (CHR '' '' # hex_text seed @ r) = Some (hex_text seed, r)"
proof (rule scan_s_token [OF _ _ assms(2)])
  show "list_all (\<lambda>c. \<not> isspace c) (hex_text seed)"
    by (auto simp: list_all_iff dest: hex_text_digits isxdigit_not_space)
  show "hex_text seed \<noteq> []"
    using assms(1) by (metis length_0_conv length_hex_text mult_is_0 zero_neq_numeral)
qed

lemma store_seed:
  assumes "length seed = 32"
  shows "store_str (hex_text seed) (raw_seed_array env) =
    (if stack_slack env = 0 then Inl Out_Of_Bounds
     else Inr (map Some (hex_text seed @ [NUL]) @ replicate (stack_slack env - 1) None))"
  using assms by (auto simp: store_str_def raw_seed_array_def)

lemma seed_from_stored:
  "length seed = 32 \<Longrightarrow> seed_from_raw (map Some (hex_text seed @ [NUL]) @ rest) = Inr seed"
  using hstob_hex_text [of "[]" seed rest] by (simp add: seed_from_raw_def)

lemma sscanf_soln_text:
  assumes "length seed = 32"
  shows "sscanf_soln (print_hex 8 (unat w) @ '' '' @ hex_text seed @ '' '' @ print_hex 16 (unat n)) (raw_seed_array env) =
    (if stack_slack env = 0 then Inl Out_Of_Bounds
     else Inr (Some w, map Some (hex_text seed @ [NUL]) @ replicate (stack_slack env - 1) None, Some n))"
proof -
  have "seed \<noteq> []"
    using assms by auto
  then have s: "scan_s (CHR '' '' # hex_text seed @ CHR '' '' # print_hex 16 (unat n)) =
      Some (hex_text seed, CHR '' '' # print_hex 16 (unat n))"
    using hex_text_scan [of seed "CHR '' '' # print_hex 16 (unat n)"] by (simp add: isspace_def)
  have "scan_lx (CHR '' '' # print_hex 16 (unat n)) = Some (n, [])"
    using scan_lx_print_hex [of "[]" n] by simp
  then show ?thesis
    using scan_x_print_hex [of "CHR '' '' # hex_text seed @ CHR '' '' # print_hex 16 (unat n)" w] s
    by (simp add: sscanf_soln_def store_seed [OF assms])
qed

lemma soln_handler_eq:
  assumes seed: "length seed = 32" and cmd: "command_str arg = cmd_mem (soln_text w seed n)"
  shows "soln_handler host env arg =
    (if stack_slack env = 0 then Inl Out_Of_Bounds
     else if is_valid_soln host (get_target (ntohl host w)) seed n = -1
       then send_message env (newsockfd arg) (lit (''OKAY'' @ [CR, LF])) 6
       else send_formatted env (newsockfd arg) ''ERRO'' (Some ''Not a valid solution''))"
proof -
  let ?t = "print_hex 8 (unat w) @ '' '' @ hex_text seed @ '' '' @ print_hex 16 (unat n)"
  have "drop 5 (command_str arg) = cmd_mem ?t"
    by (simp add: cmd soln_text_def cmd_mem_def)
  moreover have "NUL \<notin> set ?t"
    by simp
  ultimately have "read_str (drop 5 (command_str arg)) = Inr ?t"
    by (simp only: read_cmd_mem not_False_eq_True)
  then show ?thesis
    using sscanf_soln_text [OF seed, of w n env]
    by (simp add: soln_handler_def seed_from_stored [OF seed, simplified] Let_def)
qed

lemma send_line:
  assumes "safe_env env" "0 \<le> fd" "fd < 1000" "NUL \<notin> set s" "n = length s + 2"
  shows "send_message env fd (lit (s @ [CR, LF])) n =
    Inr [Log_Line (log_line env None fd s), Write fd (s @ [CR, LF])]"
  using send_message_eq [OF assms(1-4), of "s @ [CR, LF]" "[Some NUL]"] assms(5)
  by (simp add: cmd_mem_def)

lemma send_reason:
  assumes "safe_env env" "0 \<le> fd" "fd < 1000" "length info = 4" "NUL \<notin> set info" "NUL \<notin> set reason"
  shows "\<exists>l. send_formatted env fd info (Some reason) = Inr [Log_Line l, Write fd (formatted info (Some reason))]"
  using send_formatted_eq [OF assms(1-5), of "Some reason"] assms(6) by simp

text \<open>The frame of a short reason.\<close>

definition reply_frame :: "char list \<Rightarrow> char list \<Rightarrow> char list" where
  "reply_frame info reason = info @ [TAB] @ reason @ replicate (38 - length reason) (CHR '' '') @ [CR, LF]"

lemma send_frame:
  assumes "safe_env env" "0 \<le> fd" "fd < 1000" "length info = 4" "NUL \<notin> set info" "NUL \<notin> set reason"
    "length reason \<le> 38"
  shows "\<exists>l. send_formatted env fd info (Some reason) = Inr [Log_Line l, Write fd (reply_frame info reason)]"
  using send_reason [OF assms(1-6)] formatted_eq [OF assms(4), of "Some reason"] assms(7)
  by (simp add: reply_frame_def)

section \<open>Answers\<close>

lemma ping_reply:
  assumes "safe_env env" "0 \<le> newsockfd arg" "newsockfd arg < 1000"
  shows "\<exists>l. ping_handler env arg = Inr [Log_Line l, Write (newsockfd arg) (''PONG'' @ [CR, LF])]"
proof -
  have "send_message env (newsockfd arg) (lit (''PONG'' @ [CR, LF])) 6 =
      Inr [Log_Line (log_line env None (newsockfd arg) ''PONG''), Write (newsockfd arg) (''PONG'' @ [CR, LF])]"
    by (rule send_line [OF assms]) simp_all
  then show ?thesis
    unfolding ping_handler_def by blast
qed

lemmas reason_handlers = pong_handler_def okay_handler_def erro_handler_def unkn_handler_def cust_handler_def
  slep_handler_def

text \<open>
  A well-formed SOLN on a little-endian host is answered with OKAY when the double
  SHA-256 digest of seed and nonce is below the target of the difficulty, and with the frame
  \<open>ERRO Not a valid solution\<close> otherwise, provided the byte behind \<open>raw_seed[64]\<close> can be overwritten
  and the nonce is not one of those that \<open>get_x\<close> misjudges.
\<close>

lemma soln_reply:
  assumes "safe_env env" "0 \<le> newsockfd arg" "newsockfd arg < 1000" "length seed = 32"
    "command_str arg = cmd_mem (soln_text w seed n)" "\<not> byte_palindrome n"
  shows "\<exists>l. soln_handler Little env arg = Inr [Log_Line l, Write (newsockfd arg)
    (if solves w seed n then ''OKAY'' @ [CR, LF]
     else ''ERRO'' @ [TAB] @ ''Not a valid solution'' @ replicate 18 (CHR '' '') @ [CR, LF])]"
proof -
  have "stack_slack env \<noteq> 0"
    using assms(1) by (simp add: safe_env_def)
  moreover have "formatted ''ERRO'' (Some ''Not a valid solution'') =
      ''ERRO'' @ [TAB] @ ''Not a valid solution'' @ replicate 18 (CHR '' '') @ [CR, LF]"
    by (subst formatted_eq) simp_all
  moreover have "\<exists>l. send_formatted env (newsockfd arg) ''ERRO'' (Some ''Not a valid solution'') =
      Inr [Log_Line l, Write (newsockfd arg) (formatted ''ERRO'' (Some ''Not a valid solution''))]"
    by (rule send_reason) (use assms(1-3) in simp_all)
  moreover have "send_message env (newsockfd arg) (lit (''OKAY'' @ [CR, LF])) 6 =
      Inr [Log_Line (log_line env None (newsockfd arg) ''OKAY''), Write (newsockfd arg) (''OKAY'' @ [CR, LF])]"
    by (rule send_line) (use assms(1-3) in simp_all)
  ultimately show ?thesis
    unfolding soln_handler_eq [OF assms(4,5)] valid_soln_solves [OF assms(4,6)]
    by (simp only: if_False) (cases "solves w seed n"; simp only: if_True if_False; blast)
qed

section \<open>Properties\<close>

text \<open>
  Dispatch of a command line: the six plain commands must match exactly, SOLN and
  WORK need a blank behind the word and a total length of 95 and 98 characters, everything else
  is an unknown command.  The character that is overwritten for \<open>strcmp\<close> is restored, so the
  handler sees the line unchanged.  Only an accepted WORK changes the number of WORK commands.
\<close>

lemma dispatch_spec:
  assumes "NUL \<notin> set s"
  shows "dispatch fd (cmd_mem s) c =
    Inr (handler_for s c, arg_for fd s (handler_for s c),
         if handler_for s c = Work_handler then c + 1 else c)"
  using assms by (rule dispatch_eq)

text \<open>
  The number of WORK commands in the server: a WORK is accepted only below the
  limit of 10, so the limit is never exceeded, and at the limit the client gets the handler with
  the message that the server is full.
\<close>

lemma dispatch_work_limit:
  assumes "NUL \<notin> set s" "c \<le> GLOBAL_WORK_LIMIT" "dispatch fd (cmd_mem s) c = Inr (f, arg, c')"
  shows "c' \<le> GLOBAL_WORK_LIMIT \<and> (f = Work_handler \<longleftrightarrow> c' = c + 1)
    \<and> (f = Cust_handler \<longrightarrow> c = GLOBAL_WORK_LIMIT \<and> cust_msg arg = Some ''Server is full of WORK'')"
  using assms(2,3) unfolding dispatch_eq [OF assms(1)]
  by (auto simp: handler_for_def arg_for_def split: if_splits)

text \<open>
  The commands without parameters: PING is answered with PONG, and the commands that
  only the server may send, an unknown command and a WORK beyond the limit are answered with one
  45-byte frame that carries the whole reason.
\<close>

lemma plain_replies:
  assumes "safe_env env" "0 \<le> newsockfd arg" "newsockfd arg < 1000"
  shows "(\<exists>l. ping_handler env arg = Inr [Log_Line l, Write (newsockfd arg) (''PONG'' @ [CR, LF])])
    \<and> (\<exists>l. pong_handler env arg = Inr [Log_Line l, Write (newsockfd arg)
         (reply_frame ''ERRO'' ''PONG is strictly reserved for server'')])
    \<and> (\<exists>l. okay_handler env arg = Inr [Log_Line l, Write (newsockfd arg)
         (reply_frame ''ERRO'' (''Dude it'' @ [CHR 0x27] @ ''s not okay to send OKAY okay?''))])
    \<and> (\<exists>l. erro_handler env arg = Inr [Log_Line l, Write (newsockfd arg)
         (reply_frame ''ERRO'' ''Only I can send YOU errors =.='')])
    \<and> (\<exists>l. unkn_handler env arg = Inr [Log_Line l, Write (newsockfd arg)
         (reply_frame ''ERRO'' ''Unknown command or format'')])
    \<and> (\<exists>l. cust_handler env (arg_for (newsockfd arg) s Cust_handler) = Inr [Log_Line l, Write (newsockfd arg)
         (reply_frame ''ERRO'' ''Server is full of WORK'')])"
proof (intro conjI)
  show "\<exists>l. ping_handler env arg = Inr [Log_Line l, Write (newsockfd arg) (''PONG'' @ [CR, LF])]"
    by (rule ping_reply [OF assms])
qed (simp_all only: reason_handlers arg_for_def worker_arg.simps if_True refl option.case,
    (rule send_frame [OF assms]; simp)+)



text \<open>
  A command of the right length whose difficulty is not a number reaches
  \<open>soln_handler\<close>, which goes on with an uninitialised difficulty: the result of \<open>sscanf\<close> is not
  checked.
\<close>

lemma soln_handler_unchecked_scan:
  "dispatch fd (cmd_mem (''SOLN '' @ replicate 90 (CHR ''z''))) c =
     Inr (Soln_handler, arg_for fd (''SOLN '' @ replicate 90 (CHR ''z'')) Soln_handler, c)
   \<and> soln_handler host env (arg_for fd (''SOLN '' @ replicate 90 (CHR ''z'')) Soln_handler) = Inl Uninitialised_Read"
proof -
  define zs where "zs = replicate 90 (CHR ''z'')"
  have zs: "length zs = 90" "NUL \<notin> set zs"
    by (simp_all add: zs_def)
  have scan: "scan_x (replicate (Suc k) (CHR ''z'')) = None" for k
    by (cases k) (simp_all add: scan_x_def scan_hex_def isspace_def isxdigit_def hex_digit_def Let_def)
  have "scan_x zs = None"
    unfolding zs_def numeral_eq_Suc [of "num.Bit0 _"] by (rule scan)
  moreover have "drop 5 (cmd_mem (''SOLN '' @ zs)) = cmd_mem zs"
    by (simp add: cmd_mem_def)
  ultimately have "soln_handler host env (arg_for fd (''SOLN '' @ zs) Soln_handler) = Inl Uninitialised_Read"
    by (simp add: soln_handler_def arg_for_def read_cmd_mem zs(2) sscanf_soln_def)
  moreover have "dispatch fd (cmd_mem (''SOLN '' @ zs)) c = Inr (Soln_handler, arg_for fd (''SOLN '' @ zs) Soln_handler, c)"
    using zs by (subst dispatch_eq) (simp_all add: handler_for_def)
  ultimately show ?thesis
    unfolding zs_def by (rule conjI [rotated])
qed

end
