(* ===== verification/Tid_Queue.thy ===== *)
theory Tid_Queue
  imports C_Text
begin

text \<open>
  The queue of thread ids that orders the answers to WORK commands (\<open>queue_t\<close> with \<open>rm_tid\<close>,
  \<open>push_tid\<close>, \<open>get_tid\<close> and \<open>print_queue\<close> of \<open>handler_helper.c\<close>), as a linked list in a heap.  Each
  of the first three runs under the queue's mutex and is one atomic step.  The locale states the
  contract of a first-in first-out queue; the heap representation is shown to meet it.
\<close>

section \<open>Nodes and operations\<close>

record queue_t =
  thread_id :: int
  next_node :: ptr

record tid_queue =
  q_heap :: "ptr \<rightharpoonup> queue_t"
  q_head :: ptr

definition empty_queue :: tid_queue where
  "empty_queue = \<lparr>q_heap = Map.empty, q_head = NULL\<rparr>"

definition rm_tid :: "tid_queue \<Rightarrow> tid_queue c_result" where
  "rm_tid q =
     (if q_head q \<noteq> NULL then
        case q_heap q (q_head q) of
          None \<Rightarrow> Inl Invalid_Pointer
        | Some nd \<Rightarrow> Inr (q\<lparr>q_head := next_node nd, q_heap := (q_heap q)(q_head q := None)\<rparr>)
      else Inr q)"

text \<open>The loop to the last node; on a cyclic list it would not end.\<close>

partial_function (option) last_node :: "(ptr \<rightharpoonup> queue_t) \<Rightarrow> ptr \<Rightarrow> ptr c_result option" where
  [code]: "last_node h cur =
     (case h cur of
        None \<Rightarrow> Some (Inl Invalid_Pointer)
      | Some nd \<Rightarrow> if next_node nd \<noteq> NULL then last_node h (next_node nd) else Some (Inr cur))"

text \<open>The argument \<open>new\<close> is the address that \<open>malloc\<close> returns.\<close>

definition push_tid :: "ptr \<Rightarrow> tid_queue \<Rightarrow> int \<Rightarrow> tid_queue c_result option" where
  "push_tid new q tid =
     (let cur = q_head q;
          h = (q_heap q)(new \<mapsto> \<lparr>thread_id = tid, next_node = NULL\<rparr>)
      in if cur \<noteq> NULL
         then map_option (\<lambda>r. bind_c r (\<lambda>l. case h l of
                None \<Rightarrow> Inl Invalid_Pointer
              | Some nd \<Rightarrow> Inr (q\<lparr>q_heap := h(l \<mapsto> nd\<lparr>next_node := new\<rparr>)\<rparr>)))
              (last_node h cur)
         else Some (Inr (q\<lparr>q_heap := h, q_head := new\<rparr>)))"

definition get_tid :: "tid_queue \<Rightarrow> int c_result" where
  "get_tid q =
     (if q_head q \<noteq> NULL then
        case q_heap q (q_head q) of None \<Rightarrow> Inl Invalid_Pointer | Some nd \<Rightarrow> Inr (thread_id nd)
      else Inr (-1))"

text \<open>The traversal that \<open>print_queue\<close> and \<open>abrt_handler\<close> share: the ids from head to tail.\<close>

partial_function (option) queue_ids :: "(ptr \<rightharpoonup> queue_t) \<Rightarrow> ptr \<Rightarrow> int list c_result option" where
  [code]: "queue_ids h cur =
     (if cur \<noteq> NULL then
        case h cur of
          None \<Rightarrow> Some (Inl Invalid_Pointer)
        | Some nd \<Rightarrow> Option.bind (queue_ids h (next_node nd)) (\<lambda>r.
                       Some (bind_c r (\<lambda>ts. Inr (thread_id nd # ts))))
      else Some (Inr []))"

definition print_queue :: "tid_queue \<Rightarrow> char list c_result option" where
  "print_queue q =
     map_option (\<lambda>r. bind_c r (\<lambda>ts.
         Inr (''[ '' @ concat (map (\<lambda>t. print_int t @ '' '') ts) @ '']'' @ [LF])))
       (queue_ids (q_heap q) (q_head q))"

section \<open>The contract of a queue\<close>

text \<open>
  \<open>holds q ts\<close>: the queue contains exactly \<open>ts\<close>, oldest first.  \<open>fresh q a\<close>: the allocator may
  return the address \<open>a\<close>.
\<close>

locale fifo_queue =
  fixes holds :: "'q \<Rightarrow> int list \<Rightarrow> bool" and fresh :: "'q \<Rightarrow> ptr \<Rightarrow> bool"
    and push :: "ptr \<Rightarrow> 'q \<Rightarrow> int \<Rightarrow> 'q c_result option"
    and rm :: "'q \<Rightarrow> 'q c_result" and peek :: "'q \<Rightarrow> int c_result"
  assumes push: "holds q ts \<Longrightarrow> fresh q a \<Longrightarrow> \<exists>q'. push a q t = Some (Inr q') \<and> holds q' (ts @ [t])"
    and rm: "holds q ts \<Longrightarrow> \<exists>q'. rm q = Inr q' \<and> holds q' (tl ts)"
    and peek: "holds q ts \<Longrightarrow> peek q = Inr (if ts = [] then -1 else hd ts)"
begin

text \<open>Taking \<open>n\<close> entries off the queue.\<close>

lemma rm_many:
  assumes "holds q ts"
  shows "\<exists>q'. ((\<lambda>r. bind_c r rm) ^^ n) (Inr q) = Inr q' \<and> holds q' (drop n ts)"
proof (induction n)
  case 0
  with assms show ?case by simp
next
  case (Suc n)
  then obtain q' where "((\<lambda>r. bind_c r rm) ^^ n) (Inr q) = Inr q'" "holds q' (drop n ts)"
    by blast
  with rm [of q' "drop n ts"] show ?case
    by (auto simp: drop_Suc tl_drop)
qed

lemma peek_after:
  assumes "holds q ts" "n < length ts"
  shows "bind_c (((\<lambda>r. bind_c r rm) ^^ n) (Inr q)) peek = Inr (ts ! n)"
  using rm_many [OF assms(1), of n] peek assms(2) by (auto simp: hd_drop_conv_nth)

text \<open>The turn: an id is at the head exactly when all older ones are gone.\<close>

lemma turn_iff:
  assumes "holds q (us @ t # vs)" "t \<notin> set us" "t \<noteq> -1"
  shows "peek q = Inr t \<longleftrightarrow> us = []"
  using peek [OF assms(1)] assms(2,3) by (cases us) auto

end

section \<open>The heap representation\<close>

primrec chain :: "(ptr \<rightharpoonup> queue_t) \<Rightarrow> ptr \<Rightarrow> (ptr \<times> int) list \<Rightarrow> bool" where
  "chain h p [] \<longleftrightarrow> p = NULL"
| "chain h p (x # xs) \<longleftrightarrow> p = fst x \<and> p \<noteq> NULL \<and> (\<exists>n. h p = Some \<lparr>thread_id = snd x, next_node = n\<rparr> \<and> chain h n xs)"

definition queue_holds :: "tid_queue \<Rightarrow> int list \<Rightarrow> bool" where
  "queue_holds q ts \<longleftrightarrow>
     (\<exists>xs. chain (q_heap q) (q_head q) xs \<and> distinct (map fst xs) \<and> map snd xs = ts
           \<and> dom (q_heap q) = set (map fst xs))"

definition queue_fresh :: "tid_queue \<Rightarrow> ptr \<Rightarrow> bool" where
  "queue_fresh q a \<longleftrightarrow> a \<noteq> NULL \<and> q_heap q a = None"

lemma chain_frame: "chain h p xs \<Longrightarrow> a \<notin> fst ` set xs \<Longrightarrow> chain (h(a := v)) p xs"
  by (induction xs arbitrary: p) auto

lemma chain_snoc:
  assumes "chain h p xs" "xs \<noteq> []" "distinct (map fst xs)" "a \<notin> fst ` set xs" "a \<noteq> NULL"
    "h a = Some \<lparr>thread_id = t, next_node = NULL\<rparr>"
  shows "\<exists>l nd. last_node h p = Some (Inr l) \<and> h l = Some nd \<and> l \<in> fst ` set xs
    \<and> chain (h(l \<mapsto> nd\<lparr>next_node := a\<rparr>)) p (xs @ [(a, t)])"
  using assms
proof (induction xs arbitrary: p)
  case Nil
  then show ?case by simp
next
  case (Cons x xs)
  obtain n where n: "p = fst x" "p \<noteq> NULL" "h p = Some \<lparr>thread_id = snd x, next_node = n\<rparr>" "chain h n xs"
    using Cons.prems(1) by auto
  show ?case
  proof (cases "xs = []")
    case True
    with n Cons.prems show ?thesis
      by (subst last_node.simps) auto
  next
    case False
    then have "n \<noteq> NULL"
      using n(4) by (cases xs) auto
    have "distinct (map fst xs)" "a \<notin> fst ` set xs"
      using Cons.prems by auto
    then obtain l nd where l: "last_node h n = Some (Inr l)" "h l = Some nd" "l \<in> fst ` set xs"
        "chain (h(l \<mapsto> nd\<lparr>next_node := a\<rparr>)) n (xs @ [(a, t)])"
      using Cons.IH [OF n(4) False _ _ Cons.prems(5,6)] by blast
    have "l \<noteq> p"
      using l(3) n(1) Cons.prems(3) by (metis distinct.simps(2) list.map(2) list.set_map)
    with l n \<open>n \<noteq> NULL\<close> show ?thesis
      by (subst last_node.simps) auto
  qed
qed

text \<open>The nodes of the list keep their addresses when an id is pushed; the new node is the last one.\<close>

lemma push_tid_chain:
  assumes xs: "chain (q_heap q) (q_head q) xs" "distinct (map fst xs)" "dom (q_heap q) = set (map fst xs)"
    and fresh: "queue_fresh q a"
  shows "\<exists>q'. push_tid a q t = Some (Inr q') \<and> chain (q_heap q') (q_head q') (xs @ [(a, t)])
    \<and> distinct (map fst (xs @ [(a, t)])) \<and> dom (q_heap q') = set (map fst (xs @ [(a, t)]))"
proof -
  have a: "a \<noteq> NULL" "a \<notin> fst ` set xs"
    using fresh xs(3) by (auto simp: queue_fresh_def)
  let ?h = "(q_heap q)(a \<mapsto> \<lparr>thread_id = t, next_node = NULL\<rparr>)"
  show ?thesis
  proof (cases "xs = []")
    case True
    with xs a show ?thesis
      by (auto simp: push_tid_def)
  next
    case False
    then have "q_head q \<noteq> NULL"
      using xs(1) by (cases xs) auto
    obtain l nd where l: "last_node ?h (q_head q) = Some (Inr l)" "?h l = Some nd" "l \<in> fst ` set xs"
        "chain (?h(l \<mapsto> nd\<lparr>next_node := a\<rparr>)) (q_head q) (xs @ [(a, t)])"
      using chain_snoc [OF chain_frame [OF xs(1) a(2)] False xs(2) a(2,1)] by force
    let ?q = "q\<lparr>q_heap := ?h(l \<mapsto> nd\<lparr>next_node := a\<rparr>)\<rparr>"
    have "push_tid a q t = Some (Inr ?q)"
      using \<open>q_head q \<noteq> NULL\<close> l(1,2) by (simp add: push_tid_def Let_def)
    moreover have "dom (q_heap ?q) = set (map fst (xs @ [(a, t)]))"
      using l(3) xs(3) by auto
    ultimately show ?thesis
      using l(4) xs(2) a(2) by (intro exI [of _ ?q]) simp
  qed
qed

lemma push_tid_holds:
  assumes "queue_holds q ts" "queue_fresh q a"
  shows "\<exists>q'. push_tid a q t = Some (Inr q') \<and> queue_holds q' (ts @ [t])"
proof -
  obtain xs where xs: "chain (q_heap q) (q_head q) xs" "distinct (map fst xs)" "map snd xs = ts"
      "dom (q_heap q) = set (map fst xs)"
    using assms(1) by (auto simp: queue_holds_def)
  from push_tid_chain [OF xs(1,2,4) assms(2), of t] xs(3) show ?thesis
    unfolding queue_holds_def by (metis (no_types, lifting) list.simps(8,9) map_append snd_conv)
qed

lemma rm_tid_holds:
  assumes "queue_holds q ts" shows "\<exists>q'. rm_tid q = Inr q' \<and> queue_holds q' (tl ts)"
proof -
  obtain xs where xs: "chain (q_heap q) (q_head q) xs" "distinct (map fst xs)" "map snd xs = ts"
      "dom (q_heap q) = set (map fst xs)"
    using assms by (auto simp: queue_holds_def)
  show ?thesis
  proof (cases xs)
    case Nil
    with xs assms show ?thesis by (auto simp: rm_tid_def)
  next
    case (Cons x ys)
    then obtain n where "q_heap q (q_head q) = Some \<lparr>thread_id = snd x, next_node = n\<rparr>" "chain (q_heap q) n ys"
        "q_head q = fst x" "q_head q \<noteq> NULL"
      using xs(1) by auto
    with Cons xs show ?thesis
      by (auto simp: rm_tid_def queue_holds_def intro!: exI [of _ ys] chain_frame)
  qed
qed

interpretation tidq: fifo_queue queue_holds queue_fresh push_tid rm_tid get_tid
proof
  show "get_tid q = Inr (if ts = [] then -1 else hd ts)" if "queue_holds q ts" for q ts
    using that by (auto simp: queue_holds_def get_tid_def neq_Nil_conv)
qed (use push_tid_holds rm_tid_holds in blast)+

lemma queue_ids_chain: "chain h p xs \<Longrightarrow> queue_ids h p = Some (Inr (map snd xs))"
  by (induction xs arbitrary: p) (subst queue_ids.simps, auto)+


section \<open>Properties\<close>

text \<open>
  The linked list is a first-in first-out queue: \<open>push_tid\<close> on a queue that holds
  \<open>ts\<close> returns (its loop to the last node ends), follows no invalid pointer and gives a queue that
  holds \<open>ts\<close> with the new id at the end, for every address \<open>malloc\<close> may return.
\<close>

lemma push_tid_fifo:
  assumes "queue_holds q ts" "queue_fresh q a"
  shows "\<exists>q'. push_tid a q t = Some (Inr q') \<and> queue_holds q' (ts @ [t])"
  using assms by (rule tidq.push)

lemma queue_holds_empty: "queue_holds empty_queue []"
  by (simp add: queue_holds_def empty_queue_def)

text \<open>
  Removing \<open>n\<close> entries with \<open>rm_tid\<close> and then reading the head with \<open>get_tid\<close> gives
  the entry that was pushed as number \<open>n\<close>; no step follows a freed or invalid pointer.
\<close>

lemma tids_in_order:
  assumes "queue_holds q ts" "n < length ts"
  shows "bind_c (((\<lambda>r. bind_c r rm_tid) ^^ n) (Inr q)) get_tid = Inr (ts ! n)"
  using assms by (rule tidq.peek_after)

text \<open>
  \<open>print_queue\<close> ends on every well-formed queue and prints the ids from the head to the
  tail in decimal, each followed by a blank, between brackets.
\<close>

lemma print_queue_text:
  assumes "queue_holds q ts"
  shows "print_queue q = Some (Inr (''[ '' @ concat (map (\<lambda>t. print_int t @ '' '') ts) @ '']'' @ [LF]))"
  using assms by (auto simp: queue_holds_def print_queue_def queue_ids_chain)

end
