(* ===== verification/Thread_Pool.thy ===== *)
theory Thread_Pool
  imports Prelude
begin

text \<open>
  The pools of thread slots (\<open>threads.c\<close>): one flag per slot, 0 for free and 1 for taken.  The server
  keeps a pool of \<open>CLIENT_COUNT\<close> slots for connections and each connection one of
  \<open>CLIENT_THREAD_COUNT\<close> slots for commands.  Every function runs under the mutex of the pool and is
  one atomic step.  The locale states the contract of a pool and derives what its clients rely on:
  slots handed out and not given back are pairwise different and there are at most as many as the
  pool has.
\<close>

section \<open>Operations\<close>

definition CLIENT_COUNT :: nat where
  "CLIENT_COUNT = 100"

definition CLIENT_THREAD_COUNT :: nat where
  "CLIENT_THREAD_COUNT = 20"

definition init_avail_flags :: "nat \<Rightarrow> BYTE list" where
  "init_avail_flags n = memset (replicate n 0xA5) 0 n"

text \<open>The search loop: the first index below \<open>n\<close> whose flag is 0.\<close>

function first_free :: "BYTE list \<Rightarrow> nat \<Rightarrow> nat \<Rightarrow> nat option c_result" where
  "first_free flags n i =
     (if i < n then
        if i < length flags then if flags ! i = 0 then Inr (Some i) else first_free flags n (i + 1)
        else Inl Out_Of_Bounds
      else Inr None)"
  by pat_completeness auto
termination
  by (relation "measure (\<lambda>(flags, n, i). n - i)") auto

declare first_free.simps [simp del]

definition get_avail_thread :: "BYTE list \<Rightarrow> nat \<Rightarrow> (int \<times> BYTE list) c_result" where
  "get_avail_thread flags n =
     bind_c (first_free flags n 0) (\<lambda>r. Inr (case r of
       Some i \<Rightarrow> (int i, flags[i := 1])
     | None \<Rightarrow> (-1, flags)))"

definition count_avail_thread :: "BYTE list \<Rightarrow> nat \<Rightarrow> int c_result" where
  "count_avail_thread flags n =
     fold (\<lambda>i r. bind_c r (\<lambda>t. if i < length flags then Inr (if flags ! i = 0 then t + 1 else t)
                               else Inl Out_Of_Bounds)) [0..<n] (Inr 0)"

definition check_avail_thread :: "BYTE list \<Rightarrow> nat \<Rightarrow> int c_result" where
  "check_avail_thread flags n =
     bind_c (first_free flags n 0) (\<lambda>r. Inr (case r of Some i \<Rightarrow> 1 | None \<Rightarrow> -1))"

definition reset_flag :: "BYTE list \<Rightarrow> nat \<Rightarrow> BYTE list c_result" where
  "reset_flag flags i = (if i < length flags then Inr (flags[i := 0]) else Inl Out_Of_Bounds)"

section \<open>The contract of a pool\<close>

locale slot_pool =
  fixes ok :: "'p \<Rightarrow> bool" and busy :: "'p \<Rightarrow> nat set" and slots :: nat
    and acquire :: "'p \<Rightarrow> (int \<times> 'p) c_result" and release :: "'p \<Rightarrow> nat \<Rightarrow> 'p c_result"
  assumes busy_slots: "ok p \<Longrightarrow> busy p \<subseteq> {..<slots}"
    and acquire_free: "ok p \<Longrightarrow> busy p \<noteq> {..<slots} \<Longrightarrow>
      \<exists>i p'. acquire p = Inr (int i, p') \<and> i < slots \<and> i \<notin> busy p \<and> ok p' \<and> busy p' = insert i (busy p)"
    and acquire_full: "ok p \<Longrightarrow> busy p = {..<slots} \<Longrightarrow> acquire p = Inr (-1, p)"
    and release: "ok p \<Longrightarrow> i < slots \<Longrightarrow> \<exists>p'. release p i = Inr p' \<and> ok p' \<and> busy p' = busy p - {i}"
begin

lemma card_busy: "ok p \<Longrightarrow> card (busy p) \<le> slots"
  using card_mono [OF _ busy_slots] by fastforce

lemma acquire_cases:
  assumes "ok p" "acquire p = Inr (v, p')"
  shows "ok p' \<and> (v = -1 \<and> p' = p \<and> busy p = {..<slots}
    \<or> (\<exists>i. v = int i \<and> i < slots \<and> i \<notin> busy p \<and> busy p' = insert i (busy p)))"
  using assms acquire_full acquire_free by (cases "busy p = {..<slots}") force+

lemma acquire_total: "ok p \<Longrightarrow> \<exists>v p'. acquire p = Inr (v, p')"
  using acquire_full acquire_free by (cases "busy p = {..<slots}") blast+

text \<open>A slot that was given back can be had again at once.\<close>

lemma release_acquire:
  assumes "ok p" "i < slots" "release p i = Inr p'" shows "\<exists>j p''. acquire p' = Inr (int j, p'') \<and> j \<notin> busy p - {i}"
proof -
  have "ok p'" "busy p' = busy p - {i}"
    using release [OF assms(1,2)] assms(3) by auto
  moreover have "busy p - {i} \<noteq> {..<slots}"
    using assms(2) by auto
  ultimately show ?thesis
    using acquire_free [of p'] by auto
qed

end

section \<open>The flags meet the contract\<close>

definition pool_ok :: "nat \<Rightarrow> BYTE list \<Rightarrow> bool" where
  "pool_ok n flags \<longleftrightarrow> length flags = n \<and> set flags \<subseteq> {0, 1}"

definition pool_busy :: "BYTE list \<Rightarrow> nat set" where
  "pool_busy flags = {i. i < length flags \<and> flags ! i = 1}"

lemma pool_init: "pool_ok n (init_avail_flags n)" "pool_busy (init_avail_flags n) = {}"
  by (auto simp: pool_ok_def pool_busy_def init_avail_flags_def memset_def)

lemma first_free_from:
  assumes "length flags = n" "i \<le> n"
  shows "(\<exists>k. first_free flags n i = Inr (Some k) \<and> i \<le> k \<and> k < n \<and> flags ! k = 0
           \<and> (\<forall>j. i \<le> j \<and> j < k \<longrightarrow> flags ! j \<noteq> 0))
    \<or> first_free flags n i = Inr None \<and> (\<forall>j. i \<le> j \<and> j < n \<longrightarrow> flags ! j \<noteq> 0)"
  using assms(2)
proof (induction i rule: inc_induct)
  case base
  then show ?case by (auto simp: first_free.simps)
next
  case (step i)
  show ?case
  proof (cases "flags ! i = 0")
    case True
    with step.hyps assms(1) have "first_free flags n i = Inr (Some i)"
      by (simp add: first_free.simps)
    with True step.hyps show ?thesis by auto
  next
    case False
    have eq: "first_free flags n i = first_free flags n (Suc i)"
      using False step.hyps assms(1) by (subst first_free.simps) simp
    have ext: "flags ! j \<noteq> 0" if "\<forall>j. Suc i \<le> j \<and> j < k \<longrightarrow> flags ! j \<noteq> 0" "i \<le> j" "j < k" for k j
      using that False by (cases "j = i") (simp, auto)
    show ?thesis
      using step.IH
    proof (elim disjE exE conjE)
      fix k
      assume "first_free flags n (Suc i) = Inr (Some k)" "Suc i \<le> k" "k < n" "flags ! k = 0"
        and "\<forall>j. Suc i \<le> j \<and> j < k \<longrightarrow> flags ! j \<noteq> 0"
      then show ?thesis
        using ext [of k] eq by (intro disjI1 exI [of _ k] conjI allI impI) (assumption | simp | blast)+
    next
      assume "first_free flags n (Suc i) = Inr None" and "\<forall>j. Suc i \<le> j \<and> j < n \<longrightarrow> flags ! j \<noteq> 0"
      then show ?thesis
        using ext [of n] eq by (intro disjI2 conjI allI impI) (simp | blast)+
    qed
  qed
qed

lemma first_free_cases:
  assumes "length flags = n"
  obtains (free) i where "first_free flags n 0 = Inr (Some i)" "i < n" "flags ! i = 0" "\<forall>j<i. flags ! j \<noteq> 0"
  | (none) "first_free flags n 0 = Inr None" "\<forall>j<n. flags ! j \<noteq> 0"
  using first_free_from [OF assms, of 0] by auto

lemma pool_flag: "pool_ok n flags \<Longrightarrow> i < n \<Longrightarrow> flags ! i = 0 \<or> flags ! i = 1"
  using nth_mem [of i flags] subsetD [of "set flags" "{0, 1}" "flags ! i"] by (simp add: pool_ok_def)

lemma busy_update: "i < length flags \<Longrightarrow> pool_busy (flags[i := 1]) = insert i (pool_busy flags)"
  by (auto simp: pool_busy_def nth_list_update)

lemma free_update: "i < length flags \<Longrightarrow> pool_busy (flags[i := 0]) = pool_busy flags - {i}"
  by (auto simp: pool_busy_def nth_list_update split: if_splits)

lemma pool_ok_update: "pool_ok n flags \<Longrightarrow> v \<in> {0, 1} \<Longrightarrow> pool_ok n (flags[i := v])"
  by (auto simp: pool_ok_def dest!: subsetD [OF set_update_subset_insert])

lemma pool_full_iff: "pool_ok n flags \<Longrightarrow> pool_busy flags = {..<n} \<longleftrightarrow> (\<forall>j<n. flags ! j \<noteq> 0)"
proof -
  assume ok: "pool_ok n flags"
  then have "pool_busy flags = {j. j < n \<and> flags ! j = 1}"
    by (simp add: pool_busy_def pool_ok_def)
  moreover have "flags ! j = 1 \<longleftrightarrow> flags ! j \<noteq> 0" if "j < n" for j
    using pool_flag [OF ok that] by auto
  ultimately show ?thesis by auto
qed

lemma flags_slot_pool:
  "slot_pool (pool_ok n) pool_busy n (\<lambda>flags. get_avail_thread flags n) reset_flag"
proof
  fix flags
  assume ok: "pool_ok n flags"
  then have len: "length flags = n"
    by (simp add: pool_ok_def)
  show "pool_busy flags \<subseteq> {..<n}"
    using len by (auto simp: pool_busy_def)
  show "get_avail_thread flags n = Inr (-1, flags)" if "pool_busy flags = {..<n}"
    using len by (rule first_free_cases) (use that pool_full_iff [OF ok] in \<open>auto simp: get_avail_thread_def\<close>)
  show "\<exists>i p'. get_avail_thread flags n = Inr (int i, p') \<and> i < n \<and> i \<notin> pool_busy flags
      \<and> pool_ok n p' \<and> pool_busy p' = insert i (pool_busy flags)" if "pool_busy flags \<noteq> {..<n}"
    using len
  proof (cases rule: first_free_cases)
    case (free i)
    then have "get_avail_thread flags n = Inr (int i, flags[i := 1])" "i \<notin> pool_busy flags"
      by (simp_all add: get_avail_thread_def pool_busy_def)
    with free(2) show ?thesis
      using ok len by (auto simp: busy_update pool_ok_update)
  qed (use that pool_full_iff [OF ok] in auto)
  show "\<exists>p'. reset_flag flags i = Inr p' \<and> pool_ok n p' \<and> pool_busy p' = pool_busy flags - {i}" if "i < n" for i
    using that ok len by (auto simp: reset_flag_def free_update pool_ok_update)
qed

interpretation cmd_pool: slot_pool "pool_ok CLIENT_THREAD_COUNT" pool_busy CLIENT_THREAD_COUNT
  "\<lambda>flags. get_avail_thread flags CLIENT_THREAD_COUNT" reset_flag
  by (rule flags_slot_pool)

interpretation client_pool: slot_pool "pool_ok CLIENT_COUNT" pool_busy CLIENT_COUNT
  "\<lambda>flags. get_avail_thread flags CLIENT_COUNT" reset_flag
  by (rule flags_slot_pool)

lemma count_avail_fold:
  assumes "length flags = n" "k \<le> n"
  shows "fold (\<lambda>i r. bind_c r (\<lambda>t. if i < length flags then Inr (if flags ! i = 0 then t + 1 else t)
       else Inl Out_Of_Bounds)) [0..<k] (Inr 0) = Inr (int (card {i. i < k \<and> flags ! i = 0}))"
  using assms(2)
proof (induction k)
  case 0
  then show ?case by simp
next
  case (Suc k)
  have "{i. i < Suc k \<and> flags ! i = 0} =
      (if flags ! k = 0 then insert k {i. i < k \<and> flags ! i = 0} else {i. i < k \<and> flags ! i = 0})"
    by (auto simp: less_Suc_eq)
  with Suc show ?case
    by (simp add: assms(1))
qed

section \<open>Properties\<close>

text \<open>
  \<open>get_avail_thread\<close> on a pool whose flags are 0 or 1 stays within the array and
  either returns the first free slot, which it marks and which was free before, or, exactly when
  all slots are taken, returns -1 and changes nothing.
\<close>

lemma get_avail_thread_spec:
  assumes "pool_ok n flags"
  shows "if pool_busy flags = {..<n} then get_avail_thread flags n = Inr (-1, flags)
    else \<exists>i<n. get_avail_thread flags n = Inr (int i, flags[i := 1]) \<and> flags ! i = 0
      \<and> {..<i} \<subseteq> pool_busy flags"
proof -
  have len: "length flags = n"
    using assms by (simp add: pool_ok_def)
  then show ?thesis
  proof (cases rule: first_free_cases)
    case (free i)
    have "flags ! j = 1" if "j < i" for j
      using that free(2,4) pool_flag [OF assms, of j] by auto
    then have "{..<i} \<subseteq> pool_busy flags"
      using free(2) len by (auto simp: pool_busy_def)
    moreover have "pool_busy flags \<noteq> {..<n}"
      using free(2,3) pool_full_iff [OF assms] by metis
    ultimately show ?thesis
      using free(1,2,3) by (auto simp: get_avail_thread_def)
  qed (use pool_full_iff [OF assms] in \<open>auto simp: get_avail_thread_def\<close>)
qed

text \<open>
  \<open>check_avail_thread\<close> returns 1 when a slot is free and -1 otherwise.  It never
  returns 0, the value that \<open>client_handler\<close> compares its result with.
\<close>

lemma check_avail_thread_value:
  assumes "pool_ok n flags"
  shows "check_avail_thread flags n = Inr (if pool_busy flags = {..<n} then -1 else 1)
    \<and> check_avail_thread flags n \<noteq> Inr 0"
proof -
  have "length flags = n"
    using assms by (simp add: pool_ok_def)
  then show ?thesis
    by (rule first_free_cases) (use pool_full_iff [OF assms] in \<open>auto simp: check_avail_thread_def\<close>)
qed

text \<open>
  \<open>count_avail_thread\<close> counts the free slots: together with the taken ones they are
  all slots of the pool.
\<close>

lemma count_avail_thread_complement:
  assumes "pool_ok n flags"
  shows "count_avail_thread flags n = Inr (int (n - card (pool_busy flags)))"
proof -
  have len: "length flags = n"
    using assms by (simp add: pool_ok_def)
  have "{i. i < n \<and> flags ! i = 0} = {..<n} - pool_busy flags"
    using pool_flag [OF assms] len by (auto simp: pool_busy_def)
  moreover have "card ({..<n} - pool_busy flags) = n - card (pool_busy flags)"
    using len by (subst card_Diff_subset) (auto simp: pool_busy_def)
  ultimately show ?thesis
    using count_avail_fold [OF len order_refl] by (simp add: count_avail_thread_def)
qed

end
