(* ===== verification/Client.thy ===== *)
theory Client
  imports Handler Tid_Queue Thread_Pool
begin

text \<open>
  The threads of one connection as interleaved atomic steps: the client thread that takes a slot,
  waits for the slot's previous thread and starts a handler (\<open>client_handler\<close>), the WORK threads
  from start to the end of their cleanup (\<open>work_handler\<close>, \<open>work_handler_cleanup\<close>), the end of
  \<open>handler_wrapper\<close>, and ABRT (\<open>abrt_handler\<close>).  The state has the flags of the slots, the queue of
  thread ids, the semaphore, the pending cancellation requests and the server-wide number of WORK
  commands; ghost fields number the accepted WORKs and record the order of the answers.

  The decrement of the number of WORKs is not protected by a mutex, so it is two steps, a read
  and a write.  Each operation on the flags and on the queue runs under its mutex and is one step.
\<close>

section \<open>State\<close>

text \<open>
  The life of a thread: waiting for the semaphore, searching, waiting for its turn, having sent
  the answer, being cancelled; then the cleanup (reading and writing the number of WORKs, removing
  the id from the queue), where the flag tells whether the handler ended normally; then the rest
  of the wrapper.  \<open>Other\<close> is a thread of any other command.
\<close>

datatype phase =
    Waiting | Searching | Found | Answered | Aborted
  | Decr bool int | Leaving bool | Wrapping | Other

record worker =
  w_phase :: phase
  w_ticket :: nat

text \<open>
  The client thread: between two commands, with a slot whose previous thread it waits for, and
  after the end of the connection: before looking at a slot in \<open>client_handler_cleanup\<close>, waiting for
  the thread of a slot that it cancelled, and with all slots done.
\<close>

datatype client_pc = Ready | Acquired nat | Closing nat | Joining nat | Closed

record client_state =
  cl_pc :: client_pc
  cl_flags :: "BYTE list"
  cl_queue :: "nat list"
  cl_sem :: nat
  cl_threads :: "nat \<rightharpoonup> worker"
  cl_cancel :: "nat set"
  work_count :: int
  next_ticket :: nat
  answered :: "nat list"
  leaked :: nat

definition CONCURRENT_WORK_COUNT :: nat where
  "CONCURRENT_WORK_COUNT = 3"

definition client_init :: client_state where
  "client_init = \<lparr>cl_pc = Ready, cl_flags = init_avail_flags CLIENT_THREAD_COUNT, cl_queue = [],
     cl_sem = CONCURRENT_WORK_COUNT, cl_threads = Map.empty, cl_cancel = {}, work_count = 0,
     next_ticket = 0, answered = [], leaked = 0\<rparr>"

definition set_phase :: "nat \<Rightarrow> phase \<Rightarrow> client_state \<Rightarrow> client_state" where
  "set_phase i p s = s\<lparr>cl_threads := (cl_threads s)
     (i := map_option (\<lambda>w. w\<lparr>w_phase := p\<rparr>) (cl_threads s i))\<rparr>"

definition thread_end :: "nat \<Rightarrow> client_state \<Rightarrow> client_state" where
  "thread_end i s = s\<lparr>cl_threads := (cl_threads s)(i := None), cl_cancel := cl_cancel s - {i}\<rparr>"

definition phase_of :: "client_state \<Rightarrow> nat \<Rightarrow> phase option" where
  "phase_of s i = map_option w_phase (cl_threads s i)"

section \<open>Steps\<close>

definition spawn :: "nat \<Rightarrow> phase \<Rightarrow> client_state \<Rightarrow> client_state" where
  "spawn i p s = s\<lparr>cl_pc := Ready, cl_threads := (cl_threads s)(i \<mapsto> \<lparr>w_phase = p, w_ticket = next_ticket s\<rparr>),
     next_ticket := next_ticket s + 1\<rparr>"

text \<open>
  \<open>pthread_cancel\<close> on the threads of the given slots, one after the other; it has no effect on a
  thread that has ended.
\<close>

definition pthread_cancel :: "nat \<Rightarrow> client_state \<Rightarrow> client_state" where
  "pthread_cancel i s = s\<lparr>cl_cancel := (if cl_threads s i = None then cl_cancel s else insert i (cl_cancel s))\<rparr>"

definition cancel_threads :: "nat list \<Rightarrow> client_state \<Rightarrow> client_state" where
  "cancel_threads is s = fold pthread_cancel is s"

inductive client_step :: "client_state \<Rightarrow> client_state \<Rightarrow> bool" where
  acquire: "cl_pc s = Ready \<Longrightarrow> get_avail_thread (cl_flags s) CLIENT_THREAD_COUNT = Inr (int i, flags) \<Longrightarrow>
    client_step s ((pthread_cancel i s)\<lparr>cl_pc := Acquired i, cl_flags := flags\<rparr>)"
| spawn_work: "cl_pc s = Acquired i \<Longrightarrow> cl_threads s i = None \<Longrightarrow> work_count s < GLOBAL_WORK_LIMIT \<Longrightarrow>
    client_step s ((spawn i Waiting s)\<lparr>cl_queue := cl_queue s @ [i], work_count := work_count s + 1\<rparr>)"
| spawn_other: "cl_pc s = Acquired i \<Longrightarrow> cl_threads s i = None \<Longrightarrow> client_step s (spawn i Other s)"
| start: "phase_of s i = Some Waiting \<Longrightarrow> cl_sem s > 0 \<Longrightarrow>
    client_step s ((set_phase i Searching s)\<lparr>cl_sem := cl_sem s - 1\<rparr>)"
| found: "phase_of s i = Some Searching \<Longrightarrow>
    client_step s ((set_phase i Found s)\<lparr>cl_sem := cl_sem s + 1\<rparr>)"
| answer: "phase_of s i = Some Found \<Longrightarrow> cl_queue s = i # q \<Longrightarrow>
    client_step s ((set_phase i Answered s)\<lparr>answered := answered s @ [w_ticket (the (cl_threads s i))]\<rparr>)"
| cancel: "i \<in> cl_cancel s \<Longrightarrow> phase_of s i = Some p \<Longrightarrow> p \<in> {Waiting, Searching, Found} \<Longrightarrow>
    client_step s ((set_phase i Aborted s)\<lparr>leaked := leaked s + (if p = Searching then 1 else 0)\<rparr>)"
| dec_read: "phase_of s i = Some p \<Longrightarrow> p \<in> {Answered, Aborted} \<Longrightarrow>
    client_step s (set_phase i (Decr (p = Answered) (work_count s)) s)"
| dec_write: "phase_of s i = Some (Decr b v) \<Longrightarrow>
    client_step s ((set_phase i (Leaving b) s)\<lparr>work_count := v - 1\<rparr>)"
| leave: "phase_of s i = Some (Leaving b) \<Longrightarrow> cl_queue s = i # q \<Longrightarrow> reset_flag (cl_flags s) i = Inr flags \<Longrightarrow>
    client_step s ((if b then set_phase i Wrapping s else thread_end i s)\<lparr>cl_queue := q, cl_flags := flags\<rparr>)"
| killed: "i \<in> cl_cancel s \<Longrightarrow> phase_of s i = Some (Leaving True) \<Longrightarrow> client_step s (thread_end i s)"
| wrap: "phase_of s i = Some p \<Longrightarrow> p \<in> {Wrapping, Other} \<Longrightarrow> reset_flag (cl_flags s) i = Inr flags \<Longrightarrow>
    client_step s ((thread_end i s)\<lparr>cl_flags := flags\<rparr>)"
| cancel_other: "i \<in> cl_cancel s \<Longrightarrow> phase_of s i = Some Other \<Longrightarrow> client_step s (thread_end i s)"
| abort: "phase_of s i = Some Other \<Longrightarrow>
    client_step s (cancel_threads (cl_queue s) s)"
| hangup: "cl_pc s = Ready \<Longrightarrow> client_step s (s\<lparr>cl_pc := Closing 0\<rparr>)"
| close_skip: "cl_pc s = Closing i \<Longrightarrow> i < CLIENT_THREAD_COUNT \<Longrightarrow> cl_flags s ! i \<noteq> 1 \<Longrightarrow>
    client_step s (s\<lparr>cl_pc := Closing (Suc i)\<rparr>)"
| close_cancel: "cl_pc s = Closing i \<Longrightarrow> i < CLIENT_THREAD_COUNT \<Longrightarrow> cl_flags s ! i = 1 \<Longrightarrow>
    client_step s ((pthread_cancel i s)\<lparr>cl_pc := Joining i\<rparr>)"
| close_join: "cl_pc s = Joining i \<Longrightarrow> cl_threads s i = None \<Longrightarrow> client_step s (s\<lparr>cl_pc := Closing (Suc i)\<rparr>)"
| close_done: "cl_pc s = Closing CLIENT_THREAD_COUNT \<Longrightarrow> client_step s (s\<lparr>cl_pc := Closed\<rparr>)"

text \<open>The threads that \<open>abrt_handler\<close> cancels: the ids in the linked list, from head to tail.\<close>

definition abrt_handler :: "tid_queue \<Rightarrow> int list c_result option" where
  "abrt_handler q = queue_ids (q_heap q) (q_head q)"

abbreviation client_reach :: "client_state \<Rightarrow> bool" where
  "client_reach s \<equiv> client_step\<^sup>*\<^sup>* client_init s"

text \<open>A run in which no thread was asked to stop.\<close>

abbreviation calm_reach :: "client_state \<Rightarrow> bool" where
  "calm_reach s \<equiv> (\<lambda>s s'. client_step s s' \<and> cl_cancel s' = {})\<^sup>*\<^sup>* client_init s"

declare pthread_cancel_def [simp]

lemma cancel_threads_eq [simp]:
  "cancel_threads is s = s\<lparr>cl_cancel := cl_cancel s \<union> {i \<in> set is. cl_threads s i \<noteq> None}\<rparr>"
  unfolding cancel_threads_def
  by (induction "is" arbitrary: s) (auto intro!: arg_cong [where f = "\<lambda>C. s\<lparr>cl_cancel := C\<rparr>" for s])

lemmas step_ops = set_phase_def thread_end_def spawn_def phase_of_def

section \<open>The semaphore\<close>

definition searching :: "client_state \<Rightarrow> nat set" where
  "searching s = {i. phase_of s i = Some Searching}"

definition sem_inv :: "client_state \<Rightarrow> bool" where
  "sem_inv s \<longleftrightarrow> finite (searching s) \<and> cl_sem s + card (searching s) + leaked s = CONCURRENT_WORK_COUNT"

lemma searching_simps [simp]:
  "searching (set_phase i p s) =
     (if cl_threads s i \<noteq> None \<and> p = Searching then insert i (searching s) else searching s - {i})"
  "searching (thread_end i s) = searching s - {i}"
  "p \<noteq> Searching \<Longrightarrow> searching (spawn i p s) = searching s - {i}"
  by (auto simp: searching_def step_ops)

lemma searching_fields [simp]:
  "searching (s\<lparr>cl_pc := a\<rparr>) = searching s" "searching (s\<lparr>cl_flags := b\<rparr>) = searching s"
  "searching (s\<lparr>cl_queue := c\<rparr>) = searching s" "searching (s\<lparr>cl_sem := d\<rparr>) = searching s"
  "searching (s\<lparr>cl_cancel := e\<rparr>) = searching s" "searching (s\<lparr>work_count := f\<rparr>) = searching s"
  "searching (s\<lparr>answered := g\<rparr>) = searching s" "searching (s\<lparr>leaked := h\<rparr>) = searching s"
  by (simp_all add: searching_def phase_of_def)


lemma in_searching: "i \<in> searching s \<longleftrightarrow> phase_of s i = Some Searching"
  by (simp add: searching_def)

lemma phase_thread: "phase_of s i = Some p \<Longrightarrow> cl_threads s i \<noteq> None"
  by (auto simp: phase_of_def)

lemma set_phase_fields [simp]:
  "cl_sem (set_phase i p s) = cl_sem s" "leaked (set_phase i p s) = leaked s"
  "cl_sem (thread_end i s) = cl_sem s" "leaked (thread_end i s) = leaked s"
  "cl_sem (spawn i p s) = cl_sem s" "leaked (spawn i p s) = leaked s"
  "work_count (set_phase i p s) = work_count s" "work_count (thread_end i s) = work_count s"
  "work_count (spawn i p s) = work_count s"
  by (simp_all add: step_ops)

lemma phase_None: "cl_threads s i = None \<Longrightarrow> phase_of s i = None"
  by (simp add: phase_of_def)

lemma sem_inv_same:
  "sem_inv s \<Longrightarrow> cl_sem s' = cl_sem s \<Longrightarrow> leaked s' = leaked s \<Longrightarrow> searching s' = searching s \<Longrightarrow> sem_inv s'"
  by (simp add: sem_inv_def)

lemma not_searching: "phase_of s i \<noteq> Some Searching \<Longrightarrow> searching s - {i} = searching s"
  by (auto simp: searching_def)

lemma sem_inv_step:
  assumes "client_step s s'" "sem_inv s" shows "sem_inv s'"
  using assms
proof cases
  case (start i)
  then show ?thesis
    using assms(2) phase_thread [OF start(2)] by (auto simp: sem_inv_def in_searching)
next
  case (found i)
  then have "i \<in> searching s" "card (searching s) > 0"
    using assms(2) by (auto simp: in_searching sem_inv_def card_gt_0_iff)
  then show ?thesis
    using assms(2) found by (auto simp: sem_inv_def)
next
  case (cancel i p)
  show ?thesis
  proof (cases "p = Searching")
    case True
    then have "i \<in> searching s" "card (searching s) > 0"
      using assms(2) cancel by (auto simp: in_searching sem_inv_def card_gt_0_iff)
    then show ?thesis
      using assms(2) cancel True by (auto simp: sem_inv_def)
  qed (use assms(2) cancel in \<open>auto simp: sem_inv_def not_searching\<close>)
qed (rule sem_inv_same [OF assms(2)]; auto simp: not_searching in_searching phase_None)+

lemma sem_inv_init: "sem_inv client_init"
  by (simp add: sem_inv_def client_init_def searching_def phase_of_def)

interpretation permits: step_invariant client_step client_init sem_inv
  by unfold_locales (rule sem_inv_init, rule sem_inv_step)


section \<open>The order of the answers\<close>

definition ticket :: "client_state \<Rightarrow> nat \<Rightarrow> nat" where
  "ticket s i = w_ticket (the (cl_threads s i))"

fun queued :: "phase \<Rightarrow> bool" where
  "queued Wrapping = False"
| "queued Other = False"
| "queued _ = True"

fun sent :: "phase \<Rightarrow> bool" where
  "sent Answered = True"
| "sent (Decr b v) = b"
| "sent (Leaving b) = b"
| "sent _ = False"

fun orderly :: "phase \<Rightarrow> bool" where
  "orderly Aborted = False"
| "orderly (Decr b v) = b"
| "orderly (Leaving b) = b"
| "orderly _ = True"

text \<open>
  While no thread is asked to stop: the queue holds exactly the ids of the WORK threads that have
  not removed themselves, in the order of acceptance, and an answer precedes all answers that are
  still to come.
\<close>

definition order_inv :: "client_state \<Rightarrow> bool" where
  "order_inv s \<longleftrightarrow>
     cl_cancel s = {}
     \<and> (\<forall>i. i \<in> set (cl_queue s) \<longleftrightarrow> (\<exists>p. phase_of s i = Some p \<and> queued p))
     \<and> (\<forall>i p. phase_of s i = Some p \<longrightarrow> orderly p)
     \<and> sorted_wrt (<) (map (ticket s) (cl_queue s))
     \<and> (\<forall>i \<in> set (cl_queue s). ticket s i < next_ticket s)
     \<and> sorted_wrt (<) (answered s)
     \<and> (\<forall>t \<in> set (answered s). t < next_ticket s)
     \<and> (\<forall>t \<in> set (answered s). \<forall>i \<in> set (cl_queue s). t < ticket s i \<or> t = ticket s i \<and> sent (the (phase_of s i)))"

lemma ticket_set_phase [simp]: "ticket (set_phase i p s) = ticket s"
  by (rule ext) (auto simp: ticket_def set_phase_def map_option_case split: option.split)

lemma phase_of_set_phase: "phase_of (set_phase i p s) j = (if j = i then map_option (\<lambda>_. p) (phase_of s i) else phase_of s j)"
  by (auto simp: phase_of_def set_phase_def option.map_comp comp_def)

lemma phase_of_thread_end: "phase_of (thread_end i s) j = (if j = i then None else phase_of s j)"
  by (simp add: phase_of_def thread_end_def)

lemma phase_of_spawn: "phase_of (spawn i p s) j = (if j = i then Some p else phase_of s j)"
  by (simp add: phase_of_def spawn_def)

lemma ticket_spawn: "ticket (spawn i p s) j = (if j = i then next_ticket s else ticket s j)"
  by (simp add: ticket_def spawn_def)

lemma ticket_thread_end: "j \<noteq> i \<Longrightarrow> ticket (thread_end i s) j = ticket s j"
  by (simp add: ticket_def thread_end_def)

lemma more_fields [simp]:
  "phase_of (s\<lparr>cl_pc := a\<rparr>) = phase_of s" "phase_of (s\<lparr>cl_flags := b\<rparr>) = phase_of s"
  "phase_of (s\<lparr>cl_queue := c\<rparr>) = phase_of s" "phase_of (s\<lparr>cl_sem := d\<rparr>) = phase_of s"
  "phase_of (s\<lparr>cl_cancel := e\<rparr>) = phase_of s" "phase_of (s\<lparr>work_count := f\<rparr>) = phase_of s"
  "phase_of (s\<lparr>answered := g\<rparr>) = phase_of s" "phase_of (s\<lparr>leaked := h\<rparr>) = phase_of s"
  "ticket (s\<lparr>cl_pc := a\<rparr>) = ticket s" "ticket (s\<lparr>cl_flags := b\<rparr>) = ticket s"
  "ticket (s\<lparr>cl_queue := c\<rparr>) = ticket s" "ticket (s\<lparr>cl_sem := d\<rparr>) = ticket s"
  "ticket (s\<lparr>cl_cancel := e\<rparr>) = ticket s" "ticket (s\<lparr>work_count := f\<rparr>) = ticket s"
  "ticket (s\<lparr>answered := g\<rparr>) = ticket s" "ticket (s\<lparr>leaked := h\<rparr>) = ticket s"
  by (rule ext, simp add: phase_of_def ticket_def)+

lemma op_fields [simp]:
  "cl_queue (set_phase i p s) = cl_queue s" "cl_cancel (set_phase i p s) = cl_cancel s"
  "answered (set_phase i p s) = answered s" "next_ticket (set_phase i p s) = next_ticket s"
  "cl_queue (thread_end i s) = cl_queue s" "cl_cancel (thread_end i s) = cl_cancel s - {i}"
  "answered (thread_end i s) = answered s" "next_ticket (thread_end i s) = next_ticket s"
  "cl_queue (spawn i p s) = cl_queue s" "cl_cancel (spawn i p s) = cl_cancel s"
  "answered (spawn i p s) = answered s" "next_ticket (spawn i p s) = Suc (next_ticket s)"
  by (simp_all add: step_ops)

text \<open>A step that only moves one thread to a later phase.\<close>

lemma order_invD:
  assumes "order_inv s"
  shows "cl_cancel s = {}" "i \<in> set (cl_queue s) \<longleftrightarrow> (\<exists>p. phase_of s i = Some p \<and> queued p)"
    "phase_of s i = Some p \<Longrightarrow> orderly p" "sorted_wrt (<) (map (ticket s) (cl_queue s))"
    "i \<in> set (cl_queue s) \<Longrightarrow> ticket s i < next_ticket s" "sorted_wrt (<) (answered s)"
    "t \<in> set (answered s) \<Longrightarrow> t < next_ticket s"
    "t \<in> set (answered s) \<Longrightarrow> i \<in> set (cl_queue s) \<Longrightarrow>
      t < ticket s i \<or> t = ticket s i \<and> sent (the (phase_of s i))"
  using assms unfolding order_inv_def by blast+

lemma order_invI:
  assumes "cl_cancel s = {}" "\<And>i. i \<in> set (cl_queue s) \<longleftrightarrow> (\<exists>p. phase_of s i = Some p \<and> queued p)"
    "\<And>i p. phase_of s i = Some p \<Longrightarrow> orderly p" "sorted_wrt (<) (map (ticket s) (cl_queue s))"
    "\<And>i. i \<in> set (cl_queue s) \<Longrightarrow> ticket s i < next_ticket s" "sorted_wrt (<) (answered s)"
    "\<And>t. t \<in> set (answered s) \<Longrightarrow> t < next_ticket s"
    "\<And>t i. t \<in> set (answered s) \<Longrightarrow> i \<in> set (cl_queue s) \<Longrightarrow>
      t < ticket s i \<or> t = ticket s i \<and> sent (the (phase_of s i))"
  shows "order_inv s"
  using assms unfolding order_inv_def by blast

lemma order_inv_phase:
  assumes inv: "order_inv s" and p: "phase_of s i = Some p" "queued p" "queued p'" "orderly p'" "sent p \<Longrightarrow> sent p'"
  shows "order_inv (set_phase i p' s)"
proof (rule order_invI)
  fix t j
  assume "t \<in> set (answered (set_phase i p' s))" "j \<in> set (cl_queue (set_phase i p' s))"
  then show "t < ticket (set_phase i p' s) j
      \<or> t = ticket (set_phase i p' s) j \<and> sent (the (phase_of (set_phase i p' s) j))"
    using order_invD(8) [OF inv, of t j] p by (auto simp: phase_of_set_phase)
qed (use order_invD [OF inv] p in \<open>auto simp: phase_of_set_phase split: if_splits\<close>)

lemma order_inv_spawn_work:
  assumes inv: "order_inv s" and i: "cl_threads s i = None"
  shows "order_inv ((spawn i Waiting s)\<lparr>cl_queue := cl_queue s @ [i], work_count := c\<rparr>)"
proof (rule order_invI)
  let ?s = "(spawn i Waiting s)\<lparr>cl_queue := cl_queue s @ [i], work_count := c\<rparr>"
  have ni: "i \<notin> set (cl_queue s)"
    using order_invD(2) [OF inv, of i] phase_None [OF i] by simp
  have old: "ticket ?s j = ticket s j" if "j \<in> set (cl_queue s)" for j
    using that ni by (auto simp: ticket_spawn)
  show "cl_cancel ?s = {}" "sorted_wrt (<) (answered ?s)"
    using order_invD(1,6) [OF inv] by simp_all
  show "j \<in> set (cl_queue ?s) \<longleftrightarrow> (\<exists>p. phase_of ?s j = Some p \<and> queued p)" for j
    using order_invD(2) [OF inv, of j] ni by (auto simp: phase_of_spawn)
  show "phase_of ?s j = Some p \<Longrightarrow> orderly p" for j p
    using order_invD(3) [OF inv, of j p] by (auto simp: phase_of_spawn split: if_splits)
  have eq: "map (ticket (spawn i Waiting s)) (cl_queue s) = map (ticket s) (cl_queue s)"
    using old by simp
  show "sorted_wrt (<) (map (ticket ?s) (cl_queue ?s))"
    using order_invD(4,5) [OF inv] by (simp add: sorted_wrt_append ticket_spawn eq)
  show "j \<in> set (cl_queue ?s) \<Longrightarrow> ticket ?s j < next_ticket ?s" for j
    using order_invD(5) [OF inv, of j] by (auto simp: ticket_spawn)
  show "t \<in> set (answered ?s) \<Longrightarrow> t < next_ticket ?s" for t
    using order_invD(7) [OF inv, of t] by auto
  show "t < ticket ?s j \<or> t = ticket ?s j \<and> sent (the (phase_of ?s j))"
    if "t \<in> set (answered ?s)" "j \<in> set (cl_queue ?s)" for t j
    using that order_invD(7,8) [OF inv, of t] by (auto simp: ticket_spawn phase_of_spawn)
qed

lemma order_inv_spawn_other:
  assumes inv: "order_inv s" and i: "cl_threads s i = None" shows "order_inv (spawn i Other s)"
proof (rule order_invI)
  have ni: "i \<notin> set (cl_queue s)"
    using order_invD(2) [OF inv, of i] phase_None [OF i] by simp
  then have eq: "map (ticket (spawn i Other s)) (cl_queue s) = map (ticket s) (cl_queue s)"
    by (auto simp: ticket_spawn)
  show "sorted_wrt (<) (map (ticket (spawn i Other s)) (cl_queue (spawn i Other s)))"
    using order_invD(4) [OF inv] by (simp add: eq)
  show "t < ticket (spawn i Other s) j \<or> t = ticket (spawn i Other s) j \<and> sent (the (phase_of (spawn i Other s) j))"
    if "t \<in> set (answered (spawn i Other s))" "j \<in> set (cl_queue (spawn i Other s))" for t j
    using that order_invD(8) [OF inv, of t j] ni by (auto simp: ticket_spawn phase_of_spawn)
  show "j \<in> set (cl_queue (spawn i Other s)) \<longleftrightarrow> (\<exists>p. phase_of (spawn i Other s) j = Some p \<and> queued p)" for j
    using order_invD(2) [OF inv, of j] ni by (auto simp: phase_of_spawn)
  show "j \<in> set (cl_queue (spawn i Other s)) \<Longrightarrow> ticket (spawn i Other s) j < next_ticket (spawn i Other s)" for j
    using order_invD(5) [OF inv, of j] ni by (auto simp: ticket_spawn)
  show "phase_of (spawn i Other s) j = Some p \<Longrightarrow> orderly p" for j p
    using order_invD(3) [OF inv, of j p] by (auto simp: phase_of_spawn split: if_splits)
  show "t \<in> set (answered (spawn i Other s)) \<Longrightarrow> t < next_ticket (spawn i Other s)" for t
    using order_invD(7) [OF inv, of t] by auto
qed (use order_invD(1,6) [OF inv] in simp_all)

lemma order_inv_answer:
  assumes inv: "order_inv s" and i: "phase_of s i = Some Found" "cl_queue s = i # q"
  shows "order_inv ((set_phase i Answered s)\<lparr>answered := answered s @ [ticket s i]\<rparr>)"
proof (rule order_invI)
  let ?s = "(set_phase i Answered s)\<lparr>answered := answered s @ [ticket s i]\<rparr>"
  have before: "t < ticket s i" if "t \<in> set (answered s)" for t
    using order_invD(8) [OF inv that, of i] i by auto
  have later: "ticket s i < ticket s j" if "j \<in> set q" for j
    using order_invD(4) [OF inv] that by (simp add: i(2))
  show "sorted_wrt (<) (answered ?s)"
    using order_invD(6) [OF inv] before by (simp add: sorted_wrt_append)
  show "t < ticket ?s j \<or> t = ticket ?s j \<and> sent (the (phase_of ?s j))"
    if t: "t \<in> set (answered ?s)" and j: "j \<in> set (cl_queue ?s)" for t j
  proof (cases "j = i")
    case True
    with t before [of t] i(1) show ?thesis by (auto simp: phase_of_set_phase)
  next
    case False
    with j have "j \<in> set q" by (simp add: i(2))
    with t before [of t] later [of j] show ?thesis by auto
  qed
  show "t \<in> set (answered ?s) \<Longrightarrow> t < next_ticket ?s" for t
    using order_invD(7) [OF inv, of t] order_invD(5) [OF inv, of i] i(2) by auto
qed (use order_invD [OF inv] i in \<open>auto simp: phase_of_set_phase split: if_splits\<close>)

lemma order_inv_leave:
  assumes inv: "order_inv s" and i: "phase_of s i = Some (Leaving True)" "cl_queue s = i # q"
  shows "order_inv ((set_phase i Wrapping s)\<lparr>cl_queue := q, cl_flags := flags\<rparr>)"
proof (rule order_invI)
  let ?s = "(set_phase i Wrapping s)\<lparr>cl_queue := q, cl_flags := flags\<rparr>"
  have ni: "i \<notin> set q"
    using order_invD(4) [OF inv] by (auto simp: i(2))
  show "j \<in> set (cl_queue ?s) \<longleftrightarrow> (\<exists>p. phase_of ?s j = Some p \<and> queued p)" for j
    using order_invD(2) [OF inv, of j] ni i by (auto simp: phase_of_set_phase)
  show "t < ticket ?s j \<or> t = ticket ?s j \<and> sent (the (phase_of ?s j))"
    if "t \<in> set (answered ?s)" "j \<in> set (cl_queue ?s)" for t j
    using that order_invD(8) [OF inv, of t j] ni by (auto simp: phase_of_set_phase i(2))
  show "j \<in> set (cl_queue ?s) \<Longrightarrow> ticket ?s j < next_ticket ?s" for j
    using order_invD(5) [OF inv, of j] by (simp add: i(2))
qed (use order_invD [OF inv] i in \<open>auto simp: phase_of_set_phase split: if_splits\<close>)

lemma order_inv_end:
  assumes inv: "order_inv s" and i: "phase_of s i = Some p" "\<not> queued p" shows "order_inv (thread_end i s)"
proof (rule order_invI)
  have ni: "i \<notin> set (cl_queue s)"
    using order_invD(2) [OF inv, of i] i by auto
  have eq: "map (ticket (thread_end i s)) (cl_queue s) = map (ticket s) (cl_queue s)"
    using ni by (auto intro!: ticket_thread_end)
  show "sorted_wrt (<) (map (ticket (thread_end i s)) (cl_queue (thread_end i s)))"
    using order_invD(4) [OF inv] by (simp add: eq)
  show "j \<in> set (cl_queue (thread_end i s)) \<longleftrightarrow> (\<exists>p. phase_of (thread_end i s) j = Some p \<and> queued p)" for j
    using order_invD(2) [OF inv, of j] ni by (auto simp: phase_of_thread_end)
  show "t < ticket (thread_end i s) j \<or> t = ticket (thread_end i s) j \<and> sent (the (phase_of (thread_end i s) j))"
    if "t \<in> set (answered (thread_end i s))" "j \<in> set (cl_queue (thread_end i s))" for t j
    using that order_invD(8) [OF inv, of t j] ni by (auto simp: phase_of_thread_end ticket_thread_end)
  show "j \<in> set (cl_queue (thread_end i s)) \<Longrightarrow> ticket (thread_end i s) j < next_ticket (thread_end i s)" for j
    using order_invD(5) [OF inv, of j] ni by (cases "j = i") (auto simp: ticket_thread_end)
  show "phase_of (thread_end i s) j = Some r \<Longrightarrow> orderly r" for j r
    using order_invD(3) [OF inv, of j r] by (auto simp: phase_of_thread_end split: if_splits)
qed (use order_invD(1,6,7) [OF inv] in auto)

lemma order_inv_fields:
  "order_inv (s\<lparr>cl_sem := d\<rparr>) = order_inv s" "order_inv (s\<lparr>work_count := f\<rparr>) = order_inv s"
  "order_inv (s\<lparr>cl_pc := a\<rparr>) = order_inv s" "order_inv (s\<lparr>cl_flags := b\<rparr>) = order_inv s"
  "order_inv (s\<lparr>leaked := h\<rparr>) = order_inv s"
  by (simp_all add: order_inv_def)


lemma order_inv_step:
  assumes "client_step s s'" "cl_cancel s' = {}" "order_inv s" shows "order_inv s'"
  using assms(1)
proof cases
  case (acquire i flags)
  then have "cl_threads s i = None"
    using assms(2) by (auto split: if_splits)
  with acquire assms(3) show ?thesis
    by (simp add: order_inv_def)
next
  case (close_cancel i)
  then have "cl_threads s i = None"
    using assms(2) by (auto split: if_splits)
  with close_cancel assms(3) show ?thesis
    by (simp add: order_inv_def)
next
  case (answer i q)
  with order_inv_answer [OF assms(3)] show ?thesis
    by (simp add: ticket_def)
next
  case (leave i b q flags)
  moreover have b
    using order_invD(3) [OF assms(3) leave(2)] by simp
  ultimately show ?thesis
    using order_inv_leave [OF assms(3), of i q flags] by simp
next
  case (dec_read i p)
  moreover have "p = Answered"
    using order_invD(3) [OF assms(3) dec_read(2)] dec_read(3) by auto
  ultimately show ?thesis
    using order_inv_phase [OF assms(3), of i p "Decr True (work_count s)"] by simp
next
  case (dec_write i b v)
  moreover have b
    using order_invD(3) [OF assms(3) dec_write(2)] by simp
  ultimately show ?thesis
    using order_inv_phase [OF assms(3), of i "Decr b v" "Leaving b"] by (simp add: order_inv_fields)
next
  case (wrap i p flags)
  then show ?thesis
    using order_inv_end [OF assms(3), of i p] by (auto simp: order_inv_fields)
next
  case (spawn_work i)
  then show ?thesis
    using order_inv_spawn_work [OF assms(3)] by simp
next
  case (abort i)
  then have "s' = s"
    using assms(2) order_invD(1) [OF assms(3)] by simp
  with assms(3) show ?thesis by simp
qed (use assms(3) order_invD(1) [OF assms(3)] in
    \<open>auto simp: order_inv_fields order_inv_spawn_work order_inv_spawn_other intro: order_inv_phase\<close>)

lemma order_inv_init: "order_inv client_init"
  by (simp add: order_inv_def client_init_def phase_of_def)

interpretation turns: step_invariant "\<lambda>s s'. client_step s s' \<and> cl_cancel s' = {}" client_init order_inv
  by unfold_locales (auto intro: order_inv_init order_inv_step)


section \<open>The number of WORK commands\<close>

definition count_inv :: "client_state \<Rightarrow> bool" where
  "count_inv s \<longleftrightarrow> work_count s \<le> GLOBAL_WORK_LIMIT
     \<and> (\<forall>i b v. phase_of s i = Some (Decr b v) \<longrightarrow> v \<le> GLOBAL_WORK_LIMIT)"

lemma count_inv_step:
  assumes "client_step s s'" "count_inv s" shows "count_inv s'"
  using assms(1)
proof cases
  case (dec_write i b v)
  then have "v \<le> GLOBAL_WORK_LIMIT"
    using assms(2) unfolding count_inv_def by blast
  then have "v - 1 \<le> GLOBAL_WORK_LIMIT"
    by simp
  with dec_write assms(2) show ?thesis
    by (auto simp: count_inv_def phase_of_set_phase split: if_splits)
qed (use assms(2) in
    \<open>auto simp: count_inv_def phase_of_set_phase phase_of_thread_end phase_of_spawn split: if_splits\<close>)

lemma count_inv_init: "count_inv client_init"
  by (simp add: count_inv_def client_init_def GLOBAL_WORK_LIMIT_def phase_of_def)

interpretation works: step_invariant client_step client_init count_inv
  by unfold_locales (rule count_inv_init, rule count_inv_step)

section \<open>Executing a schedule\<close>

text \<open>The steps as a function of a label, to run a given schedule.\<close>

datatype label =
    Acquire nat | Spawn_Work | Spawn_Other | Start nat | Find nat | Answer nat | Cancel nat
  | Dec_Read nat | Dec_Write nat | Leave nat | Kill nat | Wrap nat | Cancel_Other nat | Abort nat
  | Hangup | Shut

fun do_step :: "label \<Rightarrow> client_state \<Rightarrow> client_state option" where
  "do_step (Acquire i) s =
     (case get_avail_thread (cl_flags s) CLIENT_THREAD_COUNT of
        Inl e \<Rightarrow> None
      | Inr (v, flags) \<Rightarrow>
          if cl_pc s = Ready \<and> v = int i then Some ((pthread_cancel i s)\<lparr>cl_pc := Acquired i, cl_flags := flags\<rparr>)
          else None)"
| "do_step Spawn_Work s =
     (case cl_pc s of
        Acquired i \<Rightarrow>
          if cl_threads s i = None \<and> work_count s < GLOBAL_WORK_LIMIT
          then Some ((spawn i Waiting s)\<lparr>cl_queue := cl_queue s @ [i], work_count := work_count s + 1\<rparr>)
          else None
      | _ \<Rightarrow> None)"
| "do_step Spawn_Other s =
     (case cl_pc s of
        Acquired i \<Rightarrow> if cl_threads s i = None then Some (spawn i Other s) else None
      | _ \<Rightarrow> None)"
| "do_step (Start i) s =
     (if phase_of s i = Some Waiting \<and> cl_sem s > 0
      then Some ((set_phase i Searching s)\<lparr>cl_sem := cl_sem s - 1\<rparr>) else None)"
| "do_step (Find i) s =
     (if phase_of s i = Some Searching then Some ((set_phase i Found s)\<lparr>cl_sem := cl_sem s + 1\<rparr>) else None)"
| "do_step (Answer i) s =
     (if phase_of s i = Some Found \<and> cl_queue s \<noteq> [] \<and> hd (cl_queue s) = i
      then Some ((set_phase i Answered s)\<lparr>answered := answered s @ [w_ticket (the (cl_threads s i))]\<rparr>) else None)"
| "do_step (Cancel i) s =
     (case phase_of s i of
        None \<Rightarrow> None
      | Some p \<Rightarrow>
          if i \<in> cl_cancel s \<and> p \<in> {Waiting, Searching, Found}
          then Some ((set_phase i Aborted s)\<lparr>leaked := leaked s + (if p = Searching then 1 else 0)\<rparr>) else None)"
| "do_step (Dec_Read i) s =
     (case phase_of s i of
        None \<Rightarrow> None
      | Some p \<Rightarrow>
          if p \<in> {Answered, Aborted} then Some (set_phase i (Decr (p = Answered) (work_count s)) s) else None)"
| "do_step (Dec_Write i) s =
     (case phase_of s i of
        Some (Decr b v) \<Rightarrow> Some ((set_phase i (Leaving b) s)\<lparr>work_count := v - 1\<rparr>)
      | _ \<Rightarrow> None)"
| "do_step (Leave i) s =
     (case phase_of s i of
        Some (Leaving b) \<Rightarrow>
          (case cl_queue s of
             [] \<Rightarrow> None
           | j # q \<Rightarrow> (case reset_flag (cl_flags s) i of
               Inl e \<Rightarrow> None
             | Inr flags \<Rightarrow>
                 if j = i then Some ((if b then set_phase i Wrapping s else thread_end i s)\<lparr>cl_queue := q, cl_flags := flags\<rparr>)
                 else None))
      | _ \<Rightarrow> None)"
| "do_step (Kill i) s =
     (if i \<in> cl_cancel s \<and> phase_of s i = Some (Leaving True) then Some (thread_end i s) else None)"
| "do_step (Wrap i) s =
     (case phase_of s i of
        None \<Rightarrow> None
      | Some p \<Rightarrow> (case reset_flag (cl_flags s) i of
          Inl e \<Rightarrow> None
        | Inr flags \<Rightarrow> if p \<in> {Wrapping, Other} then Some ((thread_end i s)\<lparr>cl_flags := flags\<rparr>) else None))"
| "do_step (Cancel_Other i) s =
     (if i \<in> cl_cancel s \<and> phase_of s i = Some Other then Some (thread_end i s) else None)"
| "do_step (Abort i) s =
     (if phase_of s i = Some Other then Some (cancel_threads (cl_queue s) s) else None)"
| "do_step Hangup s = (if cl_pc s = Ready then Some (s\<lparr>cl_pc := Closing 0\<rparr>) else None)"
| "do_step Shut s =
     (case cl_pc s of
        Closing i \<Rightarrow>
          if i < CLIENT_THREAD_COUNT then
            if cl_flags s ! i = 1 then Some ((pthread_cancel i s)\<lparr>cl_pc := Joining i\<rparr>)
            else Some (s\<lparr>cl_pc := Closing (Suc i)\<rparr>)
          else if i = CLIENT_THREAD_COUNT then Some (s\<lparr>cl_pc := Closed\<rparr>) else None
      | Joining i \<Rightarrow> if cl_threads s i = None then Some (s\<lparr>cl_pc := Closing (Suc i)\<rparr>) else None
      | _ \<Rightarrow> None)"

lemma do_step_sound:
  assumes "do_step l s = Some s'" shows "client_step s s'"
proof (cases l)
  case (Acquire i)
  with assms client_step.acquire [of s i] show ?thesis
    by (auto split: sum.splits prod.splits if_splits)
next
  case (Start i)
  with assms client_step.start [of s i] show ?thesis
    by (auto split: if_splits)
next
  case (Find i)
  with assms client_step.found [of s i] show ?thesis
    by (auto split: if_splits)
next
  case (Cancel i)
  with assms client_step.cancel [of i s] show ?thesis
    by (auto split: option.splits if_splits)
next
  case Shut
  with assms client_step.close_cancel [of s] show ?thesis
    by (auto split: client_pc.splits if_splits intro: client_step.intros)
next
  case (Leave i)
  with assms client_step.leave [of s i] show ?thesis
    by (auto split: option.splits list.splits sum.splits phase.splits if_splits)
next
  case (Abort i)
  with assms client_step.abort [of s i] show ?thesis
    by (auto split: if_splits)
qed (use assms in \<open>auto simp: neq_Nil_conv split: option.splits if_splits sum.splits list.splits
      client_pc.splits phase.splits intro: client_step.intros\<close>)

lemma do_step_complete: "client_step s s' \<Longrightarrow> \<exists>l. do_step l s = Some s'"
proof (induction rule: client_step.cases)
  case (acquire s i flags)
  then show ?case by (intro exI [of _ "Acquire i"]) simp
next
  case (spawn_work s i)
  then show ?case by (intro exI [of _ Spawn_Work]) simp
next
  case (spawn_other s i)
  then show ?case by (intro exI [of _ Spawn_Other]) simp
next
  case (start s i)
  then show ?case by (intro exI [of _ "Start i"]) simp
next
  case (found s i)
  then show ?case by (intro exI [of _ "Find i"]) simp
next
  case (answer s i q)
  then show ?case by (intro exI [of _ "Answer i"]) simp
next
  case (cancel i s p)
  then show ?case by (intro exI [of _ "Cancel i"]) simp
next
  case (dec_read s i p)
  then show ?case by (intro exI [of _ "Dec_Read i"]) simp
next
  case (dec_write s i b v)
  then show ?case by (intro exI [of _ "Dec_Write i"]) simp
next
  case (leave s i b q flags)
  then show ?case by (intro exI [of _ "Leave i"]) simp
next
  case (killed i s)
  then show ?case by (intro exI [of _ "Kill i"]) simp
next
  case (wrap s i p flags)
  then show ?case by (intro exI [of _ "Wrap i"]) simp
next
  case (cancel_other i s)
  then show ?case by (intro exI [of _ "Cancel_Other i"]) simp
next
  case (abort s i)
  then show ?case by (intro exI [of _ "Abort i"]) simp
next
  case (hangup s)
  then show ?case by (intro exI [of _ Hangup]) simp
next
  case (close_skip s i)
  then show ?case by (intro exI [of _ Shut]) simp
next
  case (close_cancel s i)
  then show ?case by (intro exI [of _ Shut]) simp
next
  case (close_join s i)
  then show ?case by (intro exI [of _ Shut]) simp
next
  case (close_done s)
  then show ?case by (intro exI [of _ Shut]) simp
qed

fun run_schedule :: "label list \<Rightarrow> client_state \<Rightarrow> client_state option" where
  "run_schedule [] s = Some s"
| "run_schedule (l # ls) s = (case do_step l s of None \<Rightarrow> None | Some s' \<Rightarrow> run_schedule ls s')"

lemma run_schedule_reach: "run_schedule ls s = Some s' \<Longrightarrow> client_step\<^sup>*\<^sup>* s s'"
  by (induction ls arbitrary: s) (auto split: option.splits intro: converse_rtranclp_into_rtranclp do_step_sound)


text \<open>The same for runs in which no thread is asked to stop.\<close>

fun run_calm :: "label list \<Rightarrow> client_state \<Rightarrow> client_state option" where
  "run_calm [] s = Some s"
| "run_calm (l # ls) s =
     (case do_step l s of None \<Rightarrow> None | Some s' \<Rightarrow> if cl_cancel s' = {} then run_calm ls s' else None)"

lemma run_calm_reach:
  "run_calm ls s = Some s' \<Longrightarrow> (\<lambda>s s'. client_step s s' \<and> cl_cancel s' = {})\<^sup>*\<^sup>* s s'"
  by (induction ls arbitrary: s)
    (auto split: option.splits if_splits intro: converse_rtranclp_into_rtranclp do_step_sound)

section \<open>Slots\<close>

text \<open>The slots stay within the pool; this rests on the contract of the pool.\<close>

fun pc_ok :: "client_pc \<Rightarrow> bool" where
  "pc_ok (Acquired i) \<longleftrightarrow> i < CLIENT_THREAD_COUNT"
| "pc_ok (Joining i) \<longleftrightarrow> i < CLIENT_THREAD_COUNT"
| "pc_ok (Closing i) \<longleftrightarrow> i \<le> CLIENT_THREAD_COUNT"
| "pc_ok _ \<longleftrightarrow> True"

definition slot_inv :: "client_state \<Rightarrow> bool" where
  "slot_inv s \<longleftrightarrow> pool_ok CLIENT_THREAD_COUNT (cl_flags s) \<and> pc_ok (cl_pc s)
     \<and> dom (cl_threads s) \<subseteq> {..<CLIENT_THREAD_COUNT} \<and> set (cl_queue s) \<subseteq> {..<CLIENT_THREAD_COUNT}"

lemma slot_threads [simp]:
  "dom (cl_threads (set_phase i p s)) = dom (cl_threads s)"
  "dom (cl_threads (thread_end i s)) = dom (cl_threads s) - {i}"
  "dom (cl_threads (spawn i p s)) = insert i (dom (cl_threads s))"
  "cl_flags (set_phase i p s) = cl_flags s" "cl_flags (thread_end i s) = cl_flags s"
  "cl_flags (spawn i p s) = cl_flags s" "cl_pc (set_phase i p s) = cl_pc s"
  "cl_pc (thread_end i s) = cl_pc s" "cl_pc (spawn i p s) = Ready"
  by (auto simp: step_ops split: if_splits)

lemma slot_inv_step:
  assumes "client_step s s'" "slot_inv s" shows "slot_inv s'"
  using assms(1)
proof cases
  case (acquire i flags)
  have "pool_ok CLIENT_THREAD_COUNT (cl_flags s)"
    using assms(2) by (simp add: slot_inv_def)
  from cmd_pool.acquire_cases [OF this acquire(3)]
  have "pool_ok CLIENT_THREAD_COUNT flags" "i < CLIENT_THREAD_COUNT"
    by auto
  with acquire assms(2) show ?thesis
    by (auto simp: slot_inv_def)
next
  case (leave i b q flags)
  then have "i < CLIENT_THREAD_COUNT"
    using assms(2) phase_thread [OF leave(2)] unfolding slot_inv_def by blast
  with leave assms(2) show ?thesis
    using cmd_pool.release [of "cl_flags s" i] by (auto simp: slot_inv_def)
next
  case (wrap i p flags)
  then have "i < CLIENT_THREAD_COUNT"
    using assms(2) phase_thread [OF wrap(2)] unfolding slot_inv_def by blast
  with wrap assms(2) show ?thesis
    using cmd_pool.release [of "cl_flags s" i] by (auto simp: slot_inv_def)
qed (use assms(2) in \<open>auto simp: slot_inv_def\<close>)

lemma slot_inv_init: "slot_inv client_init"
  by (simp add: slot_inv_def client_init_def pool_init)

interpretation slots: step_invariant client_step client_init slot_inv
  by unfold_locales (rule slot_inv_init, rule slot_inv_step)

lemma phase_slot: "client_reach s \<Longrightarrow> phase_of s i = Some p \<Longrightarrow> i < CLIENT_THREAD_COUNT"
  using slots.reach [of s] phase_thread [of s i p] unfolding slot_inv_def by blast

section \<open>The end of the connection\<close>

text \<open>The slots that the loop of \<open>client_handler_cleanup\<close> has done.\<close>

fun passed :: "client_pc \<Rightarrow> nat set" where
  "passed (Closing i) = {..<i}"
| "passed (Joining i) = {..<i}"
| "passed Closed = {..<CLIENT_THREAD_COUNT}"
| "passed _ = {}"

definition close_inv :: "client_state \<Rightarrow> bool" where
  "close_inv s \<longleftrightarrow> (\<forall>j \<in> passed (cl_pc s). phase_of s j \<noteq> None \<longrightarrow> cl_flags s ! j \<noteq> 1)"

lemma reset_flag_keeps: "reset_flag flags i = Inr flags' \<Longrightarrow> flags ! j \<noteq> 1 \<Longrightarrow> flags' ! j \<noteq> 1"
  by (cases "i = j") (auto simp: reset_flag_def split: if_splits)

lemma close_inv_step:
  assumes "client_step s s'" "close_inv s" shows "close_inv s'"
  using assms(1)
proof cases
  case (leave i b q flags)
  with assms(2) reset_flag_keeps [OF leave(4)] show ?thesis
    by (auto simp: close_inv_def phase_of_set_phase phase_of_thread_end)
next
  case (wrap i p flags)
  with assms(2) reset_flag_keeps [OF wrap(4)] show ?thesis
    by (auto simp: close_inv_def phase_of_thread_end)
qed (use assms(2) in
    \<open>auto simp: close_inv_def phase_of_set_phase phase_of_thread_end less_Suc_eq phase_None\<close>)

lemma close_inv_init: "close_inv client_init"
  by (simp add: close_inv_def client_init_def)

interpretation cleanup: step_invariant client_step client_init close_inv
  by unfold_locales (rule close_inv_init, rule close_inv_step)

text \<open>A closing connection whose cancelled WORK waits behind one that waits for a permit.\<close>

definition deadlocked :: "client_state \<Rightarrow> bool" where
  "deadlocked s \<longleftrightarrow> cl_pc s = Joining 0 \<and> cl_queue s = [1, 0] \<and> cl_sem s = 0 \<and> 1 \<notin> cl_cancel s
     \<and> (\<forall>i p. phase_of s i = Some p \<longleftrightarrow> i = 0 \<and> p = Leaving False \<or> i = 1 \<and> p = Waiting)"

lemma deadlocked_stuck: "deadlocked s \<Longrightarrow> \<not> client_step s s'"
proof
  assume dl: "deadlocked s"
  then have phases: "phase_of s i = Some p \<longleftrightarrow> i = 0 \<and> p = Leaving False \<or> i = 1 \<and> p = Waiting" for i p
    by (simp add: deadlocked_def)
  then have alive: "cl_threads s 0 \<noteq> None"
    using phases [of 0] by (auto simp: phase_of_def)
  have rest: "cl_pc s = Joining 0" "cl_queue s = [1, 0]" "cl_sem s = 0" "1 \<notin> cl_cancel s"
    using dl by (simp_all add: deadlocked_def)
  assume "client_step s s'"
  then show False
    by cases (use rest alive in \<open>simp_all add: phases\<close>, auto)
qed

section \<open>Lost permits\<close>

definition deaf :: "client_state \<Rightarrow> bool" where
  "deaf s \<longleftrightarrow> cl_sem s = 0 \<and> (\<forall>i. phase_of s i \<noteq> Some Searching \<and> phase_of s i \<noteq> Some Found)"

lemma deaf_step:
  assumes "client_step s s'" "deaf s" shows "deaf s' \<and> answered s' = answered s"
  using assms
  by cases (auto simp: deaf_def phase_of_set_phase phase_of_thread_end phase_of_spawn split: if_splits)

lemma deaf_forever: "client_step\<^sup>*\<^sup>* s s' \<Longrightarrow> deaf s \<Longrightarrow> deaf s' \<and> answered s' = answered s"
  by (induction rule: rtranclp_induct) (auto dest: deaf_step)

text \<open>Schedules: three WORKs aborted while searching, two decrements that overlap, a slot taken again too early.\<close>

definition starve_schedule :: "label list" where
  "starve_schedule = [Acquire 0, Spawn_Work, Start 0, Acquire 1, Spawn_Work, Start 1, Acquire 2, Spawn_Work, Start 2,
     Acquire 3, Spawn_Other, Abort 3, Cancel 0, Cancel 1, Cancel 2, Wrap 3,
     Dec_Read 0, Dec_Write 0, Leave 0, Dec_Read 1, Dec_Write 1, Leave 1, Dec_Read 2, Dec_Write 2, Leave 2]"

definition race_schedule :: "label list" where
  "race_schedule = [Acquire 0, Spawn_Work, Acquire 1, Spawn_Work, Acquire 2, Spawn_Other, Abort 2, Cancel 0, Cancel 1,
     Wrap 2, Dec_Read 0, Dec_Read 1, Dec_Write 0, Dec_Write 1, Leave 0, Leave 1]"

definition slot_schedule :: "label list" where
  "slot_schedule = [Acquire 0, Spawn_Work, Start 0, Find 0, Answer 0, Dec_Read 0, Dec_Write 0, Leave 0,
     Acquire 0, Wrap 0, Spawn_Work]"

definition crowd_schedule :: "label list" where
  "crowd_schedule = concat (map (\<lambda>i. [Acquire i, Spawn_Work]) [0..<9])
     @ [Start 0, Find 0, Answer 0, Dec_Read 0, Acquire 9, Spawn_Work, Dec_Write 0, Leave 0, Wrap 0,
        Acquire 0, Spawn_Work, Acquire 10, Spawn_Work]"

definition deadlock_schedule :: "label list" where
  "deadlock_schedule = starve_schedule @ [Acquire 0, Spawn_Other, Acquire 1, Spawn_Work, Wrap 0,
     Acquire 0, Spawn_Work, Hangup, Shut, Cancel 0, Dec_Read 0, Dec_Write 0]"

definition orphan_schedule :: "label list" where
  "orphan_schedule = [Acquire 0, Spawn_Work, Start 0, Find 0, Answer 0, Dec_Read 0, Dec_Write 0, Leave 0, Hangup]
     @ replicate 21 Shut"

text \<open>What a schedule leads to, with the phases of all slots.\<close>

lemma schedule_state:
  assumes "map_option (\<lambda>s. (f s, map (phase_of s) [0..<20])) (run_schedule ls client_init) = Some (v, ps)"
  shows "\<exists>s. client_reach s \<and> f s = v \<and> (\<forall>i. phase_of s i = (if i < 20 then ps ! i else None))"
proof -
  from assms obtain s where s: "run_schedule ls client_init = Some s" "f s = v" "map (phase_of s) [0..<20] = ps"
    by auto
  have reach: "client_reach s"
    by (rule run_schedule_reach [OF s(1)])
  moreover have "phase_of s i = (if i < 20 then ps ! i else None)" for i
  proof (cases "i < 20")
    case True
    have "map (phase_of s) [0..<20] ! i = phase_of s i"
      using True by (subst nth_map) simp_all
    with True s(3) show ?thesis by simp
  next
    case False
    then show ?thesis
      using phase_slot [OF reach, of i] by (cases "phase_of s i") (auto simp: CLIENT_THREAD_COUNT_def)
  qed
  ultimately show ?thesis
    using s(2) by blast
qed

lemma deadlock_reached: "\<exists>s. client_reach s \<and> deadlocked s"
proof -
  let ?ps = "Some (Leaving False) # Some Waiting # replicate 18 None"
  have "map_option (\<lambda>s. ((cl_pc s, cl_queue s, cl_sem s, 1 \<in> cl_cancel s), map (phase_of s) [0..<20]))
      (run_schedule deadlock_schedule client_init) = Some ((Joining 0, [1, 0], 0, False), ?ps)"
    by code_simp
  from schedule_state [OF this] obtain s where s: "client_reach s"
      "(cl_pc s, cl_queue s, cl_sem s, 1 \<in> cl_cancel s) = (Joining 0, [1, 0], 0, False)"
      and ph: "\<And>i. phase_of s i = (if i < 20 then ?ps ! i else None)"
    by blast
  have "phase_of s i = Some p \<longleftrightarrow> i = 0 \<and> p = Leaving False \<or> i = 1 \<and> p = Waiting" for i p
    unfolding ph by (auto simp: nth_Cons split: nat.split)
  with s show ?thesis
    by (auto simp: deadlocked_def)
qed

section \<open>Properties\<close>

text \<open>
  In every reachable state at most three WORKs of a client are being searched, and
  the permits of the semaphore, the searching threads and the permits lost to cancellation add up
  to three.
\<close>

lemma searching_limit:
  assumes "client_reach s"
  shows "card (searching s) \<le> CONCURRENT_WORK_COUNT
    \<and> cl_sem s + card (searching s) + leaked s = CONCURRENT_WORK_COUNT"
  using permits.reach [OF assms] by (auto simp: sem_inv_def)

text \<open>
  Property C15. As long as no thread of the client is cancelled, its WORKs are answered in the
  order in which they were accepted, whatever the order in which their solutions are found.
\<close>

theorem answers_in_order:
  assumes "calm_reach s" shows "sorted_wrt (<) (answered s)"
  using order_invD(6) [OF turns.reach [OF assms]] .

theorem answers_in_order_witness:
  "\<exists>s. run_calm [Acquire 0, Spawn_Work, Acquire 1, Spawn_Work, Start 0, Start 1, Find 1, Find 0, Answer 0,
      Dec_Read 0, Dec_Write 0, Leave 0, Answer 1] client_init = Some s \<and> sorted_wrt (<) (answered s)"
proof -
  let ?ls = "[Acquire 0, Spawn_Work, Acquire 1, Spawn_Work, Start 0, Start 1, Find 1, Find 0, Answer 0,
      Dec_Read 0, Dec_Write 0, Leave 0, Answer 1]"
  have "run_calm ?ls client_init \<noteq> None"
    by code_simp
  then obtain s where s: "run_calm ?ls client_init = Some s"
    by blast
  from answers_in_order [OF run_calm_reach [OF this]] s show ?thesis
    by blast
qed

text \<open>
  Property C19. The states of a connection are well-formed: there are 20 flags with values 0 and 1,
  and every slot number that the code uses as an index, in the client thread, among the running
  threads and in the queue that \<open>abrt_handler\<close> walks over, is below 20; the semaphore has at most three
  permits.  So no access to \<open>thread_pool\<close> or to the flags is out of bounds.
\<close>

theorem state_typed:
  assumes "client_reach s"
  shows "length (cl_flags s) = CLIENT_THREAD_COUNT \<and> set (cl_flags s) \<subseteq> {0, 1} \<and> pc_ok (cl_pc s)
    \<and> dom (cl_threads s) \<subseteq> {..<CLIENT_THREAD_COUNT} \<and> set (cl_queue s) \<subseteq> {..<CLIENT_THREAD_COUNT}
    \<and> cl_sem s \<le> CONCURRENT_WORK_COUNT"
  using slots.reach [OF assms] permits.reach [OF assms] by (simp add: slot_inv_def pool_ok_def sem_inv_def)

theorem state_typed_witness:
  "\<exists>s. run_schedule deadlock_schedule client_init = Some s \<and> length (cl_flags s) = 20 \<and> set (cl_queue s) \<subseteq> {..<20}"
proof -
  have "run_schedule deadlock_schedule client_init \<noteq> None"
    by code_simp
  then obtain s where s: "run_schedule deadlock_schedule client_init = Some s"
    by blast
  from state_typed [OF run_schedule_reach [OF this]] s show ?thesis
    by (auto simp: CLIENT_THREAD_COUNT_def)
qed



text \<open>
  Property C34. The decrement of the number of WORKs in the cleanup handler is not protected by
  the mutex that protects the increment.  Two WORKs that are cleaned up at the same time can lose
  one decrement, and the server keeps counting a WORK that no longer exists; a WORK that is
  accepted during a cleanup can lose its increment, and then 11 WORKs are in progress although the
  limit is 10.
\<close>

theorem work_count_race:
  "(\<exists>s. client_reach s \<and> cl_queue s = [] \<and> (\<forall>i. phase_of s i = None) \<and> work_count s = 1)
    \<and> (\<exists>s. client_reach s \<and> card {i. phase_of s i = Some Waiting} = 11 \<and> work_count s = GLOBAL_WORK_LIMIT)"
proof
  have "map_option (\<lambda>s. ((cl_queue s, work_count s), map (phase_of s) [0..<20]))
      (run_schedule race_schedule client_init) = Some (([], 1), replicate 20 None)"
    by code_simp
  from schedule_state [OF this] obtain s where s: "client_reach s" "(cl_queue s, work_count s) = ([], 1)"
      "\<And>i. phase_of s i = (if i < 20 then replicate 20 None ! i else None)"
    by blast
  then show "\<exists>s. client_reach s \<and> cl_queue s = [] \<and> (\<forall>i. phase_of s i = None) \<and> work_count s = 1"
    by (intro exI [of _ s]) simp
next
  have "map_option (\<lambda>s. (work_count s, map (phase_of s) [0..<20]))
      (run_schedule crowd_schedule client_init) = Some (10, replicate 11 (Some Waiting) @ replicate 9 None)"
    by code_simp
  from schedule_state [OF this] obtain s where s: "client_reach s" "work_count s = 10"
      "\<And>i. phase_of s i = (if i < 20 then (replicate 11 (Some Waiting) @ replicate 9 None) ! i else None)"
    by blast
  have "phase_of s i = Some Waiting \<longleftrightarrow> i < 11" for i
    unfolding s(3) by (auto simp: nth_append)
  then have "{i. phase_of s i = Some Waiting} = {..<11}"
    by auto
  with s show "\<exists>s. client_reach s \<and> card {i. phase_of s i = Some Waiting} = 11 \<and> work_count s = GLOBAL_WORK_LIMIT"
    by (intro exI [of _ s]) (simp add: GLOBAL_WORK_LIMIT_def)
qed

text \<open>
  Property C21. When the cleanup of a connection has ended, every slot that is marked as taken has
  been waited for: no thread is left in it.
\<close>

theorem cleanup_joins:
  assumes "client_reach s" "cl_pc s = Closed" "j < CLIENT_THREAD_COUNT" "cl_flags s ! j = 1"
  shows "phase_of s j = None"
  using cleanup.reach [OF assms(1)] assms(2-) by (auto simp: close_inv_def)

theorem cleanup_joins_witness:
  "\<exists>s. run_schedule ([Acquire 0, Spawn_Other, Hangup, Shut, Cancel_Other 0] @ replicate 21 Shut) client_init = Some s
    \<and> cl_flags s ! 0 = 1 \<and> phase_of s 0 = None"
proof -
  let ?ls = "[Acquire 0, Spawn_Other, Hangup, Shut, Cancel_Other 0] @ replicate 21 Shut"
  have "map_option (\<lambda>s. (cl_pc s, cl_flags s ! 0)) (run_schedule ?ls client_init) = Some (Closed, 1)"
    by code_simp
  then obtain s where s: "run_schedule ?ls client_init = Some s" "cl_pc s = Closed" "cl_flags s ! 0 = 1"
    by auto
  from cleanup_joins [OF run_schedule_reach [OF s(1)] s(2) _ s(3)] s show ?thesis
    by (auto simp: CLIENT_THREAD_COUNT_def)
qed

text \<open>
  Property C37. The cleanup does not wait for a thread whose slot is already marked as free.  A WORK
  that has reset its flag but not yet ended its wrapper is missed: the connection's memory is freed
  while the wrapper has still to write the flag.
\<close>

theorem cleanup_misses_thread:
  "\<exists>s. client_reach s \<and> cl_pc s = Closed \<and> phase_of s 0 = Some Wrapping"
proof -
  have "map_option (\<lambda>s. (cl_pc s, map (phase_of s) [0..<20]))
      (run_schedule orphan_schedule client_init) = Some (Closed, Some Wrapping # replicate 19 None)"
    by code_simp
  from schedule_state [OF this] obtain s where "client_reach s" "cl_pc s = Closed"
      "\<And>i. phase_of s i = (if i < 20 then (Some Wrapping # replicate 19 None) ! i else None)"
    by blast
  then show ?thesis
    by (intro exI [of _ s]) simp
qed

text \<open>
  The cleanup can wait for ever.  It cancels and joins the threads one by one in the
  order of the slots, while a cancelled WORK waits for its turn in the queue: there is a reachable
  state in which the first WORK of the queue was not cancelled yet and waits for a lost permit, the
  cancelled WORK waits for it, the client thread waits for the cancelled WORK, and no step is
  possible.
\<close>

lemma cleanup_deadlock:
  "\<exists>s. client_reach s \<and> cl_pc s = Joining 0 \<and> (\<forall>s'. \<not> client_step s s')"
  using deadlock_reached deadlocked_stuck by (metis deadlocked_def)

text \<open>
  The slot of a WORK is reset twice, by its cleanup handler and by the wrapper.  When
  the client thread takes the slot between the two, the second reset frees the slot of the new
  command: there is a reachable state with a WORK in slot 0 whose flag says that the slot is free,
  so that the next command cancels it.
\<close>

lemma slot_freed_twice:
  "\<exists>s. client_reach s \<and> phase_of s 0 = Some Waiting \<and> cl_flags s ! 0 = 0"
proof -
  have "map_option (\<lambda>s. (cl_flags s ! 0, map (phase_of s) [0..<20]))
      (run_schedule slot_schedule client_init) = Some (0, Some Waiting # replicate 19 None)"
    by code_simp
  from schedule_state [OF this] obtain s where "client_reach s" "cl_flags s ! 0 = 0"
      "\<And>i. phase_of s i = (if i < 20 then (Some Waiting # replicate 19 None) ! i else None)"
    by blast
  then show ?thesis
    by (intro exI [of _ s]) simp
qed


text \<open>
  Property C16. The linked list of \<open>handler_helper.c\<close> implements the queue of this model: every step
  on the abstract queue is matched by leaving the list alone, by \<open>push_tid\<close> with any address that
  \<open>malloc\<close> may return, or by \<open>rm_tid\<close> of the thread whose id \<open>get_tid\<close> reads, without following an
  invalid pointer; and \<open>abrt_handler\<close> visits exactly the queued threads.
\<close>

theorem queue_refined:
  assumes "client_step s s'" "queue_holds q (map int (cl_queue s))" "queue_fresh q a"
  shows "abrt_handler q = Some (Inr (map int (cl_queue s)))
    \<and> (\<exists>q'. queue_holds q' (map int (cl_queue s'))
        \<and> (q' = q \<or> (\<exists>i. push_tid a q (int i) = Some (Inr q'))
           \<or> (\<exists>i. get_tid q = Inr (int i) \<and> rm_tid q = Inr q')))"
proof
  show "abrt_handler q = Some (Inr (map int (cl_queue s)))"
    using assms(2) by (auto simp: abrt_handler_def queue_holds_def queue_ids_chain)
  have same: ?thesis if "cl_queue s' = cl_queue s"
    using that assms(2) \<open>abrt_handler q = _\<close> by auto
  from assms(1) show "\<exists>q'. queue_holds q' (map int (cl_queue s'))
        \<and> (q' = q \<or> (\<exists>i. push_tid a q (int i) = Some (Inr q'))
           \<or> (\<exists>i. get_tid q = Inr (int i) \<and> rm_tid q = Inr q'))"
  proof cases
    case (spawn_work i)
    with tidq.push [OF assms(2,3), of "int i"] show ?thesis by auto
  next
    case (leave i b q' flags)
    with tidq.rm [OF assms(2)] tidq.peek [OF assms(2)] show ?thesis by auto
  qed (use same in auto)
qed

theorem queue_refined_witness:
  "abrt_handler empty_queue = Some (Inr [])"
proof -
  have "do_step (Acquire 0) client_init \<noteq> None"
    by code_simp
  then obtain s' where "do_step (Acquire 0) client_init = Some s'"
    by blast
  then have step: "client_step client_init s'"
    by (rule do_step_sound)
  have "queue_holds empty_queue (map int (cl_queue client_init))" "queue_fresh empty_queue 7"
    by (simp_all add: client_init_def queue_holds_empty queue_fresh_def) (simp add: empty_queue_def)
  from queue_refined [OF step this] show ?thesis
    by (simp add: client_init_def)
qed

end
