(* ===== verification/Server.thy ===== *)
theory Server
  imports Messages Thread_Pool
begin

text \<open>
  The server process (\<open>main\<close> of \<open>driver.c\<close>) and the end of a connection
  (\<open>client_handler_cleanup\<close> of \<open>handler.c\<close>): accepting a connection takes a slot of the client pool
  or refuses, the end of a connection closes the socket and gives the slot back.
\<close>

section \<open>State and operations\<close>

record server =
  sv_flags :: "BYTE list"
  sv_warned :: bool
  curr_cli_count :: int
  global_served_count :: int

definition server_init :: server where
  "server_init = \<lparr>sv_flags = init_avail_flags CLIENT_COUNT, sv_warned = False,
     curr_cli_count = 0, global_served_count = 0\<rparr>"

definition full_text :: "char list" where
  "full_text = ''Maximum number of clients reached. Disconnecting new client.''"

text \<open>
  One iteration of the loop of \<open>main\<close>; the argument is the result of \<open>accept\<close>, \<open>None\<close> for an error.
  The result has the events, the new state and the slot of the new client thread, if any.
\<close>

definition main_accept :: "io_env \<Rightarrow> server \<Rightarrow> (sockaddr_in \<times> int) option \<Rightarrow>
    (io_event list \<times> server \<times> nat option) c_result" where
  "main_accept env sv conn =
     (case conn of
        None \<Rightarrow> Inr ([], sv, None)
      | Some (cli_addr, newsockfd) \<Rightarrow>
          bind_c (get_avail_thread (sv_flags sv) CLIENT_COUNT) (\<lambda>(i, flags).
            if i = -1 then
              bind_c (logger_log env (Some cli_addr) newsockfd (map Some full_text @ [Some NUL])
                        (int (length full_text))) (\<lambda>evs.
                Inr (evs @ [Close newsockfd], sv\<lparr>sv_flags := flags, sv_warned := True\<rparr>, None))
            else
              bind_c (logger_log env (Some cli_addr) newsockfd (map Some ''Connected'' @ [Some NUL]) 9) (\<lambda>evs.
                Inr (evs, sv\<lparr>sv_flags := flags, sv_warned := False,
                             curr_cli_count := curr_cli_count sv + 1,
                             global_served_count := global_served_count sv + 1\<rparr>, Some (nat i)))))"

text \<open>The loop that resets the flag until it is seen to be reset.\<close>

partial_function (option) reset_until :: "BYTE list \<Rightarrow> nat \<Rightarrow> BYTE list c_result option" where
  [code]: "reset_until flags i =
     (if i < length flags then
        if flags ! i = 1 then
          (case reset_flag flags i of Inl e \<Rightarrow> Some (Inl e) | Inr flags' \<Rightarrow> reset_until flags' i)
        else Some (Inr flags)
      else Some (Inl Out_Of_Bounds))"

definition client_handler_cleanup :: "server \<Rightarrow> int \<Rightarrow> nat \<Rightarrow> (io_event list \<times> server) c_result option" where
  "client_handler_cleanup sv newsockfd client_id =
     map_option (\<lambda>r. bind_c r (\<lambda>flags.
         Inr ([Close newsockfd], sv\<lparr>sv_flags := flags, curr_cli_count := curr_cli_count sv - 1\<rparr>)))
       (reset_until (sv_flags sv) client_id)"

text \<open>Connections come and go.\<close>

inductive server_step :: "io_env \<Rightarrow> server \<Rightarrow> server \<Rightarrow> bool" for env where
  connect: "main_accept env sv conn = Inr (evs, sv', r) \<Longrightarrow> server_step env sv sv'"
| disconnect: "i \<in> pool_busy (sv_flags sv) \<Longrightarrow>
    client_handler_cleanup sv fd i = Some (Inr (evs, sv')) \<Longrightarrow> server_step env sv sv'"

inductive_cases server_stepE: "server_step env sv sv'"

section \<open>Slots of the clients\<close>

lemma reset_until_once:
  assumes "i < length flags"
  shows "reset_until flags i = Some (Inr (if flags ! i = 1 then flags[i := 0] else flags))"
proof -
  have stop: "reset_until fs i = Some (Inr fs)" if "i < length fs" "fs ! i \<noteq> 1" for fs
    using that by (subst reset_until.simps) simp
  show ?thesis
    using assms stop [of "flags[i := 0]"] stop [of flags]
    by (cases "flags ! i = 1") (simp_all add: reset_until.simps [of flags] reset_flag_def)
qed

definition server_inv :: "server \<Rightarrow> bool" where
  "server_inv sv \<longleftrightarrow> pool_ok CLIENT_COUNT (sv_flags sv)
     \<and> curr_cli_count sv = int (card (pool_busy (sv_flags sv)))"

lemma finite_busy: "finite (pool_busy flags)"
  by (simp add: pool_busy_def)

lemma main_accept_flags:
  assumes "main_accept env sv (Some (addr, fd)) = Inr (evs, sv', r)"
  shows "\<exists>i. get_avail_thread (sv_flags sv) CLIENT_COUNT = Inr (i, sv_flags sv')
    \<and> curr_cli_count sv' = curr_cli_count sv + (if i = -1 then 0 else 1)"
proof -
  obtain i flags where g: "get_avail_thread (sv_flags sv) CLIENT_COUNT = Inr (i, flags)"
    using assms by (auto simp: main_accept_def bind_c_eq_Inr)
  then have "sv_flags sv' = flags \<and> curr_cli_count sv' = curr_cli_count sv + (if i = -1 then 0 else 1)"
    using assms by (cases "i = -1") (auto simp: main_accept_def bind_c_eq_Inr)
  with g show ?thesis by blast
qed

lemma server_inv_connect:
  assumes "main_accept env sv (Some (addr, fd)) = Inr (evs, sv', r)" "server_inv sv"
  shows "server_inv sv'"
proof -
  have ok: "pool_ok CLIENT_COUNT (sv_flags sv)" and cnt: "curr_cli_count sv = int (card (pool_busy (sv_flags sv)))"
    using assms(2) by (simp_all add: server_inv_def)
  obtain v where v: "get_avail_thread (sv_flags sv) CLIENT_COUNT = Inr (v, sv_flags sv')"
    "curr_cli_count sv' = curr_cli_count sv + (if v = -1 then 0 else 1)"
    using main_accept_flags [OF assms(1)] by blast
  note a = client_pool.acquire_cases [OF ok v(1)]
  show ?thesis
  proof (cases "v = -1")
    case True
    with a have "sv_flags sv' = sv_flags sv" by auto
    with ok cnt v(2) True show ?thesis by (simp add: server_inv_def)
  next
    case False
    with a obtain i where "i \<notin> pool_busy (sv_flags sv)" "pool_busy (sv_flags sv') = insert i (pool_busy (sv_flags sv))"
      "pool_ok CLIENT_COUNT (sv_flags sv')"
      by blast
    with cnt v(2) False show ?thesis by (simp add: server_inv_def finite_busy)
  qed
qed

lemma server_inv_disconnect:
  assumes "i \<in> pool_busy (sv_flags sv)" "client_handler_cleanup sv fd i = Some (Inr (evs, sv'))" "server_inv sv"
  shows "server_inv sv'"
proof -
  have i: "i < length (sv_flags sv)" "sv_flags sv ! i = 1"
    using assms(1) by (auto simp: pool_busy_def)
  then have "sv' = sv\<lparr>sv_flags := (sv_flags sv)[i := 0], curr_cli_count := curr_cli_count sv - 1\<rparr>"
    using assms(2) by (simp add: client_handler_cleanup_def reset_until_once)
  moreover have "int (card (pool_busy (sv_flags sv) - {i})) = int (card (pool_busy (sv_flags sv))) - 1"
    using card_Suc_Diff1 [OF finite_busy assms(1)] by simp
  ultimately show ?thesis
    using assms(3) i(1) by (simp add: server_inv_def free_update pool_ok_update)
qed

lemma server_inv_step: "server_step env sv sv' \<Longrightarrow> server_inv sv \<Longrightarrow> server_inv sv'"
proof (induction rule: server_step.induct)
  case (connect sv conn evs sv' r)
  then show ?case
    by (cases conn) (auto simp: main_accept_def [of env sv None] intro: server_inv_connect)
qed (rule server_inv_disconnect)

lemma server_inv_init: "server_inv server_init"
  by (simp add: server_inv_def server_init_def pool_init)

interpretation clients: step_invariant "server_step env" server_init server_inv
  by unfold_locales (rule server_inv_init, rule server_inv_step)

section \<open>A new connection\<close>

lemma accept_log:
  assumes "safe_env env" "addr_ok addr" "0 \<le> fd" "fd < 1000" "NUL \<notin> set s" "l = int (length s)"
  shows "logger_log env (Some addr) fd (map Some s @ [Some NUL]) l = Inr [Log_Line (log_line env (Some addr) fd s)]"
proof -
  have "heap_slack env \<noteq> 0" "\<not> stack_slack env < 8" "env_ok env"
    using assms(1) by (auto simp: safe_env_def)
  with logger_log_eq [OF _ assms(3,4), of env "Some addr" s "[]"] assms show ?thesis
    by simp
qed

lemma main_accept_full:
  assumes "safe_env env" "addr_ok addr" "0 \<le> fd" "fd < 1000" "pool_ok CLIENT_COUNT (sv_flags sv)"
    and "pool_busy (sv_flags sv) = {..<CLIENT_COUNT}"
  shows "main_accept env sv (Some (addr, fd)) =
    Inr ([Log_Line (log_line env (Some addr) fd full_text), Close fd], sv\<lparr>sv_warned := True\<rparr>, None)"
proof -
  have "NUL \<notin> set full_text"
    by (simp add: full_text_def)
  with client_pool.acquire_full [OF assms(5,6)] accept_log [OF assms(1-4)] show ?thesis
    by (simp add: main_accept_def)
qed

lemma main_accept_free:
  assumes "safe_env env" "addr_ok addr" "0 \<le> fd" "fd < 1000" "pool_ok CLIENT_COUNT (sv_flags sv)"
    and "pool_busy (sv_flags sv) \<noteq> {..<CLIENT_COUNT}"
  shows "\<exists>i sv'. main_accept env sv (Some (addr, fd)) =
      Inr ([Log_Line (log_line env (Some addr) fd ''Connected'')], sv', Some i)
    \<and> i < CLIENT_COUNT \<and> i \<notin> pool_busy (sv_flags sv)
    \<and> pool_busy (sv_flags sv') = insert i (pool_busy (sv_flags sv))"
proof -
  obtain i flags where "get_avail_thread (sv_flags sv) CLIENT_COUNT = Inr (int i, flags)" "i < CLIENT_COUNT"
    "i \<notin> pool_busy (sv_flags sv)" "pool_busy flags = insert i (pool_busy (sv_flags sv))"
    using client_pool.acquire_free [OF assms(5,6)] by blast
  with accept_log [OF assms(1-4), of "''Connected''" 9] show ?thesis
    by (auto simp: main_accept_def)
qed

section \<open>Properties\<close>

text \<open>
  Whatever connections come and go, the number of connected clients is the number of
  taken slots and at most 100.
\<close>

lemma clients_bounded:
  assumes "(server_step env)\<^sup>*\<^sup>* server_init sv"
  shows "curr_cli_count sv = int (card (pool_busy (sv_flags sv))) \<and> curr_cli_count sv \<le> int CLIENT_COUNT"
  using clients.reach [OF assms] client_pool.card_busy [of "sv_flags sv"] by (auto simp: server_inv_def)

text \<open>
  A new connection is refused exactly when all 100 slots are taken: it is logged and
  closed and no thread is started.  Otherwise it gets a slot that was free, and no other slot
  changes.
\<close>

lemma main_accept_spec:
  assumes "safe_env env" "addr_ok addr" "0 \<le> fd" "fd < 1000" "pool_ok CLIENT_COUNT (sv_flags sv)"
  shows "if pool_busy (sv_flags sv) = {..<CLIENT_COUNT}
    then main_accept env sv (Some (addr, fd)) =
      Inr ([Log_Line (log_line env (Some addr) fd full_text), Close fd], sv\<lparr>sv_warned := True\<rparr>, None)
    else \<exists>i sv'. main_accept env sv (Some (addr, fd)) =
        Inr ([Log_Line (log_line env (Some addr) fd ''Connected'')], sv', Some i)
      \<and> i < CLIENT_COUNT \<and> i \<notin> pool_busy (sv_flags sv)
      \<and> pool_busy (sv_flags sv') = insert i (pool_busy (sv_flags sv))"
  using main_accept_full [OF assms] main_accept_free [OF assms] by simp

end
