(* ===== verification/System.thy ===== *)
theory System
  imports Client Server
begin

text \<open>
  The whole server: the loop of \<open>main\<close>, all connections with their threads, and the number of WORK
  commands that they share (\<open>global_work_count\<close>).  A step is an iteration of \<open>main\<close>, a step of a
  thread of one connection, or the last part of the cleanup of a connection.
\<close>

section \<open>State and steps\<close>

record conn =
  c_slot :: nat
  c_fd :: int
  c_state :: client_state
  c_open :: bool

record system =
  sy_server :: server
  sy_conns :: "conn list"
  global_work_count :: int

definition system_init :: system where
  "system_init = \<lparr>sy_server = server_init, sy_conns = [], global_work_count = 0\<rparr>"

text \<open>A step of a connection reads and writes the shared number of WORKs.\<close>

inductive system_step :: "io_env \<Rightarrow> system \<Rightarrow> system \<Rightarrow> bool" for env where
  refuse: "main_accept env (sy_server sy) r = Inr (evs, sv', None) \<Longrightarrow> system_step env sy (sy\<lparr>sy_server := sv'\<rparr>)"
| accept: "main_accept env (sy_server sy) (Some (addr, fd)) = Inr (evs, sv', Some i) \<Longrightarrow>
    system_step env sy (sy\<lparr>sy_server := sv',
      sy_conns := sy_conns sy @ [\<lparr>c_slot = i, c_fd = fd, c_state = client_init, c_open = True\<rparr>]\<rparr>)"
| thread: "k < length (sy_conns sy) \<Longrightarrow> c = sy_conns sy ! k \<Longrightarrow>
    client_step ((c_state c)\<lparr>work_count := global_work_count sy\<rparr>) s' \<Longrightarrow>
    system_step env sy (sy\<lparr>sy_conns := (sy_conns sy)[k := c\<lparr>c_state := s'\<rparr>], global_work_count := work_count s'\<rparr>)"
| finish: "k < length (sy_conns sy) \<Longrightarrow> c = sy_conns sy ! k \<Longrightarrow> c_open c \<Longrightarrow> cl_pc (c_state c) = Closed \<Longrightarrow>
    client_handler_cleanup (sy_server sy) (c_fd c) (c_slot c) = Some (Inr (evs, sv')) \<Longrightarrow>
    system_step env sy (sy\<lparr>sy_server := sv', sy_conns := (sy_conns sy)[k := c\<lparr>c_open := False\<rparr>]\<rparr>)"

inductive_cases system_stepE: "system_step env sy sy'"

section \<open>Invariants\<close>

definition conn_inv :: "client_state \<Rightarrow> bool" where
  "conn_inv s \<longleftrightarrow> sem_inv s \<and> slot_inv s \<and> close_inv s \<and> count_inv s"

lemma conn_inv_init: "conn_inv client_init"
  by (simp add: conn_inv_def sem_inv_init slot_inv_init close_inv_init count_inv_init)

lemma conn_inv_step: "client_step s s' \<Longrightarrow> conn_inv s \<Longrightarrow> conn_inv s'"
  by (simp add: conn_inv_def sem_inv_step slot_inv_step close_inv_step count_inv_step)

lemma conn_inv_work_count: "conn_inv s \<Longrightarrow> n \<le> GLOBAL_WORK_LIMIT \<Longrightarrow> conn_inv (s\<lparr>work_count := n\<rparr>)"
  by (simp add: conn_inv_def sem_inv_def slot_inv_def close_inv_def count_inv_def)

text \<open>The slots of the open connections.\<close>

definition open_slots :: "conn list \<Rightarrow> nat list" where
  "open_slots cs = map c_slot (filter c_open cs)"

lemma open_slots_simps [simp]:
  "open_slots [] = []" "open_slots (c # cs) = (if c_open c then [c_slot c] else []) @ open_slots cs"
  "open_slots (cs @ ds) = open_slots cs @ open_slots ds"
  by (simp_all add: open_slots_def)

lemma open_slots_state:
  "k < length cs \<Longrightarrow> open_slots (cs[k := (cs ! k)\<lparr>c_state := s\<rparr>]) = open_slots cs"
  by (induction cs arbitrary: k) (auto split: nat.splits)

lemma open_slots_close:
  "k < length cs \<Longrightarrow> c_open (cs ! k) \<Longrightarrow> distinct (open_slots cs) \<Longrightarrow>
    distinct (open_slots (cs[k := (cs ! k)\<lparr>c_open := False\<rparr>]))
    \<and> set (open_slots (cs[k := (cs ! k)\<lparr>c_open := False\<rparr>])) = set (open_slots cs) - {c_slot (cs ! k)}
    \<and> c_slot (cs ! k) \<in> set (open_slots cs)"
  by (induction cs arbitrary: k) (auto split: nat.splits if_splits)

definition system_inv :: "system \<Rightarrow> bool" where
  "system_inv sy \<longleftrightarrow> server_inv (sy_server sy)
     \<and> distinct (open_slots (sy_conns sy))
     \<and> set (open_slots (sy_conns sy)) = pool_busy (sv_flags (sy_server sy))
     \<and> global_work_count sy \<le> GLOBAL_WORK_LIMIT
     \<and> (\<forall>c \<in> set (sy_conns sy). conn_inv (c_state c))"

lemma main_accept_slots:
  assumes "main_accept env sv conn = Inr (evs, sv', r)" "server_inv sv"
  shows "server_inv sv'
    \<and> (case r of
         None \<Rightarrow> pool_busy (sv_flags sv') = pool_busy (sv_flags sv)
       | Some i \<Rightarrow> i \<notin> pool_busy (sv_flags sv) \<and> pool_busy (sv_flags sv') = insert i (pool_busy (sv_flags sv)))"
proof (cases conn)
  case None
  with assms show ?thesis
    by (auto simp: main_accept_def)
next
  case (Some p)
  then obtain addr fd where conn: "conn = Some (addr, fd)"
    by (cases p) simp
  have ok: "pool_ok CLIENT_COUNT (sv_flags sv)"
    using assms(2) by (simp add: server_inv_def)
  obtain v where v: "get_avail_thread (sv_flags sv) CLIENT_COUNT = Inr (v, sv_flags sv')"
    using main_accept_flags assms(1) unfolding conn by blast
  have "r = (if v = -1 then None else Some (nat v))"
    using assms(1) v unfolding conn by (cases "v = -1") (auto simp: main_accept_def bind_c_eq_Inr)
  with client_pool.acquire_cases [OF ok v] server_inv_connect assms show ?thesis
    unfolding conn by (cases "v = -1") auto
qed

lemma cleanup_slots:
  assumes "client_handler_cleanup sv fd i = Some (Inr (evs, sv'))" "i \<in> pool_busy (sv_flags sv)"
  shows "pool_busy (sv_flags sv') = pool_busy (sv_flags sv) - {i}"
proof -
  have i: "i < length (sv_flags sv)" "sv_flags sv ! i = 1"
    using assms(2) by (auto simp: pool_busy_def)
  with assms(1) show ?thesis
    by (auto simp: client_handler_cleanup_def reset_until_once free_update)
qed

lemma system_inv_step:
  assumes "system_step env sy sy'" "system_inv sy" shows "system_inv sy'"
  using assms(1)
proof cases
  case (refuse r evs sv')
  with main_accept_slots [OF refuse(2)] assms(2) show ?thesis
    by (simp add: system_inv_def)
next
  case (accept addr fd evs sv' i)
  with main_accept_slots [OF accept(2)] assms(2) show ?thesis
    by (simp add: system_inv_def conn_inv_init)
next
  case (thread k c s')
  have lim: "global_work_count sy \<le> GLOBAL_WORK_LIMIT"
    using assms(2) by (simp add: system_inv_def)
  have "conn_inv (c_state c)"
    using assms(2) thread(2,3) by (simp add: system_inv_def)
  from conn_inv_step [OF thread(4) conn_inv_work_count [OF this lim]]
  have "conn_inv s'" "work_count s' \<le> GLOBAL_WORK_LIMIT"
    by (simp_all add: conn_inv_def count_inv_def)
  moreover have "\<forall>d \<in> set ((sy_conns sy)[k := c\<lparr>c_state := s'\<rparr>]). conn_inv (c_state d)"
    using assms(2) \<open>conn_inv s'\<close> set_update_subset_insert [of "sy_conns sy" k "c\<lparr>c_state := s'\<rparr>"]
    by (auto simp: system_inv_def)
  ultimately show ?thesis
    using assms(2) open_slots_state [OF thread(2)] unfolding thread(1,3) by (simp add: system_inv_def)
next
  case (finish k c evs sv')
  have busy: "c_slot c \<in> pool_busy (sv_flags (sy_server sy))"
    using assms(2) open_slots_close [OF finish(2)] finish(3,4) by (auto simp: system_inv_def)
  have "\<forall>d \<in> set ((sy_conns sy)[k := c\<lparr>c_open := False\<rparr>]). conn_inv (c_state d)"
    using assms(2) finish(2,3) set_update_subset_insert [of "sy_conns sy" k "c\<lparr>c_open := False\<rparr>"]
    by (auto simp: system_inv_def)
  then show ?thesis
    using assms(2) open_slots_close [OF finish(2)] finish(4) cleanup_slots [OF finish(6) busy]
      server_inv_disconnect [OF busy finish(6)]
    unfolding finish(1,3) by (simp add: system_inv_def)
qed

lemma system_inv_init: "system_inv system_init"
  by (simp add: system_inv_def system_init_def server_inv_init) (simp add: server_init_def pool_init GLOBAL_WORK_LIMIT_def)

interpretation sys: step_invariant "system_step env" system_init system_inv
  by unfold_locales (rule system_inv_init, rule system_inv_step)

section \<open>One connection in the server\<close>

text \<open>
  What a connection does alone it can also do in the server: a run of the threads of one connection
  is a run of the server after that connection was accepted first.
\<close>

lemma embed_steps:
  assumes "client_step\<^sup>*\<^sup>* s s'"
    and "sy_conns sy = [c]" "c_state c = s" "global_work_count sy = work_count s"
  shows "(system_step env)\<^sup>*\<^sup>* sy (sy\<lparr>sy_conns := [c\<lparr>c_state := s'\<rparr>], global_work_count := work_count s'\<rparr>)"
  using assms(1)
proof (induction rule: rtranclp_induct)
  case base
  have "c\<lparr>c_state := s\<rparr> = c"
    using assms(3) by simp
  then have "sy\<lparr>sy_conns := [c\<lparr>c_state := s\<rparr>], global_work_count := work_count s\<rparr> = sy"
    using assms(2,4) by (metis system.surjective system.update_convs(2,3))
  then show ?case by simp
next
  case (step s1 s2)
  let ?sy = "sy\<lparr>sy_conns := [c\<lparr>c_state := s1\<rparr>], global_work_count := work_count s1\<rparr>"
  have "system_step env ?sy (?sy\<lparr>sy_conns := (sy_conns ?sy)[0 := (c\<lparr>c_state := s1\<rparr>)\<lparr>c_state := s2\<rparr>],
      global_work_count := work_count s2\<rparr>)"
    by (rule system_step.thread) (use step(2) in simp_all)
  with step(3) show ?case
    by (simp add: rtranclp.rtrancl_into_rtrancl)
qed

lemma first_connection:
  assumes "safe_env env"
  shows "\<exists>sy c. (system_step env)\<^sup>*\<^sup>* system_init sy \<and> sy_conns sy = [c] \<and> c_open c
    \<and> c_state c = client_init \<and> global_work_count sy = work_count client_init"
proof -
  let ?addr = "\<lparr>sin_addr = ''10.0.0.7'', sin_port = 4000\<rparr>"
  have "addr_ok ?addr" "pool_ok CLIENT_COUNT (sv_flags server_init)"
    by (simp_all add: addr_ok_def server_init_def pool_init)
  moreover have "pool_busy (sv_flags server_init) \<noteq> {..<CLIENT_COUNT}"
    using lessThan_empty_iff [of "100 :: nat"] by (simp add: server_init_def pool_init CLIENT_COUNT_def)
  ultimately obtain evs sv' i where acc: "main_accept env server_init (Some (?addr, 5)) = Inr (evs, sv', Some i)"
    using main_accept_free [OF assms, of ?addr 5 server_init] by auto
  let ?sy = "system_init\<lparr>sy_server := sv',
    sy_conns := sy_conns system_init @ [\<lparr>c_slot = i, c_fd = 5, c_state = client_init, c_open = True\<rparr>]\<rparr>"
  have "system_step env system_init ?sy"
    by (rule system_step.accept [where addr = ?addr]) (use acc in \<open>simp add: system_init_def\<close>)
  then show ?thesis
    by (intro exI [of _ ?sy]) (auto simp: system_init_def client_init_def)
qed

lemma embed_client:
  assumes "safe_env env" "client_reach s"
  shows "\<exists>sy c. (system_step env)\<^sup>*\<^sup>* system_init sy \<and> sy_conns sy = [c] \<and> c_open c \<and> c_state c = s
    \<and> global_work_count sy = work_count s"
proof -
  obtain sy c where sy: "(system_step env)\<^sup>*\<^sup>* system_init sy" "sy_conns sy = [c]" "c_open c"
    "c_state c = client_init" "global_work_count sy = work_count client_init"
    using first_connection [OF assms(1)] by blast
  from rtranclp_trans [OF sy(1) embed_steps [OF assms(2) sy(2,4,5)]] sy(3) show ?thesis
    by (metis conn.select_convs(3,4) conn.simps(7) conn.surjective conn.update_convs(3) system.select_convs(2,3)
        system.surjective system.update_convs(2,3))
qed

section \<open>A connection that never ends\<close>

text \<open>The first connection is in a deadlock of its cleanup.\<close>

definition first_deadlocked :: "system \<Rightarrow> bool" where
  "first_deadlocked sy \<longleftrightarrow> sy_conns sy \<noteq> [] \<and> c_open (hd (sy_conns sy)) \<and> deadlocked (c_state (hd (sy_conns sy)))"

lemma deadlocked_work_count [simp]: "deadlocked (s\<lparr>work_count := n\<rparr>) = deadlocked s"
  by (simp add: deadlocked_def)

lemma hd_update: "k \<noteq> 0 \<Longrightarrow> hd (cs[k := c]) = hd cs"
  by (cases cs; cases k) simp_all

lemma first_deadlocked_other:
  assumes "first_deadlocked sy" "\<not> deadlocked (c_state (sy_conns sy ! k))"
  shows "hd ((sy_conns sy)[k := c]) = hd (sy_conns sy)"
proof (rule hd_update)
  show "k \<noteq> 0"
    using assms by (metis first_deadlocked_def hd_conv_nth)
qed

lemma first_deadlocked_step:
  assumes "system_step env sy sy'" "first_deadlocked sy"
  shows "first_deadlocked sy' \<and> c_slot (hd (sy_conns sy')) = c_slot (hd (sy_conns sy))"
  using assms(1)
proof cases
  case (thread k c s')
  have "\<not> deadlocked (c_state c)"
    using deadlocked_stuck [of "(c_state c)\<lparr>work_count := global_work_count sy\<rparr>"] thread(4) by auto
  with first_deadlocked_other [OF assms(2)] thread(1,3) assms(2) show ?thesis
    by (simp add: first_deadlocked_def)
next
  case (finish k c evs sv')
  then have "\<not> deadlocked (c_state c)"
    by (simp add: deadlocked_def)
  with first_deadlocked_other [OF assms(2)] finish(1,3) assms(2) show ?thesis
    by (simp add: first_deadlocked_def)
qed (use assms(2) in \<open>auto simp: first_deadlocked_def\<close>)

lemma first_deadlocked_later:
  "(system_step env)\<^sup>*\<^sup>* sy sy' \<Longrightarrow> first_deadlocked sy \<Longrightarrow>
    first_deadlocked sy' \<and> c_slot (hd (sy_conns sy')) = c_slot (hd (sy_conns sy))"
  by (induction rule: rtranclp_induct) (auto dest: first_deadlocked_step)

lemma open_slot: "c \<in> set cs \<Longrightarrow> c_open c \<Longrightarrow> c_slot c \<in> set (open_slots cs)"
  by (auto simp: open_slots_def)

section \<open>Properties\<close>



text \<open>
  Property C32. One client can take a slot of the server for ever: there is a reachable state of the
  server such that in every later state the same slot of the client pool is still marked as taken.
\<close>

theorem slot_lost:
  assumes "safe_env env"
  shows "\<exists>sy i. (system_step env)\<^sup>*\<^sup>* system_init sy
    \<and> (\<forall>sy'. (system_step env)\<^sup>*\<^sup>* sy sy' \<longrightarrow> i \<in> pool_busy (sv_flags (sy_server sy')))"
proof -
  obtain s where s: "client_reach s" "deadlocked s"
    using deadlock_reached by blast
  obtain sy c where sy: "(system_step env)\<^sup>*\<^sup>* system_init sy" "sy_conns sy = [c]" "c_open c" "c_state c = s"
    using embed_client [OF assms s(1)] by blast
  then have dl: "first_deadlocked sy" "c_slot (hd (sy_conns sy)) = c_slot c"
    using s(2) by (simp_all add: first_deadlocked_def)
  have "c_slot c \<in> pool_busy (sv_flags (sy_server sy'))" if "(system_step env)\<^sup>*\<^sup>* sy sy'" for sy'
  proof -
    have "system_inv sy'"
      using sys.reach [OF rtranclp_trans [OF sy(1) that]] .
    moreover have "first_deadlocked sy'" "c_slot (hd (sy_conns sy')) = c_slot c"
      using first_deadlocked_later [OF that dl(1)] dl(2) by simp_all
    then have "c_slot c \<in> set (open_slots (sy_conns sy'))"
      using open_slot [of "hd (sy_conns sy')" "sy_conns sy'"] by (simp add: first_deadlocked_def)
    ultimately show ?thesis
      by (simp add: system_inv_def)
  qed
  with sy(1) show ?thesis by blast
qed

theorem slot_lost_witness:
  "\<exists>sy i. (system_step sample_env)\<^sup>*\<^sup>* system_init sy \<and> i \<in> pool_busy (sv_flags (sy_server sy))"
  using slot_lost [OF safe_sample_env(1)] by blast

end
