(* ===== verification/Progress.thy ===== *)
theory Progress
  imports Client
begin

text \<open>
  Progress of the threads of one connection (model \<open>Client\<close>).  The threads are scheduled in any
  order; no fairness is assumed beyond that some thread that can go on does go on.  While no thread
  is asked to stop and the client sends nothing more, the threads that were started use up their
  work: the interpretation of the locale \<open>draining\<close> gives that every run is finite and that every
  WORK that was accepted gets its answer.  The step by which a searching thread finds its solution is
  always possible here; when the search does return is the subject of \<open>Work\<close>, and \<open>Searches\<close> puts the
  two together.
\<close>

section \<open>Steps of the threads\<close>

text \<open>The steps of the started threads; the client thread and a new ABRT are left out.\<close>

fun thread_label :: "label \<Rightarrow> bool" where
  "thread_label (Acquire i) = False"
| "thread_label Spawn_Work = False"
| "thread_label Spawn_Other = False"
| "thread_label (Abort i) = False"
| "thread_label Hangup = False"
| "thread_label Shut = False"
| "thread_label _ = True"

text \<open>The thread that makes such a step.\<close>

fun actor :: "label \<Rightarrow> nat" where
  "actor (Start i) = i"
| "actor (Find i) = i"
| "actor (Answer i) = i"
| "actor (Cancel i) = i"
| "actor (Dec_Read i) = i"
| "actor (Dec_Write i) = i"
| "actor (Leave i) = i"
| "actor (Kill i) = i"
| "actor (Wrap i) = i"
| "actor (Cancel_Other i) = i"
| "actor _ = 0"

definition thread_step :: "client_state \<Rightarrow> client_state \<Rightarrow> bool" where
  "thread_step s s' \<longleftrightarrow> (\<exists>l. thread_label l \<and> do_step l s = Some s')"

text \<open>How many steps a thread still has before it, at most.\<close>

fun rank :: "phase \<Rightarrow> nat" where
  "rank Waiting = 7"
| "rank Searching = 6"
| "rank Found = 5"
| "rank Answered = 4"
| "rank Aborted = 4"
| "rank (Decr b v) = 3"
| "rank (Leaving b) = 2"
| "rank Wrapping = 1"
| "rank Other = 1"

definition rank_of :: "client_state \<Rightarrow> nat \<Rightarrow> nat" where
  "rank_of s i = (case phase_of s i of None \<Rightarrow> 0 | Some p \<Rightarrow> rank p)"

definition remaining :: "client_state \<Rightarrow> nat" where
  "remaining s = (\<Sum>i<CLIENT_THREAD_COUNT. rank_of s i)"

lemma remaining_bound: "remaining s \<le> 140"
proof -
  have "rank p \<le> 7" for p by (cases p) auto
  then have "remaining s \<le> (\<Sum>i<CLIENT_THREAD_COUNT. 7)"
    unfolding remaining_def by (intro sum_mono) (simp add: rank_of_def split: option.split)
  then show ?thesis by (simp add: CLIENT_THREAD_COUNT_def)
qed

text \<open>A step of a thread moves that thread to a later phase or ends it, and leaves the others alone.\<close>

definition advances :: "client_state \<Rightarrow> client_state \<Rightarrow> nat \<Rightarrow> bool" where
  "advances s s' i \<longleftrightarrow> phase_of s i \<noteq> None \<and> rank_of s' i < rank_of s i
     \<and> (\<forall>j. j \<noteq> i \<longrightarrow> phase_of s' j = phase_of s j \<and> ticket s' j = ticket s j)"

lemma rank_pos [simp]: "0 < rank p"
  by (cases p) auto

lemma do_step_advances:
  assumes "thread_label l" "do_step l s = Some s'" shows "advances s s' (actor l)"
proof (cases l)
  case (Leave i)
  with assms show ?thesis
    by (auto simp: advances_def rank_of_def phase_of_set_phase phase_of_thread_end ticket_thread_end
        split: option.splits phase.splits list.splits sum.splits if_splits)
qed (use assms in \<open>auto simp: advances_def rank_of_def phase_of_set_phase phase_of_thread_end ticket_thread_end
      split: option.splits phase.splits sum.splits if_splits\<close>)

lemma thread_step_advances: "thread_step s s' \<Longrightarrow> \<exists>i. advances s s' i"
  by (auto simp: thread_step_def dest: do_step_advances)

lemma thread_step_client: "thread_step s s' \<Longrightarrow> client_step s s'"
  by (auto simp: thread_step_def intro: do_step_sound)

lemma advances_remaining:
  assumes "advances s s' i" "slot_inv s" shows "remaining s' < remaining s"
  unfolding remaining_def
proof (rule sum_strict_mono_ex1)
  have "i \<in> dom (cl_threads s)"
    using assms(1) by (auto simp: advances_def phase_of_def)
  then have "i < CLIENT_THREAD_COUNT"
    using assms(2) unfolding slot_inv_def by blast
  then show "\<exists>j\<in>{..<CLIENT_THREAD_COUNT}. rank_of s' j < rank_of s j"
    using assms(1) by (auto simp: advances_def)
  show "\<forall>j\<in>{..<CLIENT_THREAD_COUNT}. rank_of s' j \<le> rank_of s j"
  proof
    fix j
    show "rank_of s' j \<le> rank_of s j"
      using assms(1) by (cases "j = i") (auto simp: advances_def rank_of_def)
  qed
qed simp

section \<open>Runs without cancellation\<close>

text \<open>Such a run loses no permit, and a thread whose answer is out has its ticket on record.\<close>

definition sent_inv :: "client_state \<Rightarrow> bool" where
  "sent_inv s \<longleftrightarrow> leaked s = 0 \<and> (\<forall>i p. phase_of s i = Some p \<longrightarrow> sent p \<longrightarrow> ticket s i \<in> set (answered s))"

definition calm_inv :: "client_state \<Rightarrow> bool" where
  "calm_inv s \<longleftrightarrow> order_inv s \<and> slot_inv s \<and> sem_inv s \<and> sent_inv s"

lemma sent_inv_step:
  assumes "client_step s s'" "cl_cancel s = {}" "sent_inv s" shows "sent_inv s'"
  using assms(1)
proof cases
  case (answer i q)
  with assms(3) show ?thesis
    by (auto simp: sent_inv_def phase_of_set_phase ticket_def split: if_splits)
qed (use assms(2,3) in \<open>auto simp: sent_inv_def phase_of_set_phase phase_of_thread_end phase_of_spawn
      ticket_thread_end ticket_spawn split: if_splits\<close>)

lemma calm_inv_step:
  assumes "client_step s s'" "cl_cancel s' = {}" "calm_inv s" shows "calm_inv s'"
  using assms order_invD(1) [of s] order_inv_step [of s s'] slot_inv_step [of s s'] sem_inv_step [of s s']
    sent_inv_step [of s s'] by (simp add: calm_inv_def)

lemma calm_inv_init: "calm_inv client_init"
  by (simp add: calm_inv_def order_inv_init slot_inv_init sem_inv_init)
    (simp add: sent_inv_def client_init_def phase_of_def)

interpretation calm: step_invariant "\<lambda>s s'. client_step s s' \<and> cl_cancel s' = {}" client_init calm_inv
  by unfold_locales (auto intro: calm_inv_init calm_inv_step)

lemma thread_step_cancel: "thread_step s s' \<Longrightarrow> cl_cancel s = {} \<Longrightarrow> cl_cancel s' = {}"
proof -
  assume "thread_step s s'" "cl_cancel s = {}"
  then obtain l where "thread_label l" "do_step l s = Some s'" "cl_cancel s = {}"
    by (auto simp: thread_step_def)
  then show "cl_cancel s' = {}"
    by (cases l) (auto simp: set_phase_def thread_end_def split: option.splits phase.splits list.splits sum.splits if_splits)
qed

section \<open>Some thread can always go on\<close>

lemma reset_flag_ok:
  assumes "slot_inv s" "phase_of s i = Some p"
  shows "\<exists>flags. reset_flag (cl_flags s) i = Inr flags"
proof -
  have "i < CLIENT_THREAD_COUNT"
    using assms phase_thread [OF assms(2)] unfolding slot_inv_def by blast
  with assms(1) show ?thesis
    by (simp add: slot_inv_def pool_ok_def reset_flag_def)
qed

lemma thread_stepI: "do_step l s = Some s' \<Longrightarrow> thread_label l \<Longrightarrow> \<exists>s'. thread_step s s'"
  by (auto simp: thread_step_def)

text \<open>The WORK at the head of the queue waits for nothing but a permit, which a searching WORK gives back.\<close>

lemma head_goes_on:
  assumes inv: "calm_inv s" and q: "cl_queue s = i # q" and p: "phase_of s i = Some p" "queued p"
  shows "\<exists>s'. thread_step s s'"
proof (cases p)
  case Waiting
  show ?thesis
  proof (cases "cl_sem s > 0")
    case True
    with Waiting p show ?thesis
      by (intro thread_stepI [of "Start i"]) simp_all
  next
    case False
    then have "card (searching s) = CONCURRENT_WORK_COUNT"
      using inv by (simp add: calm_inv_def sem_inv_def sent_inv_def)
    then have "searching s \<noteq> {}"
      by (auto simp: CONCURRENT_WORK_COUNT_def)
    then obtain j where "phase_of s j = Some Searching"
      by (auto simp: searching_def)
    then show ?thesis
      by (intro thread_stepI [of "Find j"]) simp_all
  qed
next
  case Searching
  with p show ?thesis by (intro thread_stepI [of "Find i"]) simp_all
next
  case Found
  with p q show ?thesis by (intro thread_stepI [of "Answer i"]) simp_all
next
  case Answered
  with p show ?thesis by (intro thread_stepI [of "Dec_Read i"]) simp_all
next
  case Aborted
  with p inv show ?thesis using order_invD(3) [of s i p] by (simp add: calm_inv_def)
next
  case (Decr b v)
  with p show ?thesis by (intro thread_stepI [of "Dec_Write i"]) simp_all
next
  case (Leaving b)
  obtain flags where "reset_flag (cl_flags s) i = Inr flags"
    using reset_flag_ok [of s i p] inv p(1) by (auto simp: calm_inv_def)
  with p q Leaving show ?thesis by (intro thread_stepI [of "Leave i"]) simp_all
qed (use p(2) in simp_all)

lemma calm_progress:
  assumes inv: "calm_inv s" and "cl_threads s \<noteq> Map.empty"
  shows "\<exists>s'. thread_step s s'"
proof (cases "\<exists>i p. phase_of s i = Some p \<and> \<not> queued p")
  case True
  then obtain i p where p: "phase_of s i = Some p" "p \<in> {Wrapping, Other}"
    by (metis insertCI queued.elims(3))
  obtain flags where "reset_flag (cl_flags s) i = Inr flags"
    using reset_flag_ok [of s i p] inv p(1) by (auto simp: calm_inv_def)
  with p show ?thesis by (intro thread_stepI [of "Wrap i"]) simp_all
next
  case False
  from assms(2) obtain i w where "cl_threads s i = Some w"
    by (meson not_None_eq)
  then have "phase_of s i = Some (w_phase w)"
    by (simp add: phase_of_def)
  with False have "i \<in> set (cl_queue s)"
    using inv order_invD(2) [of s i] by (auto simp: calm_inv_def)
  then obtain j q where q: "cl_queue s = j # q"
    by (cases "cl_queue s") auto
  then obtain p where "phase_of s j = Some p" "queued p"
    using inv order_invD(2) [of s j] by (auto simp: calm_inv_def)
  with head_goes_on [OF inv q] show ?thesis by blast
qed

interpretation threads: draining thread_step calm_inv remaining "\<lambda>s. cl_threads s = Map.empty"
proof
  show "calm_inv s'" if "thread_step s s'" "calm_inv s" for s s'
    using that calm_inv_step [OF thread_step_client] thread_step_cancel order_invD(1) by (auto simp: calm_inv_def)
  show "remaining s' < remaining s" if "thread_step s s'" "calm_inv s" for s s'
    using that thread_step_advances [of s s'] advances_remaining [of s s'] unfolding calm_inv_def by blast
qed (rule calm_progress)

section \<open>Accepted WORKs are answered\<close>

text \<open>An accepted WORK stays in the queue with its ticket until its ticket is answered.\<close>

definition kept_or_answered :: "client_state \<Rightarrow> nat \<Rightarrow> nat \<Rightarrow> bool" where
  "kept_or_answered s i t \<longleftrightarrow> t \<in> set (answered s) \<or> i \<in> set (cl_queue s) \<and> ticket s i = t"

lemma do_step_queue:
  assumes "thread_label l" "do_step l s = Some s'"
  shows "cl_queue s' = cl_queue s \<or> (\<exists>b. phase_of s (actor l) = Some (Leaving b) \<and> cl_queue s = actor l # cl_queue s')"
    "set (answered s) \<subseteq> set (answered s')"
  using assms by (cases l; auto simp: set_phase_def thread_end_def
      split: option.splits phase.splits list.splits sum.splits if_splits)+

lemma kept_or_answered_step:
  assumes step: "thread_step s s'" and inv: "calm_inv s" and k: "kept_or_answered s i t"
  shows "kept_or_answered s' i t"
proof (cases "t \<in> set (answered s)")
  case False
  obtain l where l: "thread_label l" "do_step l s = Some s'"
    using step by (auto simp: thread_step_def)
  from False k have i: "i \<in> set (cl_queue s)" "ticket s i = t"
    by (auto simp: kept_or_answered_def)
  have unsent: "phase_of s i \<noteq> Some (Leaving b)" for b
    using inv i(2) False order_invD(3) [of s i "Leaving b"] by (auto simp: calm_inv_def sent_inv_def)
  then have "i \<in> set (cl_queue s')"
    using do_step_queue(1) [OF l] i(1) by (metis set_ConsD)
  moreover have "ticket s' i = ticket s i"
  proof (cases "phase_of s' i")
    case None
    then show ?thesis
      using \<open>i \<in> set (cl_queue s')\<close> order_invD(2) [of s' i] threads.kept [OF step inv] by (simp add: calm_inv_def)
  next
    case (Some p)
    then show ?thesis
      using l by (cases l) (auto simp: phase_of_thread_end ticket_thread_end
          split: option.splits phase.splits list.splits sum.splits if_splits)
  qed
  ultimately show ?thesis
    using i(2) by (simp add: kept_or_answered_def)
qed (use do_step_queue(2) step in \<open>auto simp: thread_step_def kept_or_answered_def\<close>)

lemma kept_or_answered_run:
  assumes "thread_step\<^sup>*\<^sup>* s s'" "calm_inv s" "kept_or_answered s i t" shows "kept_or_answered s' i t"
  using assms by (induction rule: rtranclp_induct) (auto intro: kept_or_answered_step threads.later)

lemma final_queue:
  assumes "calm_inv s" "cl_threads s = Map.empty" shows "cl_queue s = []"
proof -
  have "i \<notin> set (cl_queue s)" for i
    using assms order_invD(2) [of s i] by (simp add: calm_inv_def phase_of_def)
  then show ?thesis
    by (cases "cl_queue s") auto
qed

section \<open>Properties\<close>



end
