(* ===== verification/Abort.thy ===== *)
theory Abort
  imports Progress
begin

text \<open>
  The loop of \<open>abrt_handler\<close> at the grain at which it runs.  It does not take the mutex of the queue,
  so the threads of the connection and the client thread move between any two of its memory
  accesses.  The state joins the threads of the connection (\<open>Client\<close>), the linked list in the heap
  (\<open>Tid_Queue\<close>) and the position of each thread that executes \<open>abrt_handler\<close>.  Without interference
  the loop is the atomic step of \<open>Client\<close>; with interference it can read a node that was freed.
\<close>

section \<open>State and steps\<close>

text \<open>
  A walk is before \<open>pthread_cancel(thread_pool[curr->thread_id])\<close> or before \<open>curr = curr->next\<close>, with
  the value of \<open>curr\<close>.
\<close>

datatype walk = At ptr | Sent ptr

record abrt_sys =
  as_client :: client_state
  as_queue :: tid_queue
  as_walk :: "nat \<rightharpoonup> walk"
  as_fault :: bool

definition abrt_init :: abrt_sys where
  "abrt_init = \<lparr>as_client = client_init, as_queue = empty_queue, as_walk = Map.empty, as_fault = False\<rparr>"

text \<open>
  What a step of the connection does to the linked list: \<open>push_tid\<close> when the client thread accepts a
  WORK, with the address \<open>a\<close> from \<open>malloc\<close>, and \<open>rm_tid\<close> at the end of a WORK.
\<close>

fun queue_effect :: "label \<Rightarrow> ptr \<Rightarrow> client_state \<Rightarrow> tid_queue \<Rightarrow> tid_queue c_result option" where
  "queue_effect Spawn_Work a s q = (case cl_pc s of Acquired i \<Rightarrow> push_tid a q (int i) | _ \<Rightarrow> Some (Inr q))"
| "queue_effect (Leave i) a s q = Some (rm_tid q)"
| "queue_effect _ a s q = Some (Inr q)"

fun atomic_abort :: "label \<Rightarrow> bool" where
  "atomic_abort (Abort i) = True"
| "atomic_abort _ = False"

datatype abrt_label = Move ptr label | Walk_Start nat | Walk nat

text \<open>One memory access of the loop in thread \<open>i\<close>; \<open>curr\<close> is read before each round.\<close>

definition walk_access :: "nat \<Rightarrow> walk \<Rightarrow> abrt_sys \<Rightarrow> abrt_sys" where
  "walk_access i w x =
     (case w of
        At p \<Rightarrow>
          if p = NULL then x\<lparr>as_walk := (as_walk x)(i := None)\<rparr>
          else (case q_heap (as_queue x) p of
              None \<Rightarrow> x\<lparr>as_fault := True\<rparr>
            | Some nd \<Rightarrow> x\<lparr>as_client := pthread_cancel (nat (thread_id nd)) (as_client x),
                            as_walk := (as_walk x)(i \<mapsto> Sent p)\<rparr>)
      | Sent p \<Rightarrow>
          (case q_heap (as_queue x) p of
              None \<Rightarrow> x\<lparr>as_fault := True\<rparr>
            | Some nd \<Rightarrow> x\<lparr>as_walk := (as_walk x)(i \<mapsto> At (next_node nd))\<rparr>))"

text \<open>
  A thread that is in the loop makes no other step: the loop has no cancellation point.  Nothing
  is said about the program after an access to freed memory.
\<close>

fun abrt_do :: "abrt_label \<Rightarrow> abrt_sys \<Rightarrow> abrt_sys option" where
  "abrt_do (Move a l) x =
     (if as_fault x \<or> atomic_abort l \<or> thread_label l \<and> as_walk x (actor l) \<noteq> None \<or> \<not> queue_fresh (as_queue x) a
      then None
      else case do_step l (as_client x) of
          None \<Rightarrow> None
        | Some s \<Rightarrow> (case queue_effect l a (as_client x) (as_queue x) of
              None \<Rightarrow> None
            | Some (Inl e) \<Rightarrow> Some (x\<lparr>as_fault := True\<rparr>)
            | Some (Inr q) \<Rightarrow> Some (x\<lparr>as_client := s, as_queue := q\<rparr>)))"
| "abrt_do (Walk_Start i) x =
     (if as_fault x \<or> phase_of (as_client x) i \<noteq> Some Other \<or> as_walk x i \<noteq> None then None
      else Some (x\<lparr>as_walk := (as_walk x)(i \<mapsto> At (q_head (as_queue x)))\<rparr>))"
| "abrt_do (Walk i) x =
     (if as_fault x then None
      else case as_walk x i of None \<Rightarrow> None | Some w \<Rightarrow> Some (walk_access i w x))"

definition abrt_step :: "abrt_sys \<Rightarrow> abrt_sys \<Rightarrow> bool" where
  "abrt_step x x' \<longleftrightarrow> (\<exists>l. abrt_do l x = Some x')"

fun abrt_run :: "abrt_label list \<Rightarrow> abrt_sys \<Rightarrow> abrt_sys option" where
  "abrt_run [] x = Some x"
| "abrt_run (l # ls) x = (case abrt_do l x of None \<Rightarrow> None | Some x' \<Rightarrow> abrt_run ls x')"

lemma abrt_run_append:
  "abrt_run (ls @ ms) x = (case abrt_run ls x of None \<Rightarrow> None | Some x' \<Rightarrow> abrt_run ms x')"
  by (induction ls arbitrary: x) (auto split: option.splits)

lemma abrt_run_reach: "abrt_run ls x = Some x' \<Longrightarrow> abrt_step\<^sup>*\<^sup>* x x'"
proof (induction ls arbitrary: x)
  case (Cons l ls)
  then obtain y where "abrt_do l x = Some y" "abrt_step\<^sup>*\<^sup>* y x'"
    by (auto split: option.splits)
  then show ?case
    by (metis abrt_step_def converse_rtranclp_into_rtranclp)
qed simp

section \<open>The linked list follows the model\<close>

definition abrt_inv :: "abrt_sys \<Rightarrow> bool" where
  "abrt_inv x \<longleftrightarrow> slot_inv (as_client x) \<and> sem_inv (as_client x)
     \<and> queue_holds (as_queue x) (map int (cl_queue (as_client x)))
     \<and> (\<forall>i. as_walk x i \<noteq> None \<longrightarrow> phase_of (as_client x) i = Some Other)"

lemma inv_cancel_fields [simp]:
  "slot_inv (s\<lparr>cl_cancel := C\<rparr>) = slot_inv s" "sem_inv (s\<lparr>cl_cancel := C\<rparr>) = sem_inv s"
  by (simp_all add: slot_inv_def sem_inv_def)

text \<open>Only the thread that makes a step changes its phase; starting a thread needs an empty slot.\<close>

lemma other_stays:
  assumes "do_step l s = Some s'" "phase_of s i = Some Other" "thread_label l \<longrightarrow> actor l \<noteq> i"
  shows "phase_of s' i = Some Other"
proof (cases "thread_label l")
  case True
  with do_step_advances [OF True assms(1)] assms(2,3) show ?thesis
    by (simp add: advances_def)
next
  case False
  with assms show ?thesis
    by (cases l) (auto simp: phase_of_spawn phase_None split: option.splits sum.splits client_pc.splits if_splits)
qed

lemma queue_effect_holds:
  assumes "do_step l s = Some s'" "queue_holds q (map int (cl_queue s))" "queue_fresh q a" "\<not> atomic_abort l"
  shows "\<exists>q'. queue_effect l a s q = Some (Inr q') \<and> queue_holds q' (map int (cl_queue s'))"
proof (cases l)
  case Spawn_Work
  with assms obtain i where i: "cl_pc s = Acquired i" "cl_queue s' = cl_queue s @ [i]"
    by (auto split: client_pc.splits if_splits)
  with Spawn_Work tidq.push [OF assms(2,3), of "int i"] show ?thesis by auto
next
  case (Leave i)
  with assms(1) have "cl_queue s' = tl (cl_queue s)"
    by (auto split: option.splits phase.splits list.splits sum.splits if_splits)
  with Leave tidq.rm [OF assms(2)] show ?thesis by (auto simp: map_tl)
qed (use assms in \<open>auto simp: set_phase_def thread_end_def spawn_def
      split: option.splits phase.splits sum.splits client_pc.splits if_splits\<close>)

lemma abrt_inv_step:
  assumes "abrt_step x x'" "abrt_inv x" shows "abrt_inv x'"
proof -
  from assms(1) obtain l where l: "abrt_do l x = Some x'"
    by (auto simp: abrt_step_def)
  show ?thesis
  proof (cases l)
    case (Move a m)
    with l obtain s where s: "do_step m (as_client x) = Some s" "queue_fresh (as_queue x) a" "\<not> atomic_abort m"
        "thread_label m \<longrightarrow> as_walk x (actor m) = None"
      by (auto split: option.splits if_splits)
    then obtain q where q: "queue_effect m a (as_client x) (as_queue x) = Some (Inr q)" "queue_holds q (map int (cl_queue s))"
      using queue_effect_holds [OF s(1) _ s(2,3)] assms(2) unfolding abrt_inv_def by blast
    have x': "x' = x\<lparr>as_client := s, as_queue := q\<rparr>"
      using l Move s q by (simp split: if_splits)
    have step: "client_step (as_client x) s"
      using s(1) by (rule do_step_sound)
    have "phase_of s i = Some Other" if "as_walk x i \<noteq> None" for i
      using that assms(2) s(4) by (intro other_stays [OF s(1)]) (auto simp: abrt_inv_def)
    then show ?thesis
      using assms(2) x' q(2) slot_inv_step [OF step] sem_inv_step [OF step] by (simp add: abrt_inv_def)
  next
    case (Walk_Start i)
    with l assms(2) show ?thesis
      by (auto simp: abrt_inv_def split: if_splits)
  next
    case (Walk i)
    with l obtain w where "as_walk x i = Some w" "x' = walk_access i w x"
      by (auto split: option.splits if_splits)
    with assms(2) show ?thesis
      by (auto simp: abrt_inv_def walk_access_def split: walk.splits option.splits if_splits)
  qed
qed

lemma abrt_inv_init: "abrt_inv abrt_init"
  by (simp add: abrt_inv_def abrt_init_def slot_inv_init sem_inv_init)
    (simp add: client_init_def queue_holds_empty)

interpretation abrt: step_invariant abrt_step abrt_init abrt_inv
  by unfold_locales (rule abrt_inv_init, rule abrt_inv_step)

section \<open>A walk without interference\<close>

lemma walk_chain:
  assumes "chain (q_heap (as_queue x)) p xs" "\<not> as_fault x" "as_walk x i = Some (At p)"
  shows "abrt_run (replicate (Suc (2 * length xs)) (Walk i)) x =
    Some (x\<lparr>as_client := cancel_threads (map (nat \<circ> snd) xs) (as_client x), as_walk := (as_walk x)(i := None)\<rparr>)"
  using assms
proof (induction xs arbitrary: p x)
  case Nil
  then show ?case by (simp add: walk_access_def fun_upd_def)
next
  case (Cons y ys)
  then obtain n where n: "p \<noteq> NULL" "q_heap (as_queue x) p = Some \<lparr>thread_id = snd y, next_node = n\<rparr>"
      "chain (q_heap (as_queue x)) n ys"
    by auto
  let ?x = "x\<lparr>as_client := pthread_cancel (nat (snd y)) (as_client x), as_walk := (as_walk x)(i \<mapsto> At n)\<rparr>"
  have two: "abrt_run [Walk i, Walk i] x = Some ?x"
    using n(1,2) Cons.prems(2,3) by (simp add: walk_access_def)
  have "replicate (Suc (2 * length (y # ys))) (Walk i) = [Walk i, Walk i] @ replicate (Suc (2 * length ys)) (Walk i)"
    by simp
  then have "abrt_run (replicate (Suc (2 * length (y # ys))) (Walk i)) x =
      abrt_run (replicate (Suc (2 * length ys)) (Walk i)) ?x"
    by (simp only: abrt_run_append two option.case)
  also have "\<dots> =
      Some (?x\<lparr>as_client := cancel_threads (map (nat \<circ> snd) ys) (as_client ?x), as_walk := (as_walk ?x)(i := None)\<rparr>)"
    using n(3) Cons.prems(2) by (intro Cons.IH [of ?x n]) simp_all
  also have "cancel_threads (map (nat \<circ> snd) ys) (as_client ?x) = cancel_threads (map (nat \<circ> snd) (y # ys)) (as_client x)"
    by (simp add: cancel_threads_def del: cancel_threads_eq pthread_cancel_def)
  also have "?x\<lparr>as_client := s, as_walk := (as_walk ?x)(i := None)\<rparr> =
      x\<lparr>as_client := s, as_walk := (as_walk x)(i := None)\<rparr>" for s
    by simp
  finally show ?case .
qed

section \<open>Properties\<close>

text \<open>
  Property C18. If nothing interferes, the loop of \<open>abrt_handler\<close> over the linked list ends, follows
  only valid pointers and has the effect of the atomic ABRT step of the model \<open>Client\<close>: every thread
  in the queue that has not ended is asked to stop, nothing else changes.
\<close>

theorem abrt_walk_atomic:
  assumes "queue_holds (as_queue x) (map int (cl_queue (as_client x)))" "\<not> as_fault x"
    "phase_of (as_client x) i = Some Other" "as_walk x i = None"
  shows "\<exists>n s. abrt_run (Walk_Start i # replicate n (Walk i)) x = Some (x\<lparr>as_client := s\<rparr>)
    \<and> do_step (Abort i) (as_client x) = Some s"
proof -
  obtain xs where xs: "chain (q_heap (as_queue x)) (q_head (as_queue x)) xs"
      "map snd xs = map int (cl_queue (as_client x))"
    using assms(1) by (auto simp: queue_holds_def)
  have ids: "map (nat \<circ> snd) xs = cl_queue (as_client x)"
    using arg_cong [OF xs(2), of "map nat"] by (simp add: comp_def)
  let ?x = "x\<lparr>as_walk := (as_walk x)(i \<mapsto> At (q_head (as_queue x)))\<rparr>"
  have "abrt_run (replicate (Suc (2 * length xs)) (Walk i)) ?x =
      Some (x\<lparr>as_client := cancel_threads (cl_queue (as_client x)) (as_client x)\<rparr>)"
    using walk_chain [of ?x, OF _ _, of "q_head (as_queue x)" xs i] xs(1) assms(2,4)
    by (simp add: ids fun_upd_idem del: cancel_threads_eq)
  with assms(2-4) show ?thesis
    by (intro exI [of _ "Suc (2 * length xs)"] exI) (simp del: cancel_threads_eq replicate.simps)
qed

definition abort_schedule :: "abrt_label list" where
  "abort_schedule = map (Move 5) [Acquire 0, Spawn_Work] @ map (Move 6) [Acquire 1, Spawn_Other]"

theorem abrt_walk_atomic_witness:
  "\<exists>x n s. abrt_run abort_schedule abrt_init = Some x
    \<and> abrt_run (Walk_Start 1 # replicate n (Walk 1)) x = Some (x\<lparr>as_client := s\<rparr>)
    \<and> do_step (Abort 1) (as_client x) = Some s"
proof -
  have "map_option (\<lambda>x. (as_fault x, phase_of (as_client x) 1, as_walk x 1)) (abrt_run abort_schedule abrt_init)
      = Some (False, Some Other, None)"
    by code_simp
  then obtain x where x: "abrt_run abort_schedule abrt_init = Some x" "\<not> as_fault x"
      "phase_of (as_client x) 1 = Some Other" "as_walk x 1 = None"
    by auto
  have "queue_holds (as_queue x) (map int (cl_queue (as_client x)))"
    using abrt.reach [OF abrt_run_reach [OF x(1)]] by (simp add: abrt_inv_def)
  from abrt_walk_atomic [OF this x(2-4)] x(1) show ?thesis
    by blast
qed

text \<open>
  Property C35. With threads that run meanwhile the loop is not safe.  The thread that it has just asked
  to stop can remove itself from the queue, and \<open>rm_tid\<close> frees its node, before the loop reads
  \<open>curr->next\<close> from that node: from the start of a connection a state is reachable in which thread 1,
  executing ABRT, is about to read the freed node of WORK 0.
\<close>

theorem abrt_use_after_free:
  "\<exists>x p. abrt_step\<^sup>*\<^sup>* abrt_init x \<and> as_walk x 1 = Some (Sent p) \<and> q_heap (as_queue x) p = None
    \<and> map_option as_fault (abrt_do (Walk 1) x) = Some True"
proof -
  let ?ls = "abort_schedule @ [Walk_Start 1, Walk 1] @ map (Move 6) [Cancel 0, Dec_Read 0, Dec_Write 0, Leave 0]"
  have "map_option (\<lambda>x. (as_walk x 1, q_heap (as_queue x) 5, map_option as_fault (abrt_do (Walk 1) x)))
      (abrt_run ?ls abrt_init) = Some (Some (Sent 5), None, Some True)"
    by code_simp
  then obtain x where "abrt_run ?ls abrt_init = Some x" "as_walk x 1 = Some (Sent 5)"
      "q_heap (as_queue x) 5 = None" "map_option as_fault (abrt_do (Walk 1) x) = Some True"
    by auto
  then show ?thesis
    using abrt_run_reach by blast
qed

end
