(* ===== verification/Closing.thy ===== *)
theory Closing
  imports Progress
begin

text \<open>
  The end of a connection (\<open>client_handler_cleanup\<close>, model \<open>Client\<close>): the client thread cancels and joins
  its threads slot by slot while they go on.  With at most one WORK in the queue this always
  ends, as an interpretation of the locale \<open>draining\<close>; with two it may hang, and the bound is sharp.
\<close>

section \<open>Steps after the end of the connection\<close>

definition closing_step :: "client_state \<Rightarrow> client_state \<Rightarrow> bool" where
  "closing_step s s' \<longleftrightarrow> thread_step s s' \<or> do_step Shut s = Some s'"

text \<open>How many steps the client thread still has before it, at most.\<close>

fun closing_rank :: "client_pc \<Rightarrow> nat" where
  "closing_rank (Closing i) = 2 * (CLIENT_THREAD_COUNT - i) + 1"
| "closing_rank (Joining i) = 2 * (CLIENT_THREAD_COUNT - i)"
| "closing_rank _ = 0"

definition closing_work :: "client_state \<Rightarrow> nat" where
  "closing_work s = remaining s + closing_rank (cl_pc s)"

fun is_closing :: "client_pc \<Rightarrow> bool" where
  "is_closing (Closing i) = True"
| "is_closing (Joining i) = True"
| "is_closing Closed = True"
| "is_closing _ = False"

section \<open>Invariants\<close>

text \<open>
  A WORK that has not removed itself is in the queue, and the thread that the client thread waits
  for was asked to stop.
\<close>

definition asked_inv :: "client_state \<Rightarrow> bool" where
  "asked_inv s \<longleftrightarrow> (\<forall>i p. phase_of s i = Some p \<longrightarrow> queued p \<longrightarrow> i \<in> set (cl_queue s))
     \<and> (\<forall>i. cl_pc s = Joining i \<longrightarrow> phase_of s i \<noteq> None \<longrightarrow> i \<in> cl_cancel s)"

lemma fields_of_steps [simp]:
  "cl_queue (set_phase i p s) = cl_queue s" "cl_queue (thread_end i s) = cl_queue s" "cl_queue (spawn i p s) = cl_queue s"
  "cl_cancel (set_phase i p s) = cl_cancel s" "cl_cancel (thread_end i s) = cl_cancel s - {i}"
  "cl_cancel (spawn i p s) = cl_cancel s"
  by (simp_all add: step_ops)

lemma asked_inv_step:
  assumes "client_step s s'" "asked_inv s" shows "asked_inv s'"
  using assms(1)
proof cases
  case (leave i b q flags)
  with assms(2) show ?thesis
    by (cases b) (auto simp: asked_inv_def phase_of_set_phase phase_of_thread_end split: if_splits)
qed (use assms(2) in \<open>auto simp: asked_inv_def phase_of_set_phase phase_of_thread_end phase_of_spawn phase_None
      split: if_splits\<close>)

lemma asked_inv_init: "asked_inv client_init"
  by (simp add: asked_inv_def client_init_def phase_of_def)

interpretation asked: step_invariant client_step client_init asked_inv
  by unfold_locales (rule asked_inv_init, rule asked_inv_step)

text \<open>A closing connection with at most one WORK.\<close>

definition lone_inv :: "client_state \<Rightarrow> bool" where
  "lone_inv s \<longleftrightarrow> asked_inv s \<and> slot_inv s \<and> is_closing (cl_pc s) \<and> length (cl_queue s) \<le> 1"

lemma closing_step_client: "closing_step s s' \<Longrightarrow> client_step s s'"
  unfolding closing_step_def by (elim disjE) (rule thread_step_client do_step_sound; assumption)+

lemma thread_step_pc: "thread_step s s' \<Longrightarrow> cl_pc s' = cl_pc s"
proof -
  assume "thread_step s s'"
  then obtain l where "thread_label l" "do_step l s = Some s'"
    by (auto simp: thread_step_def)
  then show ?thesis
    by (cases l) (auto simp: set_phase_def thread_end_def split: option.splits phase.splits list.splits sum.splits if_splits)
qed

lemma thread_step_queue: "thread_step s s' \<Longrightarrow> length (cl_queue s') \<le> length (cl_queue s)"
  by (auto simp: thread_step_def dest: do_step_queue(1))

text \<open>A step of the client thread uses up its own work and leaves the threads alone.\<close>

lemma shut_step:
  assumes "do_step Shut s = Some s'" "slot_inv s"
  shows "closing_rank (cl_pc s') < closing_rank (cl_pc s)" "phase_of s' = phase_of s" "cl_queue s' = cl_queue s"
    "is_closing (cl_pc s')"
  using assms by (auto simp: slot_inv_def split: client_pc.splits if_splits)

lemma remaining_phase: "phase_of s' = phase_of s \<Longrightarrow> remaining s' = remaining s"
  by (simp add: remaining_def rank_of_def)

lemma closing_step_work:
  assumes "closing_step s s'" "slot_inv s" shows "closing_work s' < closing_work s"
  using assms(1) unfolding closing_step_def
proof
  assume "thread_step s s'"
  then obtain i where "advances s s' i" "cl_pc s' = cl_pc s"
    using thread_step_advances thread_step_pc by blast
  with advances_remaining [OF _ assms(2)] show ?thesis
    by (simp add: closing_work_def)
next
  assume shut: "do_step Shut s = Some s'"
  show ?thesis
    using shut_step(1) [OF shut assms(2)] remaining_phase [OF shut_step(2) [OF shut assms(2)]]
    by (simp add: closing_work_def)
qed

lemma lone_inv_step:
  assumes "closing_step s s'" "lone_inv s" shows "lone_inv s'"
proof -
  have "is_closing (cl_pc s') \<and> length (cl_queue s') \<le> 1"
    using assms(1) unfolding closing_step_def
  proof
    assume "thread_step s s'"
    with assms(2) thread_step_queue [of s s'] thread_step_pc [of s s'] show ?thesis
      by (auto simp: lone_inv_def)
  next
    assume "do_step Shut s = Some s'"
    with assms(2) shut_step [of s s'] show ?thesis
      by (simp add: lone_inv_def)
  qed
  then show ?thesis
    using assms(2) asked_inv_step [OF closing_step_client [OF assms(1)]] slot_inv_step [OF closing_step_client [OF assms(1)]]
    by (simp add: lone_inv_def)
qed

section \<open>The cleanup can always go on\<close>

text \<open>A thread that was asked to stop can go on, unless another WORK is before it in the queue.\<close>

lemma asked_goes_on:
  assumes inv: "lone_inv s" and p: "phase_of s i = Some p" and c: "i \<in> cl_cancel s"
  shows "\<exists>s'. thread_step s s'"
proof (cases "queued p")
  case False
  then have "p = Wrapping \<or> p = Other"
    by (cases p) simp_all
  moreover obtain flags where "reset_flag (cl_flags s) i = Inr flags"
    using reset_flag_ok [of s i p] inv p by (auto simp: lone_inv_def)
  ultimately show ?thesis
    using p by (intro thread_stepI [of "Wrap i"]) auto
next
  case True
  then have "i \<in> set (cl_queue s)"
    using inv p by (auto simp: lone_inv_def asked_inv_def)
  then have q: "cl_queue s = [i]"
    using inv by (cases "cl_queue s") (auto simp: lone_inv_def)
  show ?thesis
  proof (cases p)
    case (Leaving b)
    obtain flags where "reset_flag (cl_flags s) i = Inr flags"
      using reset_flag_ok [of s i p] inv p by (auto simp: lone_inv_def)
    with p q Leaving show ?thesis by (intro thread_stepI [of "Leave i"]) simp_all
  next
    case (Decr b v)
    with p show ?thesis by (intro thread_stepI [of "Dec_Write i"]) simp_all
  next
    case Answered
    with p show ?thesis by (intro thread_stepI [of "Dec_Read i"]) simp_all
  next
    case Aborted
    with p show ?thesis by (intro thread_stepI [of "Dec_Read i"]) simp_all
  next
    case Waiting
    with p c show ?thesis by (intro thread_stepI [of "Cancel i"]) simp_all
  next
    case Searching
    with p c show ?thesis by (intro thread_stepI [of "Cancel i"]) simp_all
  next
    case Found
    with p c show ?thesis by (intro thread_stepI [of "Cancel i"]) simp_all
  qed (use True in simp_all)
qed

lemma closing_progress:
  assumes inv: "lone_inv s" and unclosed: "cl_pc s \<noteq> Closed" shows "\<exists>s'. closing_step s s'"
proof (cases "\<exists>s'. do_step Shut s = Some s'")
  case True
  then show ?thesis by (auto simp: closing_step_def)
next
  case False
  have "is_closing (cl_pc s)" "pc_ok (cl_pc s)"
    using inv by (simp_all add: lone_inv_def slot_inv_def)
  with False unclosed obtain i w where i: "cl_pc s = Joining i" "cl_threads s i = Some w"
    by (cases "cl_pc s") (auto split: if_splits)
  then have p: "phase_of s i = Some (w_phase w)"
    by (simp add: phase_of_def)
  then have "i \<in> cl_cancel s"
    using inv i(1) by (auto simp: lone_inv_def asked_inv_def)
  with asked_goes_on [OF inv p] show ?thesis
    by (auto simp: closing_step_def)
qed

interpretation closing: draining closing_step lone_inv closing_work "\<lambda>s. cl_pc s = Closed"
proof
  show "closing_work s' < closing_work s" if "closing_step s s'" "lone_inv s" for s s'
    using that closing_step_work by (simp add: lone_inv_def)
qed (use lone_inv_step closing_progress in blast)+

section \<open>Properties\<close>

text \<open>
  Property C20. The cleanup of a connection ends when at most one WORK is in the queue at the end of
  the connection: the client thread and the threads, in any order, stop after at most 181 steps, and
  when none of them can go on, the cleanup has ended.  No permit and no cancellation on the way
  can prevent this.
\<close>

theorem cleanup_ends:
  assumes "client_reach s" "cl_pc s = Closing 0" "length (cl_queue s) \<le> 1"
  shows "(\<forall>n s'. (closing_step ^^ n) s s' \<longrightarrow> n \<le> 181)
    \<and> (\<exists>s'. closing_step\<^sup>*\<^sup>* s s' \<and> \<not> (\<exists>t. closing_step s' t))
    \<and> (\<forall>s'. closing_step\<^sup>*\<^sup>* s s' \<and> \<not> (\<exists>t. closing_step s' t) \<longrightarrow> cl_pc s' = Closed)"
proof (intro conjI allI impI)
  have inv: "lone_inv s"
    using assms asked.reach [OF assms(1)] slots.reach [OF assms(1)] by (simp add: lone_inv_def)
  have "closing_work s \<le> 181"
    using remaining_bound [of s] assms(2) by (simp add: closing_work_def CLIENT_THREAD_COUNT_def)
  then show "n \<le> 181" if "(closing_step ^^ n) s s'" for n s'
    using closing.bounded [OF that inv] by simp
  show "\<exists>s'. closing_step\<^sup>*\<^sup>* s s' \<and> \<not> (\<exists>t. closing_step s' t)"
    using closing.ends [OF inv] by blast
  show "cl_pc s' = Closed" if "closing_step\<^sup>*\<^sup>* s s' \<and> \<not> (\<exists>t. closing_step s' t)" for s'
    using closing.stuck_final inv that by blast
qed

theorem cleanup_ends_witness:
  "\<exists>s s'. run_schedule [Acquire 0, Spawn_Work, Start 0, Acquire 1, Spawn_Other, Hangup] client_init = Some s
    \<and> closing_step\<^sup>*\<^sup>* s s' \<and> cl_pc s' = Closed"
proof -
  let ?ls = "[Acquire 0, Spawn_Work, Start 0, Acquire 1, Spawn_Other, Hangup]"
  have "map_option (\<lambda>s. (cl_pc s, cl_queue s)) (run_schedule ?ls client_init) = Some (Closing 0, [0])"
    by code_simp
  then obtain s where s: "run_schedule ?ls client_init = Some s" "cl_pc s = Closing 0" "cl_queue s = [0]"
    by auto
  from cleanup_ends [OF run_schedule_reach [OF s(1)] s(2)] s show ?thesis
    by auto
qed

text \<open>A closing connection whose second WORK waits behind the id of one that was killed.\<close>

definition hung :: "client_state \<Rightarrow> bool" where
  "hung s \<longleftrightarrow> cl_pc s = Joining 1 \<and> cl_queue s = [0, 1] \<and> (\<forall>i p. phase_of s i = Some p \<longleftrightarrow> i = 1 \<and> p = Leaving False)"

lemma hung_stuck: "hung s \<Longrightarrow> \<not> client_step s s'"
proof
  assume h: "hung s"
  then have phases: "phase_of s i = Some p \<longleftrightarrow> i = 1 \<and> p = Leaving False" for i p
    by (simp add: hung_def)
  then have alive: "cl_threads s 1 \<noteq> None"
    using phases [of 1] by (auto simp: phase_of_def)
  have rest: "cl_pc s = Joining 1" "cl_queue s = [0, 1]"
    using h by (simp_all add: hung_def)
  assume "client_step s s'"
  then show False
    by cases (use rest alive in \<open>simp_all add: phases\<close>)
qed

lemma run_closing:
  "run_schedule ls s = Some s' \<Longrightarrow> list_all (\<lambda>l. thread_label l \<or> l = Shut) ls \<Longrightarrow> closing_step\<^sup>*\<^sup>* s s'"
proof (induction ls arbitrary: s)
  case (Cons l ls)
  then obtain t where t: "do_step l s = Some t" "closing_step\<^sup>*\<^sup>* t s'"
    by (auto split: option.splits)
  then have "closing_step s t"
    using Cons.prems(2) by (auto simp: closing_step_def thread_step_def)
  with t(2) show ?case
    by (rule converse_rtranclp_into_rtranclp [rotated])
qed simp

lemma calm_client: "calm_reach s \<Longrightarrow> client_reach s"
  by (rule rtranclp_mono [THEN predicate2D, rotated]) blast+

definition answer_schedule :: "label list" where
  "answer_schedule = [Acquire 0, Spawn_Work, Acquire 1, Spawn_Work, Start 0, Find 0, Answer 0, Dec_Read 0, Dec_Write 0, Hangup]"

definition hang_schedule :: "label list" where
  "hang_schedule = [Shut, Kill 0, Shut, Shut, Cancel 1, Dec_Read 1, Dec_Write 1]"

text \<open>
  Property C36. The bound is sharp.  A client that sends two WORKs and hangs up just after the answer to
  the first one leaves the server in a state in which its cleanup waits for ever: the first WORK is
  cancelled while it waits for its batches in its own cleanup handler, its id stays at the head of
  the queue, the second WORK waits for its turn, and the client thread waits for the second WORK.
  Up to the end of the connection no thread is asked to stop.
\<close>

theorem cleanup_hangs:
  "\<exists>s s'. calm_reach s \<and> cl_pc s = Closing 0 \<and> length (cl_queue s) = 2
    \<and> closing_step\<^sup>*\<^sup>* s s' \<and> cl_pc s' = Joining 1 \<and> \<not> (\<exists>t. client_step s' t)"
proof -
  let ?ps = "[None, Some (Leaving False)] @ replicate 18 None"
  have "Option.bind (run_calm answer_schedule client_init) (\<lambda>s. map_option
      (\<lambda>s'. ((cl_pc s, cl_queue s), (cl_pc s', cl_queue s'), map (phase_of s') [0..<20])) (run_schedule hang_schedule s))
    = Some ((Closing 0, [0, 1]), (Joining 1, [0, 1]), ?ps)"
    by code_simp
  then obtain s s' where s: "run_calm answer_schedule client_init = Some s" "cl_pc s = Closing 0" "cl_queue s = [0, 1]"
      and s': "run_schedule hang_schedule s = Some s'" "cl_pc s' = Joining 1" "cl_queue s' = [0, 1]"
      and ps: "map (phase_of s') [0..<20] = ?ps"
    by (auto simp: bind_eq_Some_conv)
  have calm: "calm_reach s"
    by (rule run_calm_reach [OF s(1)])
  then have reach: "client_reach s'"
    using run_schedule_reach [OF s'(1)] calm_client by (meson rtranclp_trans)
  have "phase_of s' i = (if i = 1 then Some (Leaving False) else None)" for i
  proof (cases "i < 20")
    case True
    then have "phase_of s' i = map (phase_of s') [0..<20] ! i"
      by (subst nth_map) simp_all
    with True show ?thesis
      unfolding ps by (auto simp: nth_append nth_Cons split: nat.split)
  next
    case False
    then show ?thesis
      using phase_slot [OF reach, of i] by (cases "phase_of s' i") (auto simp: CLIENT_THREAD_COUNT_def)
  qed
  then have "hung s'"
    using s'(2,3) by (auto simp: hung_def)
  moreover have "closing_step\<^sup>*\<^sup>* s s'"
    using s'(1) by (rule run_closing) (simp add: hang_schedule_def)
  ultimately show ?thesis
    using calm s(2,3) s'(2) hung_stuck by (intro exI [of _ s] exI [of _ s']) auto
qed

end
