(* ===== verification/Work.thy ===== *)
theory Work
  imports Handler
begin

text \<open>
  The WORK command (\<open>work_handler.c\<close>): reading its parameters, splitting the range of nonces among
  the batch threads, the search of the batches (\<open>work_btch\<close>) as interleaved atomic steps over the
  shared solution and the cancellation flag, and the answer.  Whether a nonce is valid is a
  parameter of the search; the handler passes \<open>is_valid_soln\<close> for the target and the seed.
\<close>

section \<open>Parameters\<close>

record work_params =
  wp_difficulty :: WORD
  wp_target :: "BYTE list"
  wp_seed :: "BYTE list"
  wp_raw_seed :: "char option list"
  wp_n :: u64
  wp_thread_count :: int

text \<open>\<open>sscanf (s, "%x %s %lx %x", ...)\<close>; the last conversion stores into an \<open>int\<close>.\<close>

definition sscanf_work :: "char list \<Rightarrow> char option list \<Rightarrow>
    (WORD option \<times> char option list \<times> u64 option \<times> int option) c_result" where
  "sscanf_work s raw_seed =
     (case scan_x s of
        None \<Rightarrow> Inr (None, raw_seed, None, None)
      | Some (difficulty, r) \<Rightarrow> (case scan_s r of
          None \<Rightarrow> Inr (Some difficulty, raw_seed, None, None)
        | Some (tok, r') \<Rightarrow>
            bind_c (store_str tok raw_seed) (\<lambda>raw.
              Inr (case scan_lx r' of
                     None \<Rightarrow> (Some difficulty, raw, None, None)
                   | Some (n, r'') \<Rightarrow>
                       (Some difficulty, raw, Some n, map_option (\<lambda>v. sint (fst v)) (scan_x r''))))))"

text \<open>
  \<open>work_handler\<close> up to the point where it waits for the semaphore.  A negative number of threads
  makes the size of the arrays a number that no allocation can satisfy.
\<close>

definition work_parse :: "endian \<Rightarrow> io_env \<Rightarrow> worker_arg \<Rightarrow> work_params c_result" where
  "work_parse host env arg =
     bind_c (read_str (drop 5 (command_str arg))) (\<lambda>s.
     bind_c (sscanf_work s (raw_seed_array env)) (\<lambda>(difficulty, raw_seed, n, thread_count).
       case difficulty of
         None \<Rightarrow> Inl Uninitialised_Read
       | Some d0 \<Rightarrow>
           let d = ntohl host d0; target = get_target d in
           bind_c (seed_from_raw raw_seed) (\<lambda>seed.
             case thread_count of
               None \<Rightarrow> Inl Uninitialised_Read
             | Some t \<Rightarrow>
                 if t < 0 then Inl Invalid_Pointer
                 else (case n of
                   None \<Rightarrow> Inl Uninitialised_Read
                 | Some n' \<Rightarrow> Inr \<lparr>wp_difficulty = d, wp_target = target, wp_seed = seed,
                     wp_raw_seed = raw_seed, wp_n = n', wp_thread_count = t\<rparr>))))"

section \<open>Batches\<close>

definition UINT64_MAX :: u64 where
  "UINT64_MAX = -1"

record btch_arg =
  btch_start :: u64
  btch_end :: u64

text \<open>The loop that fills \<open>btch_args\<close>.\<close>

definition work_chunks :: "u64 \<Rightarrow> int \<Rightarrow> btch_arg list c_result" where
  "work_chunks n thread_count =
     (if thread_count = 0 then Inl Division_By_Zero
      else let chunk = (UINT64_MAX - n) div word_of_int thread_count
           in Inr (map (\<lambda>i. \<lparr>btch_start = n + word_of_nat i * chunk,
                              btch_end = (if int i = thread_count - 1 then UINT64_MAX
                                          else n + word_of_nat (i + 1) * chunk)\<rparr>)
                    [0..<nat thread_count]))"

text \<open>
  Where a batch thread is: before the loop condition, before the test of the next nonce, before
  the critical section that publishes a nonce, or ended.
\<close>

datatype btch_pc = Check | Test | Publish | Ended

record btch =
  b_arg :: btch_arg
  b_trying :: u64
  b_pc :: btch_pc
  b_killed :: bool

record search =
  solution :: u64
  cancelled :: bool
  btches :: "btch list"

text \<open>
  One step of \<open>work_btch\<close>: the new value of the shared solution and of the thread.  A thread for
  which \<open>pthread_cancel\<close> was called ends at \<open>pthread_testcancel\<close>; one that only sees the flag
  \<open>*cancelled\<close> ends at the head of the loop.  The critical section is one step.
\<close>

definition work_btch_step :: "(u64 \<Rightarrow> bool) \<Rightarrow> u64 \<Rightarrow> bool \<Rightarrow> btch \<Rightarrow> u64 \<times> btch" where
  "work_btch_step valid sol canc b =
     (case b_pc b of
        Check \<Rightarrow>
          if sol = 0 then
            if canc \<or> b_trying b \<ge> btch_end (b_arg b) then (sol, b\<lparr>b_pc := Ended\<rparr>)
            else (sol, b\<lparr>b_pc := Test\<rparr>)
          else (sol, b\<lparr>b_pc := Ended\<rparr>)
      | Test \<Rightarrow>
          if b_killed b then (sol, b\<lparr>b_pc := Ended\<rparr>)
          else if valid (b_trying b) then (sol, b\<lparr>b_pc := Publish\<rparr>)
          else (sol, b\<lparr>b_trying := b_trying b + 1, b_pc := Check\<rparr>)
      | Publish \<Rightarrow> (if sol = 0 then b_trying b else sol, b\<lparr>b_pc := Ended\<rparr>)
      | Ended \<Rightarrow> (sol, b))"

text \<open>
  The steps of the search: a batch moves; \<open>work_handler_cleanup\<close> sets the flag; it then calls
  \<open>pthread_cancel\<close> for a batch.
\<close>

inductive search_step :: "(u64 \<Rightarrow> bool) \<Rightarrow> search \<Rightarrow> search \<Rightarrow> bool" for valid where
  batch: "i < length (btches s) \<Longrightarrow> b_pc (btches s ! i) \<noteq> Ended \<Longrightarrow>
    work_btch_step valid (solution s) (cancelled s) (btches s ! i) = (sol', b') \<Longrightarrow>
    search_step valid s (s\<lparr>solution := sol', btches := (btches s)[i := b']\<rparr>)"
| cancel: "\<not> cancelled s \<Longrightarrow> search_step valid s (s\<lparr>cancelled := True\<rparr>)"
| kill: "cancelled s \<Longrightarrow> i < length (btches s) \<Longrightarrow> \<not> b_killed (btches s ! i) \<Longrightarrow>
    search_step valid s (s\<lparr>btches := (btches s)[i := (btches s ! i)\<lparr>b_killed := True\<rparr>]\<rparr>)"

text \<open>The state when all batch threads have been created.\<close>

definition search_init :: "btch_arg list \<Rightarrow> search" where
  "search_init args = \<lparr>solution = 0, cancelled = False,
     btches = map (\<lambda>a. \<lparr>b_arg = a, b_trying = btch_start a, b_pc = Check, b_killed = False\<rparr>) args\<rparr>"

definition search_reach :: "(u64 \<Rightarrow> bool) \<Rightarrow> btch_arg list \<Rightarrow> search \<Rightarrow> bool" where
  "search_reach valid args s \<longleftrightarrow> (search_step valid)\<^sup>*\<^sup>* (search_init args) s"

section \<open>Answer\<close>

text \<open>
  The text of the answer: \<open>print_seed\<close> has 65 bytes, zeroed, with the first 64 of \<open>raw_seed\<close>.
\<close>

definition work_result :: "endian \<Rightarrow> work_params \<Rightarrow> u64 \<Rightarrow> char option list c_result" where
  "work_result host p sol =
     (let print_seed = memcpy_at (replicate 65 (Some NUL)) 0 (wp_raw_seed p) 64;
          difficulty = ntohl host (wp_difficulty p)
      in bind_c (read_str print_seed) (\<lambda>ps.
           store_str (''SOLN '' @ print_hex 8 (unat difficulty) @ '' '' @ ps @ '' ''
             @ print_hex 16 (unat sol) @ [CR, LF]) (replicate 98 None)))"

definition work_answer :: "endian \<Rightarrow> io_env \<Rightarrow> worker_arg \<Rightarrow> work_params \<Rightarrow> u64 \<Rightarrow> io_event list c_result" where
  "work_answer host env arg p sol =
     bind_c (work_result host p sol) (\<lambda>result. send_message env (newsockfd arg) result 97)"

section \<open>The ranges of the batches\<close>

lemma unat_UINT64_MAX: "unat UINT64_MAX = 2 ^ 64 - 1" "unat (UINT64_MAX - n) = 2 ^ 64 - 1 - unat n"
proof -
  show max: "unat UINT64_MAX = 2 ^ 64 - 1"
    by (simp add: UINT64_MAX_def unsigned_minus_1_eq_mask mask_eq_exp_minus_1)
  have "n \<le> UINT64_MAX"
    by (simp add: UINT64_MAX_def)
  then show "unat (UINT64_MAX - n) = 2 ^ 64 - 1 - unat n"
    using max by (simp add: unat_sub)
qed

lemma chunk_value:
  assumes "0 < t" "t < 2 ^ 31"
  shows "unat ((UINT64_MAX - n) div word_of_int t) = (2 ^ 64 - 1 - unat n) div nat t"
proof -
  have "unat (word_of_int t :: u64) = nat t"
    using assms by (simp add: unat_eq_nat_uint uint_word_of_int)
  then show ?thesis
    by (simp only: unat_div unat_UINT64_MAX)
qed

lemma mod_bounded: "x \<le> k - 1 \<Longrightarrow> 0 < k \<Longrightarrow> x mod k = x" for x k :: nat
  by simp

lemma sum_bounded: "m < k \<Longrightarrow> x \<le> k - 1 - m \<Longrightarrow> m + x \<le> k - 1" for m x k :: nat
  by simp

lemma chunk_start:
  fixes n :: u64
  assumes "0 < t" "t < 2 ^ 31" "i \<le> nat t"
  defines "c \<equiv> (UINT64_MAX - n) div word_of_int t"
  shows "unat (n + word_of_nat i * c) = unat n + i * unat c" "unat n + i * unat c \<le> 2 ^ 64 - 1"
proof -
  have "i * unat c \<le> nat t * ((2 ^ 64 - 1 - unat n) div nat t)"
    unfolding c_def chunk_value [OF assms(1,2)] using assms(3) by (rule mult_le_mono1)
  also have "\<dots> \<le> 2 ^ 64 - 1 - unat n"
    by (simp only: times_div_less_eq_dividend)
  finally have le: "i * unat c \<le> 2 ^ 64 - 1 - unat n" .
  have lt: "unat n < 2 ^ 64"
    using unsigned_less [of n] by simp
  from sum_bounded [OF lt le] show b: "unat n + i * unat c \<le> 2 ^ 64 - 1" .
  have "n + word_of_nat i * c = word_of_nat (unat n + i * unat c)"
    by simp
  then have "unat (n + word_of_nat i * c) = (unat n + i * unat c) mod 2 ^ 64"
    by (simp only: unat_of_nat len_num1 len_bit0) simp
  then show "unat (n + word_of_nat i * c) = unat n + i * unat c"
    using mod_bounded [OF b] by simp
qed

text \<open>The range of batch number \<open>i\<close> as natural numbers.\<close>

lemma work_chunks_nth:
  fixes n :: u64
  assumes "0 < t" "t < 2 ^ 31" "i < nat t"
  defines "c \<equiv> (2 ^ 64 - 1 - unat n) div nat t"
  shows "\<exists>args. work_chunks n t = Inr args \<and> length args = nat t
    \<and> unat (btch_start (args ! i)) = unat n + i * c
    \<and> unat (btch_end (args ! i)) = (if Suc i = nat t then 2 ^ 64 - 1 else unat n + Suc i * c)"
proof -
  have c: "unat ((UINT64_MAX - n) div word_of_int t) = c"
    unfolding c_def by (rule chunk_value [OF assms(1,2)])
  have "i \<le> nat t" "Suc i \<le> nat t"
    using assms(3) by simp_all
  note s = chunk_start(1) [OF assms(1,2) this(1), of n, unfolded c]
    chunk_start(1) [OF assms(1,2) this(2), of n, unfolded c]
  have last: "int i = t - 1 \<longleftrightarrow> Suc i = nat t"
    using assms(1) by auto
  define arg where "arg = (\<lambda>i. \<lparr>btch_start = n + word_of_nat i * ((UINT64_MAX - n) div word_of_int t),
      btch_end = (if int i = t - 1 then UINT64_MAX
                  else n + word_of_nat (i + 1) * ((UINT64_MAX - n) div word_of_int t))\<rparr>)"
  have "work_chunks n t = Inr (map arg [0..<nat t])"
    using assms(1) by (simp only: work_chunks_def Let_def arg_def if_False less_irrefl) simp
  moreover have "map arg [0..<nat t] ! i = arg i"
    using assms(3) by simp
  moreover have "unat (btch_start (arg i)) = unat n + i * c"
    by (simp only: arg_def btch_arg.simps s(1))
  moreover have "unat (btch_end (arg i)) = (if Suc i = nat t then 2 ^ 64 - 1 else unat n + Suc i * c)"
    by (cases "Suc i = nat t")
      (simp_all only: arg_def btch_arg.simps last s(2) Suc_eq_plus1 [symmetric] unat_UINT64_MAX if_True if_False refl)
  ultimately show ?thesis
    by (intro exI [of _ "map arg [0..<nat t]"]) (simp only: length_map length_upt diff_zero simp_thms)
qed

lemma chain_cover:
  fixes f :: "nat \<Rightarrow> nat"
  assumes "f 0 \<le> x" "x < f k" shows "\<exists>i<k. f i \<le> x \<and> x < f (Suc i)"
  using assms(2)
proof (induction k)
  case 0
  with assms(1) show ?case by simp
next
  case (Suc k)
  then show ?case
    by (cases "x < f k") (auto simp: less_Suc_eq not_less)
qed

lemma work_chunks_ranges:
  assumes "0 < t" "t < 2 ^ 31"
  obtains args where "work_chunks n t = Inr args" "length args = nat t"
    and "btch_start (args ! 0) = n" "btch_end (last args) = UINT64_MAX"
    and "\<And>i. Suc i < nat t \<Longrightarrow> btch_end (args ! i) = btch_start (args ! Suc i)"
    and "\<And>i. i < nat t \<Longrightarrow> btch_start (args ! i) \<le> btch_end (args ! i)"
    and "\<And>i. i < nat t \<Longrightarrow> n \<le> btch_start (args ! i)"
proof -
  let ?c = "(2 ^ 64 - 1 - unat n) div nat t"
  have t: "0 < nat t"
    using assms(1) by simp
  obtain args where args: "work_chunks n t = Inr args" "length args = nat t"
    using work_chunks_nth [OF assms t] by blast
  have st: "unat (btch_start (args ! i)) = unat n + i * ?c"
    and en: "unat (btch_end (args ! i)) = (if Suc i = nat t then 2 ^ 64 - 1 else unat n + Suc i * ?c)"
    if "i < nat t" for i
    using work_chunks_nth [OF assms that, of n] args by auto
  show thesis
  proof (rule that [OF args])
    show "btch_start (args ! 0) = n"
      using st [OF t] by (simp only: word_unat_eq_iff mult_0 add_0_right)
    have "last args = args ! (nat t - 1)"
      using args(2) t by (metis last_conv_nth length_0_conv less_irrefl)
    then show "btch_end (last args) = UINT64_MAX"
      using en [of "nat t - 1"] t by (simp only: word_unat_eq_iff unat_UINT64_MAX) simp
    show "btch_end (args ! i) = btch_start (args ! Suc i)" if "Suc i < nat t" for i
    proof -
      have "i < nat t" "Suc i \<noteq> nat t"
        using that by simp_all
      then show ?thesis
        using en [of i] st [OF that] by (simp only: word_unat_eq_iff if_False)
    qed
    show "n \<le> btch_start (args ! i)" if "i < nat t" for i
      unfolding word_le_nat_alt st [OF that] by (rule le_add1)
    show "btch_start (args ! i) \<le> btch_end (args ! i)" if "i < nat t" for i
    proof -
      have "unat n + i * ?c \<le> 2 ^ 64 - 1"
        using chunk_start(2) [OF assms, of i n] that by (simp only: chunk_value [OF assms] less_imp_le)
      moreover have "i * ?c \<le> Suc i * ?c"
        by (rule mult_le_mono1) simp
      ultimately show ?thesis
        unfolding word_le_nat_alt st [OF that] en [OF that] by (cases "Suc i = nat t") (simp_all only: if_True if_False add_le_cancel_left refl)
    qed
  qed
qed

lemma work_chunks_args:
  assumes "0 < t" "t < 2 ^ 31" "work_chunks n t = Inr args"
  shows "\<forall>a \<in> set args. n \<le> btch_start a \<and> btch_start a \<le> btch_end a"
proof
  fix a
  assume "a \<in> set args"
  then obtain i where i: "i < length args" "a = args ! i"
    by (metis in_set_conv_nth)
  obtain args' where "work_chunks n t = Inr args'" "length args' = nat t"
    "btch_start (args' ! 0) = n" "btch_end (last args') = UINT64_MAX"
    "\<And>i. Suc i < nat t \<Longrightarrow> btch_end (args' ! i) = btch_start (args' ! Suc i)"
    "\<And>i. i < nat t \<Longrightarrow> btch_start (args' ! i) \<le> btch_end (args' ! i)"
    "\<And>i. i < nat t \<Longrightarrow> n \<le> btch_start (args' ! i)"
    by (fact work_chunks_ranges [OF assms(1,2), of n])
  with i assms(3) show "n \<le> btch_start a \<and> btch_start a \<le> btch_end a"
    by simp
qed

lemma work_chunks_cover:
  assumes "0 < t" "t < 2 ^ 31" "work_chunks n t = Inr args" "n \<le> x" "x < UINT64_MAX"
  shows "\<exists>a \<in> set args. btch_start a \<le> x \<and> x < btch_end a"
proof -
  obtain args' where r: "work_chunks n t = Inr args'" "length args' = nat t"
    "btch_start (args' ! 0) = n" "btch_end (last args') = UINT64_MAX"
    "\<And>i. Suc i < nat t \<Longrightarrow> btch_end (args' ! i) = btch_start (args' ! Suc i)"
    "\<And>i. i < nat t \<Longrightarrow> btch_start (args' ! i) \<le> btch_end (args' ! i)"
    "\<And>i. i < nat t \<Longrightarrow> n \<le> btch_start (args' ! i)"
    by (fact work_chunks_ranges [OF assms(1,2), of n])
  have [simp]: "args' = args"
    using r(1) assms(3) by simp
  have t: "0 < nat t"
    using assms(1) by simp
  define f where "f i = (if i < nat t then unat (btch_start (args ! i)) else unat UINT64_MAX)" for i
  have "f 0 \<le> unat x" "unat x < f (nat t)"
    using assms(4,5) r(3) t by (simp_all add: f_def word_le_nat_alt word_less_nat_alt)
  then obtain i where i: "i < nat t" "f i \<le> unat x" "unat x < f (Suc i)"
    using chain_cover by blast
  have "f (Suc i) = unat (btch_end (args ! i))"
  proof (cases "Suc i < nat t")
    case True
    then show ?thesis using r(5) [of i] by (simp add: f_def)
  next
    case False
    with i(1) have "Suc i = nat t" by simp
    then have "last args = args ! i"
      using r(2) by (metis \<open>args' = args\<close> diff_Suc_1 last_conv_nth length_0_conv nat.distinct(1))
    with False r(4) show ?thesis by (simp add: f_def)
  qed
  with i r(2) show ?thesis
    by (intro bexI [of _ "args ! i"]) (simp_all add: f_def word_le_nat_alt word_less_nat_alt)
qed


section \<open>The search\<close>

inductive_cases search_stepE: "search_step valid s s'"

lemmas btch_step_defs = work_btch_step_def

text \<open>
  What holds of a batch: the nonces before \<open>b_trying\<close> are not valid; a thread that ended had a
  reason to, where the nonce 0 is a special case because 0 also stands for no solution.
\<close>

definition btch_inv :: "(u64 \<Rightarrow> bool) \<Rightarrow> u64 \<Rightarrow> bool \<Rightarrow> btch \<Rightarrow> bool" where
  "btch_inv valid sol canc b \<longleftrightarrow>
     btch_start (b_arg b) \<le> b_trying b \<and> b_trying b \<le> btch_end (b_arg b)
     \<and> (\<forall>x. btch_start (b_arg b) \<le> x \<and> x < b_trying b \<longrightarrow> \<not> valid x)
     \<and> (b_killed b \<longrightarrow> canc)
     \<and> (b_pc b = Test \<longrightarrow> b_trying b < btch_end (b_arg b))
     \<and> (b_pc b = Publish \<longrightarrow> valid (b_trying b) \<and> b_trying b < btch_end (b_arg b))
     \<and> (b_pc b = Ended \<longrightarrow> sol \<noteq> 0 \<or> canc \<or> b_trying b = btch_end (b_arg b)
          \<or> b_trying b = 0 \<and> btch_start (b_arg b) = 0 \<and> valid 0)"

definition search_inv :: "(u64 \<Rightarrow> bool) \<Rightarrow> btch_arg list \<Rightarrow> search \<Rightarrow> bool" where
  "search_inv valid args s \<longleftrightarrow>
     map b_arg (btches s) = args
     \<and> (\<forall>b \<in> set (btches s). btch_inv valid (solution s) (cancelled s) b)
     \<and> (solution s \<noteq> 0 \<longrightarrow>
          valid (solution s) \<and> (\<exists>a \<in> set args. btch_start a \<le> solution s \<and> solution s < btch_end a))"

lemma btch_inv_mono:
  "btch_inv valid sol canc b \<Longrightarrow> (sol \<noteq> 0 \<Longrightarrow> sol' \<noteq> 0) \<Longrightarrow> (canc \<Longrightarrow> canc') \<Longrightarrow> btch_inv valid sol' canc' b"
  by (auto simp: btch_inv_def)

lemma word_Suc_le: "x < (y :: u64) \<Longrightarrow> x + 1 \<le> y" "x < (y :: u64) \<Longrightarrow> x \<le> x + 1"
  "x < (y :: u64) \<Longrightarrow> z < x + 1 \<Longrightarrow> z \<le> x" "x < (y :: u64) \<Longrightarrow> unat (x + 1) = unat x + 1"
proof -
  assume "x < y"
  moreover have "unat y < 2 ^ 64"
    using unsigned_less [of y] by simp
  ultimately have "unat x + 1 \<le> 2 ^ 64 - 1"
    using le_less_trans [of "unat x + 1" "unat y" "2 ^ 64"] by (simp only: word_less_nat_alt)
  then have "(unat x + 1) mod 2 ^ 64 = unat x + 1"
    by (rule mod_bounded) simp
  moreover have "x + 1 = word_of_nat (unat x + 1)"
    by simp
  ultimately have "unat (x + 1) = unat x + 1"
    by (simp only: unat_of_nat len_num1 len_bit0 mult_1_right) simp
  then show "x + 1 \<le> y" "x \<le> x + 1" "z < x + 1 \<Longrightarrow> z \<le> x" "unat (x + 1) = unat x + 1"
    using \<open>x < y\<close> by (simp_all add: word_le_nat_alt word_less_nat_alt)
qed


lemma btch_inv_step:
  assumes inv: "btch_inv valid sol canc b" and step: "work_btch_step valid sol canc b = (sol', b')"
  shows "btch_inv valid sol' canc b' \<and> b_arg b' = b_arg b \<and> (sol \<noteq> 0 \<longrightarrow> sol' = sol)
    \<and> (sol' \<noteq> sol \<longrightarrow> valid sol' \<and> btch_start (b_arg b) \<le> sol' \<and> sol' < btch_end (b_arg b))"
proof (cases "b_pc b")
  case Check
  with inv step show ?thesis
    by (auto simp: work_btch_step_def btch_inv_def not_le split: if_splits)
next
  case Test
  then have lt: "b_trying b < btch_end (b_arg b)"
    using inv by (simp add: btch_inv_def)
  show ?thesis
  proof (cases "\<not> b_killed b \<and> \<not> valid (b_trying b)")
    case True
    have "\<not> valid x" if "btch_start (b_arg b) \<le> x" "x < b_trying b + 1" for x
      using inv True that word_Suc_le(3) [OF lt that(2)] by (cases "x = b_trying b") (auto simp: btch_inv_def)
    with True Test inv step word_Suc_le(1,2) [OF lt] show ?thesis
      by (auto simp: work_btch_step_def btch_inv_def intro: order_trans)
  qed (use Test inv step lt in \<open>auto simp: work_btch_step_def btch_inv_def split: if_splits\<close>)
next
  case Publish
  with inv step show ?thesis
    by (auto simp: work_btch_step_def btch_inv_def split: if_splits)
next
  case Ended
  with inv step show ?thesis
    by (auto simp: work_btch_step_def)
qed

lemma search_inv_init:
  assumes "\<forall>a \<in> set args. btch_start a \<le> btch_end a"
  shows "search_inv valid args (search_init args)"
  using assms by (auto simp: search_inv_def search_init_def btch_inv_def comp_def)

lemma search_inv_step:
  assumes "search_step valid s s'" "search_inv valid args s" shows "search_inv valid args s'"
  using assms
proof cases
  case (batch i sol' b')
  let ?b = "btches s ! i"
  have b: "?b \<in> set (btches s)"
    using batch(2) by simp
  have args: "map b_arg (btches s) = args"
    using assms(2) by (simp add: search_inv_def)
  have "btch_inv valid (solution s) (cancelled s) ?b"
    using assms(2) b by (simp add: search_inv_def)
  note st = btch_inv_step [OF this batch(4)]
  have "b_arg ?b \<in> set args"
    using b by (simp flip: args)
  moreover have "map b_arg ((btches s)[i := b']) = args"
    using st args by (metis list_update_id map_update nth_map batch(2))
  moreover have "btch_inv valid sol' (cancelled s) c" if c: "c \<in> set ((btches s)[i := b'])" for c
  proof -
    consider "c = b'" | "c \<in> set (btches s)"
      using c set_update_subset_insert [of "btches s" i b'] by blast
    then show ?thesis
    proof cases
      case 2
      then have "btch_inv valid (solution s) (cancelled s) c"
        using assms(2) by (simp add: search_inv_def)
      then show ?thesis
        by (rule btch_inv_mono) (use st in auto)
    qed (use st in simp)
  qed
  ultimately show ?thesis
    using assms(2) st unfolding search_inv_def batch(1)
    by (cases "sol' = solution s") auto
next
  case cancel
  have "btch_inv valid (solution s) True b" if "b \<in> set (btches s)" for b
    by (rule btch_inv_mono [of valid "solution s" "cancelled s"]) (use assms(2) that in \<open>simp_all add: search_inv_def\<close>)
  with assms(2) cancel show ?thesis
    by (simp add: search_inv_def)
next
  case (kill i)
  let ?b = "(btches s ! i)\<lparr>b_killed := True\<rparr>"
  have "map b_arg ((btches s)[i := ?b]) = map b_arg (btches s)"
    using kill(3) by (metis btch.select_convs(1) btch.surjective btch.update_convs(4) list_update_id map_update nth_map)
  moreover have "btch_inv valid (solution s) (cancelled s) (btches s ! i)"
    using assms(2) kill(3) by (simp add: search_inv_def)
  then have "btch_inv valid (solution s) (cancelled s) ?b"
    using kill(2) by (simp add: btch_inv_def)
  then have "\<forall>b \<in> set ((btches s)[i := ?b]). btch_inv valid (solution s) (cancelled s) b"
    using assms(2) set_update_subset_insert [of "btches s" i ?b] unfolding search_inv_def by blast
  ultimately show ?thesis
    using assms(2) kill(1) by (simp add: search_inv_def)
qed

lemma search_invariant:
  assumes "\<forall>a \<in> set args. btch_start a \<le> btch_end a"
  shows "step_invariant (search_step valid) (search_init args) (search_inv valid args)"
  by unfold_locales (rule search_inv_init [OF assms], rule search_inv_step)

lemma search_reach_inv:
  assumes "search_reach valid args s" "\<forall>a \<in> set args. btch_start a \<le> btch_end a"
  shows "search_inv valid args s"
  using step_invariant.reach [OF search_invariant [OF assms(2)]] assms(1) unfolding search_reach_def .

text \<open>The batches make progress: every step of a batch decreases a number.\<close>

definition btch_todo :: "btch \<Rightarrow> nat" where
  "btch_todo b = 3 * (unat (btch_end (b_arg b)) - unat (b_trying b))
     + (case b_pc b of Check \<Rightarrow> 3 | Test \<Rightarrow> 2 | Publish \<Rightarrow> 1 | Ended \<Rightarrow> 0)
     + (if b_killed b then 0 else 1)"

definition search_todo :: "search \<Rightarrow> nat" where
  "search_todo s = sum_list (map btch_todo (btches s)) + (if cancelled s then 0 else 1)"


lemma btch_todo_step:
  assumes inv: "btch_inv valid sol canc b" and "b_pc b \<noteq> Ended"
    and step: "work_btch_step valid sol canc b = (sol', b')"
  shows "btch_todo b' < btch_todo b"
proof (cases "b_pc b = Test \<and> \<not> b_killed b \<and> \<not> valid (b_trying b)")
  case True
  then have lt: "b_trying b < btch_end (b_arg b)"
    using inv by (simp add: btch_inv_def)
  have "b' = b\<lparr>b_trying := b_trying b + 1, b_pc := Check\<rparr>"
    using True step by (auto simp: work_btch_step_def)
  moreover have "unat (b_trying b + 1) = unat (b_trying b) + 1"
    by (rule word_Suc_le(4) [OF lt])
  ultimately show ?thesis
    using True lt by (simp add: btch_todo_def word_less_nat_alt)
qed (use assms(2) step in \<open>auto simp: work_btch_step_def btch_todo_def split: btch_pc.splits if_splits\<close>)

lemma sum_list_update_less:
  "i < length xs \<Longrightarrow> f y < f (xs ! i) \<Longrightarrow> sum_list (map f (xs[i := y])) < (sum_list (map f xs) :: nat)"
  by (induction xs arbitrary: i) (auto simp: nth_Cons split: nat.splits)

lemma search_todo_step:
  assumes "search_step valid s s'" "search_inv valid args s" shows "search_todo s' < search_todo s"
  using assms
proof cases
  case (batch i sol' b')
  have "btch_inv valid (solution s) (cancelled s) (btches s ! i)"
    using assms(2) batch(2) by (simp add: search_inv_def)
  from btch_todo_step [OF this batch(3,4)] show ?thesis
    using batch(1,2) by (simp add: search_todo_def sum_list_update_less)
next
  case (kill i)
  have "btch_todo ((btches s ! i)\<lparr>b_killed := True\<rparr>) < btch_todo (btches s ! i)"
    using kill(4) by (simp add: btch_todo_def)
  then show ?thesis
    using kill(1,3) by (simp add: search_todo_def sum_list_update_less)
qed (simp add: search_todo_def)

lemma search_todo_cancel: "\<not> cancelled s \<Longrightarrow> search_todo (s\<lparr>cancelled := True\<rparr>) < search_todo s"
  by (simp add: search_todo_def)

text \<open>A published solution is never replaced.\<close>

lemma search_solution_stable:
  assumes "search_step valid s s'" "solution s \<noteq> 0" shows "solution s' = solution s"
  using assms by cases (auto simp: work_btch_step_def split: btch_pc.splits if_splits)

lemma search_silent:
  assumes "search_reach valid args s" "\<forall>a \<in> set args. btch_start a \<le> btch_end a"
    and "\<forall>a \<in> set args. \<forall>x. btch_start a \<le> x \<and> x < btch_end a \<longrightarrow> \<not> valid x"
  shows "solution s = 0"
  using search_reach_inv [OF assms(1,2)] assms(3) by (auto simp: search_inv_def)


lemma published_valid:
  assumes "0 < t" "t < 2 ^ 31" "work_chunks n t = Inr args" "search_reach valid args s" "solution s \<noteq> 0"
  shows "valid (solution s) \<and> n \<le> solution s \<and> solution s < UINT64_MAX"
proof -
  note args = work_chunks_args [OF assms(1-3)]
  have "search_inv valid args s"
    using search_reach_inv [OF assms(4)] args by blast
  then obtain a where a: "a \<in> set args" "btch_start a \<le> solution s" "solution s < btch_end a" "valid (solution s)"
    using assms(5) by (auto simp: search_inv_def)
  have "solution s < UINT64_MAX"
    using a(3) by (metis UINT64_MAX_def order.strict_trans2 word_n1_ge)
  with a args show ?thesis
    by (metis order_trans)
qed

text \<open>When all batches have run to their end, a valid nonce of the range can only have been missed at 0.\<close>

lemma search_exhausted:
  assumes "0 < t" "t < 2 ^ 31" "work_chunks n t = Inr args" "search_reach valid args s"
    and "\<not> cancelled s" "\<forall>b \<in> set (btches s). b_pc b = Ended" "solution s = 0"
    and x: "n \<le> x" "x < UINT64_MAX" "valid x"
  shows "n = 0 \<and> valid 0"
proof -
  note args = work_chunks_args [OF assms(1-3)]
  have inv: "search_inv valid args s"
    using search_reach_inv [OF assms(4)] args by blast
  obtain a where a: "a \<in> set args" "btch_start a \<le> x" "x < btch_end a"
    using work_chunks_cover [OF assms(1-3) x(1,2)] by blast
  have "map b_arg (btches s) = args"
    using inv unfolding search_inv_def by (rule conjunct1)
  then have "a \<in> b_arg ` set (btches s)"
    using a(1) by (simp flip: list.set_map)
  then obtain b where b: "b_arg b = a" "b \<in> set (btches s)"
    by (elim imageE) simp
  have bi: "btch_inv valid (solution s) (cancelled s) b"
    using inv b(2) unfolding search_inv_def by simp
  have "b_trying b \<noteq> btch_end (b_arg b)"
    using bi a(2,3) x(3) unfolding b(1) btch_inv_def by auto
  moreover have "b_pc b = Ended"
    using assms(6) b(2) by simp
  ultimately have z: "btch_start a = 0" "valid 0"
    using bi assms(5,7) unfolding b(1) btch_inv_def by simp_all
  have "n \<le> 0"
    using bspec [OF args a(1)] z(1) by simp
  then show "n = 0 \<and> valid 0"
    using z(2) by simp
qed

text \<open>A single batch whose first nonce is valid publishes it.\<close>

lemma work_chunks_one: "work_chunks n 1 = Inr [\<lparr>btch_start = n, btch_end = UINT64_MAX\<rparr>]"
  by (simp add: work_chunks_def)

definition one_btch :: "u64 \<Rightarrow> u64 \<Rightarrow> u64 \<Rightarrow> btch_pc \<Rightarrow> search" where
  "one_btch n sol x pc = \<lparr>solution = sol, cancelled = False,
     btches = [\<lparr>b_arg = \<lparr>btch_start = n, btch_end = UINT64_MAX\<rparr>, b_trying = x, b_pc = pc, b_killed = False\<rparr>]\<rparr>"

lemma one_btch_init: "search_init [\<lparr>btch_start = n, btch_end = UINT64_MAX\<rparr>] = one_btch n 0 n Check"
  by (simp add: search_init_def one_btch_def)

lemma one_btch_step:
  assumes "work_btch_step valid sol False (hd (btches (one_btch n sol x pc))) =
      (sol', hd (btches (one_btch n sol' x' pc')))" "pc \<noteq> Ended"
  shows "search_step valid (one_btch n sol x pc) (one_btch n sol' x' pc')"
  using search_step.batch [of 0 "one_btch n sol x pc" valid] assms by (simp add: one_btch_def)

lemma one_btch_try:
  assumes "x < UINT64_MAX"
  shows "(search_step valid)\<^sup>*\<^sup>* (one_btch n 0 x Check)
    (if valid x then one_btch n x x Ended else one_btch n 0 (x + 1) Check)"
proof -
  have "search_step valid (one_btch n 0 x Check) (one_btch n 0 x Test)"
    by (rule one_btch_step) (use assms in \<open>simp_all add: work_btch_step_def one_btch_def not_le\<close>)
  moreover have "valid x \<Longrightarrow> search_step valid (one_btch n 0 x Test) (one_btch n 0 x Publish)"
    "search_step valid (one_btch n 0 x Publish) (one_btch n x x Ended)"
    "\<not> valid x \<Longrightarrow> search_step valid (one_btch n 0 x Test) (one_btch n 0 (x + 1) Check)"
    by (rule one_btch_step; simp add: work_btch_step_def one_btch_def)+
  ultimately show ?thesis
    by (cases "valid x") (auto intro: converse_rtranclp_into_rtranclp)
qed

lemma first_nonce_published:
  assumes "valid n" "n < UINT64_MAX"
  shows "search_reach valid [\<lparr>btch_start = n, btch_end = UINT64_MAX\<rparr>] (one_btch n n n Ended)"
  using one_btch_try [OF assms(2), of valid n] assms(1) by (simp add: search_reach_def one_btch_init)

text \<open>A single batch that has only the last nonce to try, which is not valid, ends without a solution.\<close>

lemma last_nonce_missed:
  assumes "\<not> valid (UINT64_MAX - 1)"
  shows "search_reach valid [\<lparr>btch_start = UINT64_MAX - 1, btch_end = UINT64_MAX\<rparr>]
    (one_btch (UINT64_MAX - 1) 0 UINT64_MAX Ended)"
proof -
  have "UINT64_MAX - 1 < UINT64_MAX"
    by (simp add: UINT64_MAX_def)
  from one_btch_try [OF this, of valid "UINT64_MAX - 1"] assms
  have "search_reach valid [\<lparr>btch_start = UINT64_MAX - 1, btch_end = UINT64_MAX\<rparr>]
      (one_btch (UINT64_MAX - 1) 0 UINT64_MAX Check)"
    by (simp add: search_reach_def one_btch_init)
  moreover have "search_step valid (one_btch (UINT64_MAX - 1) 0 UINT64_MAX Check)
      (one_btch (UINT64_MAX - 1) 0 UINT64_MAX Ended)"
    by (rule one_btch_step) (simp_all add: work_btch_step_def one_btch_def)
  ultimately show ?thesis
    unfolding search_reach_def by (rule rtranclp.rtrancl_into_rtrancl)
qed

section \<open>A well-formed WORK command and its answer\<close>

definition work_text :: "WORD \<Rightarrow> BYTE list \<Rightarrow> u64 \<Rightarrow> BYTE \<Rightarrow> char list" where
  "work_text w seed n t =
     ''WORK '' @ print_hex 8 (unat w) @ '' '' @ hex_text seed @ '' '' @ print_hex 16 (unat n)
       @ '' '' @ print_hex 2 (unat t)"

lemma length_work_text: "length seed = 32 \<Longrightarrow> length (work_text w seed n t) = 98"
  by (simp add: work_text_def)

lemma NUL_notin_work_text: "NUL \<notin> set (work_text w seed n t)"
  by (simp add: work_text_def)

lemma word_bytes_eqI:
  fixes v w :: WORD
  assumes "\<And>j. j < 4 \<Longrightarrow> (ucast (drop_bit (8 * j) v) :: BYTE) = ucast (drop_bit (8 * j) w)"
  shows "v = w"
proof (rule bit_eqI)
  fix k
  assume "possible_bit TYPE(32 word) k"
  then have j: "k div 8 < 4" by auto
  have "bit u k = bit (ucast (drop_bit (8 * (k div 8)) u) :: BYTE) (k mod 8)" for u :: WORD
    by (simp add: bit_simps)
  then show "bit v k = bit w k"
    using assms [OF j] by metis
qed

lemma bswap32_bswap32 [simp]: "bswap32 (bswap32 w) = w"
proof (rule word_bytes_eqI)
  fix j :: nat
  assume "j < 4"
  then have "j = 0 \<or> j = 1 \<or> j = 2 \<or> j = 3" by auto
  then show "(ucast (drop_bit (8 * j) (bswap32 (bswap32 w))) :: BYTE) = ucast (drop_bit (8 * j) w)"
    by (auto simp: bswap32_bytes)
qed

lemma ntohl_ntohl [simp]: "ntohl host (ntohl host w) = w"
  by (cases host) (simp_all add: ntohl_def)


lemma ucast_byte_chain: "ucast (ucast (t :: BYTE) :: u64) = (ucast t :: WORD)"
  by (rule bit_eqI) (auto simp: bit_simps)

lemma scan_x_last: "scan_x (CHR '' '' # print_hex 2 (unat (t :: BYTE))) = Some (ucast t, [])"
proof -
  have "scan_hex None (CHR '' '' # print_hex 2 (unat t)) = Some ((False, unat t), [])"
    using scan_hex_digits(2) [of "print_hex 2 (unat t)" "[]"] unat_word_lt(3) [of t] by simp
  then show ?thesis
    using unat_lt_64(2) [of t]
    by (simp only: scan_x_def option.map prod.case strtoul_small of_nat_unat ucast_byte_chain)
qed

lemma sint_small: "sint (ucast (t :: BYTE) :: WORD) = uint t"
proof -
  have "0 \<le> uint t" "uint t < 2 ^ 31"
    using unsigned_less [of t, where 'a = int] by simp_all
  moreover have "uint (ucast t :: WORD) = uint t"
    using unsigned_less [of t, where 'a = int] by (simp add: unsigned_ucast_eq take_bit_int_eq_self)
  moreover have "signed_take_bit 31 k = k" if "0 \<le> k" "k < 2 ^ 31" for k :: int
    using that by (intro signed_take_bit_int_eq_self) simp_all
  ultimately show ?thesis
    by (simp add: sint_uint)
qed

lemma sscanf_work_text:
  fixes t :: BYTE
  assumes "length seed = 32" "stack_slack env \<noteq> 0"
  shows "sscanf_work (print_hex 8 (unat w) @ '' '' @ hex_text seed @ '' '' @ print_hex 16 (unat n)
      @ '' '' @ print_hex 2 (unat t)) (raw_seed_array env) =
    Inr (Some w, map Some (hex_text seed @ [NUL]) @ replicate (stack_slack env - 1) None, Some n, Some (int (unat t)))"
proof -
  let ?r = "CHR '' '' # print_hex 2 (unat t)"
  have "seed \<noteq> []"
    using assms by auto
  then have s: "scan_s (CHR '' '' # hex_text seed @ CHR '' '' # print_hex 16 (unat n) @ ?r) =
      Some (hex_text seed, CHR '' '' # print_hex 16 (unat n) @ ?r)"
    using hex_text_scan [of seed "CHR '' '' # print_hex 16 (unat n) @ ?r"] by (simp add: isspace_def)
  have "scan_lx (CHR '' '' # print_hex 16 (unat n) @ ?r) = Some (n, ?r)"
    using scan_lx_print_hex [of ?r n] by simp
  then show ?thesis
    using scan_x_print_hex [of "CHR '' '' # hex_text seed @ CHR '' '' # print_hex 16 (unat n) @ ?r" w] s assms(2)
    by (simp add: sscanf_work_def store_seed [OF assms(1)] scan_x_last sint_small)
qed

definition work_params_for :: "endian \<Rightarrow> io_env \<Rightarrow> WORD \<Rightarrow> BYTE list \<Rightarrow> u64 \<Rightarrow> BYTE \<Rightarrow> work_params" where
  "work_params_for host env w seed n t =
     \<lparr>wp_difficulty = ntohl host w, wp_target = get_target (ntohl host w), wp_seed = seed,
      wp_raw_seed = map Some (hex_text seed @ [NUL]) @ replicate (stack_slack env - 1) None,
      wp_n = n, wp_thread_count = int (unat t)\<rparr>"

lemma work_parse_text:
  assumes "length seed = 32" "stack_slack env \<noteq> 0" "command_str arg = cmd_mem (work_text w seed n t)"
  shows "work_parse host env arg = Inr (work_params_for host env w seed n t)"
proof -
  let ?t = "print_hex 8 (unat w) @ '' '' @ hex_text seed @ '' '' @ print_hex 16 (unat n) @ '' '' @ print_hex 2 (unat t)"
  have "drop 5 (command_str arg) = cmd_mem ?t"
    by (simp add: assms(3) work_text_def cmd_mem_def)
  moreover have "NUL \<notin> set ?t"
    by simp
  ultimately have "read_str (drop 5 (command_str arg)) = Inr ?t"
    by (simp only: read_cmd_mem not_False_eq_True)
  then show ?thesis
    using sscanf_work_text [OF assms(1,2), of w n t]
    by (simp add: work_parse_def seed_from_stored [OF assms(1), simplified] Let_def work_params_for_def)
qed

lemma work_result_text:
  assumes "length seed = 32"
  shows "work_result host (work_params_for host env w seed n t) x = Inr (cmd_mem (soln_text w seed x @ [CR, LF]))"
proof -
  have "memcpy_at (replicate 65 (Some NUL)) 0 (map Some (hex_text seed @ [NUL]) @ r) 64 = cmd_mem (hex_text seed)" for r
  proof -
    have "drop 64 (replicate 65 (Some NUL)) = [Some NUL]"
      by simp
    then show ?thesis
      using assms by (simp add: memcpy_at_def cmd_mem_def del: drop_replicate)
  qed
  moreover have "read_str (cmd_mem (hex_text seed)) = Inr (hex_text seed)"
    by (simp add: read_cmd_mem)
  ultimately show ?thesis
    using assms by (simp add: work_result_def work_params_for_def Let_def store_str_def soln_text_def cmd_mem_def
      del: append_assoc)
qed


lemma work_answer_text:
  assumes "safe_env env" "0 \<le> newsockfd arg" "newsockfd arg < 1000" "length seed = 32"
  shows "work_answer host env arg (work_params_for host env w seed n t) x =
    Inr [Log_Line (log_line env None (newsockfd arg) (soln_text w seed x)),
         Write (newsockfd arg) (soln_text w seed x @ [CR, LF])]"
  unfolding work_answer_def work_result_text [OF assms(4)] bind_c_simps
  by (rule send_line [OF assms(1-3) NUL_notin_soln_text]) (simp add: length_soln_text [OF assms(4)])

section \<open>Properties\<close>

text \<open>
  Property C14. The batches of a WORK split the nonces from \<open>n\<close> up to, but not including,
  \<open>UINT64_MAX\<close> into consecutive ranges without gap or overlap and without wrap-around, for every
  positive number of threads.
\<close>

theorem work_chunks_partition:
  assumes "0 < t" "t < 2 ^ 31"
  shows "\<exists>args. work_chunks n t = Inr args \<and> length args = nat t
    \<and> btch_start (args ! 0) = n \<and> btch_end (last args) = UINT64_MAX
    \<and> (\<forall>i. Suc i < nat t \<longrightarrow> btch_end (args ! i) = btch_start (args ! Suc i))
    \<and> (\<forall>i. i < nat t \<longrightarrow> btch_start (args ! i) \<le> btch_end (args ! i))"
  using work_chunks_ranges [OF assms, of n] by metis

theorem work_chunks_partition_witness:
  "\<exists>args. work_chunks 0x1000000023212147 2 = Inr args \<and> length args = 2
    \<and> btch_start (args ! 0) = 0x1000000023212147 \<and> btch_end (args ! 0) = btch_start (args ! 1)
    \<and> btch_end (last args) = UINT64_MAX"
  using work_chunks_partition [of 2 "0x1000000023212147"] by auto

text \<open>
  Property C39. A WORK with zero threads has the right length, is accepted and parsed, and then
  divides by zero: any client can end the whole server process.
\<close>

theorem work_zero_threads:
  assumes "length seed = 32" "stack_slack env \<noteq> 0" "c < GLOBAL_WORK_LIMIT"
  shows "\<exists>arg p. dispatch fd (cmd_mem (work_text w seed n 0)) c = Inr (Work_handler, arg, c + 1)
    \<and> work_parse host env arg = Inr p \<and> work_chunks (wp_n p) (wp_thread_count p) = Inl Division_By_Zero"
proof -
  have "handler_for (work_text w seed n 0) c = Work_handler"
    using assms(1,3) length_work_text [of seed w n 0] by (auto simp: handler_for_def work_text_def)
  then have "dispatch fd (cmd_mem (work_text w seed n 0)) c =
      Inr (Work_handler, arg_for fd (work_text w seed n 0) Work_handler, c + 1)"
    using dispatch_eq [OF NUL_notin_work_text, of fd w seed n 0 c] by simp
  moreover have "work_parse host env (arg_for fd (work_text w seed n 0) Work_handler) =
      Inr (work_params_for host env w seed n 0)"
    by (rule work_parse_text [OF assms(1,2)]) (simp add: arg_for_def)
  moreover have "work_chunks n 0 = Inl Division_By_Zero"
    by (simp add: work_chunks_def)
  ultimately show ?thesis
    by (auto simp: work_params_for_def)
qed

theorem work_zero_threads_witness:
  "\<exists>arg. dispatch 4 (cmd_mem (work_text 0x1fffffff zeros 0 0)) 0 = Inr (Work_handler, arg, 1)"
  using work_zero_threads [of zeros sample_env 0 4 "0x1fffffff" 0 Little]
  by (auto simp: sample_env_def GLOBAL_WORK_LIMIT_def)

text \<open>
  Property C11. Soundness of the search, for every interleaving of the batches and cancellation at
  any moment: a solution that is published is valid, not below \<open>n\<close> and below \<open>UINT64_MAX\<close>, and no
  later step replaces it.
\<close>

theorem search_sound:
  assumes "0 < t" "t < 2 ^ 31" "work_chunks n t = Inr args" "search_reach valid args s" "solution s \<noteq> 0"
  shows "valid (solution s) \<and> n \<le> solution s \<and> solution s < UINT64_MAX
    \<and> (\<forall>s'. search_step valid s s' \<longrightarrow> solution s' = solution s)"
  using published_valid [OF assms] search_solution_stable [OF _ assms(5)] by blast

theorem search_sound_witness:
  "solution (one_btch 1 1 1 Ended) = 1 \<and> solution (one_btch 1 1 1 Ended) < UINT64_MAX"
proof -
  have "search_reach (\<lambda>x. x = 1) [\<lparr>btch_start = 1, btch_end = UINT64_MAX\<rparr>] (one_btch 1 1 1 Ended)"
    by (rule first_nonce_published) (simp_all add: word_less_nat_alt unat_UINT64_MAX)
  from search_sound [OF _ _ work_chunks_one this] show ?thesis
    by (simp add: one_btch_def)
qed

text \<open>
  Property C12. Completeness of the search: when all batches have ended, nothing was cancelled and
  no solution is published, then no nonce from \<open>n\<close> to below \<open>UINT64_MAX\<close> is valid, except in the
  case that the search starts at 0 and 0 itself is valid, because 0 also stands for no solution.
\<close>

theorem search_complete:
  assumes "0 < t" "t < 2 ^ 31" "work_chunks n t = Inr args" "search_reach valid args s"
    and "\<not> cancelled s" "\<forall>b \<in> set (btches s). b_pc b = Ended" "solution s = 0"
  shows "n = 0 \<and> valid 0 \<or> (\<forall>x. n \<le> x \<and> x < UINT64_MAX \<longrightarrow> \<not> valid x)"
  using search_exhausted [OF assms] by blast

theorem search_complete_witness:
  "\<exists>s. search_reach (\<lambda>x. x = 7) [\<lparr>btch_start = UINT64_MAX - 1, btch_end = UINT64_MAX\<rparr>] s
    \<and> solution s = 0 \<and> UINT64_MAX - 1 \<noteq> 7"
proof -
  have "UINT64_MAX - 1 \<noteq> 7" "UINT64_MAX - 1 < UINT64_MAX"
    by (simp_all add: UINT64_MAX_def)
  note reach = last_nonce_missed [of "\<lambda>x. x = 7", OF this(1)]
  with search_complete [OF _ _ work_chunks_one this] \<open>UINT64_MAX - 1 < UINT64_MAX\<close> show ?thesis
    by (auto simp: one_btch_def)
qed

text \<open>
  Property C13. The search ends: there is no infinite sequence of steps of the batches, whatever
  the interleaving.
\<close>

theorem search_terminates:
  assumes "0 < t" "t < 2 ^ 31" "work_chunks n t = Inr args"
  shows "wf {(s', s). search_reach valid args s \<and> search_step valid s s'}"
proof (rule wf_subset [OF wf_measure [of search_todo]], clarify)
  fix s' s
  assume "search_reach valid args s" "search_step valid s s'"
  moreover have "\<forall>a \<in> set args. btch_start a \<le> btch_end a"
    using work_chunks_args [OF assms] by blast
  ultimately show "(s', s) \<in> measure search_todo"
    using search_reach_inv search_todo_step by (metis in_measure)
qed

theorem search_terminates_witness:
  "wf {(s', s). search_reach (\<lambda>x. x = 1) [\<lparr>btch_start = 0, btch_end = UINT64_MAX\<rparr>] s
    \<and> search_step (\<lambda>x. x = 1) s s'}"
  using search_terminates [OF _ _ work_chunks_one [of 0]] by simp

text \<open>
  When no nonce from \<open>n\<close> to below \<open>UINT64_MAX\<close> is valid, the shared solution is 0 in
  every reachable state, so the loop of \<open>work_handler\<close> that waits for a non-zero solution never
  ends.  The nonce \<open>UINT64_MAX\<close> is never tried, even when it is the only valid one.
\<close>

lemma search_unanswered:
  assumes "0 < t" "t < 2 ^ 31" "work_chunks n t = Inr args"
    and "\<forall>x. n \<le> x \<and> x < UINT64_MAX \<longrightarrow> \<not> valid x" "search_reach valid args s"
  shows "solution s = 0"
proof (rule search_silent [OF assms(5)])
  note args = work_chunks_args [OF assms(1-3)]
  show "\<forall>a \<in> set args. btch_start a \<le> btch_end a"
    using args by blast
  show "\<forall>a \<in> set args. \<forall>x. btch_start a \<le> x \<and> x < btch_end a \<longrightarrow> \<not> valid x"
    using args assms(4) by (metis UINT64_MAX_def order.strict_trans2 order_trans word_n1_ge)
qed

text \<open>
  Property C10. The answer to a WORK is a well-formed SOLN command for the same difficulty and
  seed, and the server checks it the way the batches do: sent back, it is dispatched to
  \<open>soln_handler\<close> and answered with OKAY exactly when the nonce passes the test that the batches
  apply.  In particular every answer of the server is accepted by the server, for either byte
  order.
\<close>

theorem work_answer_accepted:
  assumes "safe_env env" "0 \<le> newsockfd arg" "newsockfd arg < 1000" "length seed = 32"
    and "command_str arg = cmd_mem (work_text w seed n t)" "work_parse host env arg = Inr p"
  shows "\<exists>l l' m. work_answer host env arg p x = Inr [Log_Line l, Write (newsockfd arg) (soln_text w seed x @ [CR, LF])]
    \<and> dispatch (newsockfd arg) (cmd_mem (soln_text w seed x)) c =
        Inr (Soln_handler, arg_for (newsockfd arg) (soln_text w seed x) Soln_handler, c)
    \<and> soln_handler host env (arg_for (newsockfd arg) (soln_text w seed x) Soln_handler) =
        Inr [Log_Line l', Write (newsockfd arg) m]
    \<and> (m = ''OKAY'' @ [CR, LF] \<longleftrightarrow> is_valid_soln host (wp_target p) (wp_seed p) x = -1)"
proof -
  let ?fd = "newsockfd arg" and ?a = "arg_for (newsockfd arg) (soln_text w seed x) Soln_handler"
  let ?valid = "is_valid_soln host (wp_target p) (wp_seed p) x = -1"
  let ?erro = "formatted ''ERRO'' (Some ''Not a valid solution'')"
  have slack: "stack_slack env \<noteq> 0"
    using assms(1) by (simp add: safe_env_def)
  then have p: "p = work_params_for host env w seed n t"
    using work_parse_text [OF assms(4) _ assms(5)] assms(6) by simp
  have answer: "work_answer host env arg p x =
      Inr [Log_Line (log_line env None ?fd (soln_text w seed x)), Write ?fd (soln_text w seed x @ [CR, LF])]"
    unfolding p by (rule work_answer_text [OF assms(1-4)])
  have "handler_for (soln_text w seed x) c = Soln_handler"
    using length_soln_text [OF assms(4), of w x] by (auto simp: handler_for_def soln_text_def)
  then have disp: "dispatch ?fd (cmd_mem (soln_text w seed x)) c = Inr (Soln_handler, ?a, c)"
    using dispatch_eq [OF NUL_notin_soln_text, of ?fd w seed x c] by simp
  have fds: "newsockfd ?a = ?fd" "command_str ?a = cmd_mem (soln_text w seed x)"
    by (simp_all add: arg_for_def)
  have okay: "send_message env ?fd (cmd_mem (''OKAY'' @ [CR, LF])) 6 =
      Inr [Log_Line (log_line env None ?fd ''OKAY''), Write ?fd (''OKAY'' @ [CR, LF])]"
    by (rule send_line [OF assms(1-3)]) simp_all
  obtain l where erro: "send_formatted env ?fd ''ERRO'' (Some ''Not a valid solution'') = Inr [Log_Line l, Write ?fd ?erro]"
    using send_reason [OF assms(1-3), of "''ERRO''" "''Not a valid solution''"] by auto
  have "soln_handler host env ?a =
      (if ?valid then send_message env ?fd (cmd_mem (''OKAY'' @ [CR, LF])) 6
       else send_formatted env ?fd ''ERRO'' (Some ''Not a valid solution''))"
    using slack unfolding soln_handler_eq [OF assms(4) fds(2)] fds(1)
    by (simp only: if_False) (simp add: p work_params_for_def)
  moreover have "length ?erro = 45"
    by simp
  then have "?erro \<noteq> ''OKAY'' @ [CR, LF]"
    by (intro notI) simp
  ultimately show ?thesis
    using answer disp okay erro by (cases ?valid) auto
qed

theorem work_answer_accepted_witness:
  "\<exists>l p. work_answer Little sample_env (arg_for 4 (work_text 0x1fffffff zeros 0 5) Work_handler) p 9 =
    Inr [l, Write 4 (soln_text 0x1fffffff zeros 9 @ [CR, LF])]"
proof -
  let ?arg = "arg_for 4 (work_text 0x1fffffff zeros 0 5) Work_handler"
  have cmd: "newsockfd ?arg = 4" "command_str ?arg = cmd_mem (work_text 0x1fffffff zeros 0 5)"
    by (simp_all add: arg_for_def)
  have "work_parse Little sample_env ?arg = Inr (work_params_for Little sample_env 0x1fffffff zeros 0 5)"
    by (rule work_parse_text) (simp_all add: arg_for_def sample_env_def)
  from work_answer_accepted [OF safe_sample_env(1) _ _ _ cmd(2) this, of 9 0] show ?thesis
    unfolding cmd(1) by auto
qed

end
