(* ===== verification/Session.thy ===== *)
theory Session
  imports Work Client
begin

text \<open>
  A command from the bytes of the client to the bytes of the answer: the block of \<open>client_handler\<close>
  that logs and dispatches a command, and \<open>handler_wrapper\<close>, which runs the chosen handler.  The
  protocol is stated on its own, as commands with a textual form and the messages they are
  answered with; the code is shown to follow it.
\<close>

section \<open>Running a command\<close>

text \<open>
  \<open>work_handler\<close> as one function; the last argument is the nonce that the batches publish, which is
  related to their search by the properties of that search.
\<close>

definition work_handler :: "endian \<Rightarrow> io_env \<Rightarrow> worker_arg \<Rightarrow> u64 \<Rightarrow> io_event list c_result" where
  "work_handler host env arg sol =
     bind_c (work_parse host env arg) (\<lambda>p.
     bind_c (work_chunks (wp_n p) (wp_thread_count p)) (\<lambda>btch_args.
       work_answer host env arg p sol))"

text \<open>\<open>abrt_handler\<close> sends nothing; its effect on other threads is in the model of the threads.\<close>

definition handler_wrapper :: "endian \<Rightarrow> io_env \<Rightarrow> u64 \<Rightarrow> worker_func \<Rightarrow> worker_arg \<Rightarrow> io_event list c_result" where
  "handler_wrapper host env sol f arg =
     (case f of
        Ping_handler \<Rightarrow> ping_handler env arg
      | Pong_handler \<Rightarrow> pong_handler env arg
      | Okay_handler \<Rightarrow> okay_handler env arg
      | Erro_handler \<Rightarrow> erro_handler env arg
      | Soln_handler \<Rightarrow> soln_handler host env arg
      | Slep_handler \<Rightarrow> slep_handler env arg
      | Abrt_handler \<Rightarrow> Inr []
      | Work_handler \<Rightarrow> work_handler host env arg sol
      | Cust_handler \<Rightarrow> cust_handler env arg
      | Unkn_handler \<Rightarrow> unkn_handler env arg)"

definition run_command :: "endian \<Rightarrow> io_env \<Rightarrow> sockaddr_in \<Rightarrow> int \<Rightarrow> u64 \<Rightarrow> int \<Rightarrow> char option list \<Rightarrow>
    (io_event list \<times> int) c_result" where
  "run_command host env addr fd sol works cmd =
     bind_c (read_str cmd) (\<lambda>s.
     bind_c (logger_log env (Some addr) fd cmd (int (length s))) (\<lambda>log.
     bind_c (dispatch fd cmd works) (\<lambda>(f, arg, works').
     bind_c (handler_wrapper host env sol f arg) (\<lambda>evs.
       Inr (log @ evs, works')))))"

text \<open>
  Starting a command in the model of the threads: the client thread has a slot whose previous thread
  has ended; an accepted WORK is counted and put at the end of the queue, and the thread is created.
\<close>

definition start_command :: "int \<Rightarrow> char option list \<Rightarrow> nat \<Rightarrow> client_state \<Rightarrow> (worker_func \<times> client_state) c_result" where
  "start_command fd cmd i s =
     bind_c (dispatch fd cmd (work_count s)) (\<lambda>(f, arg, works').
       Inr (f, if f = Work_handler
               then (spawn i Waiting s)\<lparr>cl_queue := cl_queue s @ [i], work_count := works'\<rparr>
               else spawn i Other s))"

section \<open>The protocol\<close>

datatype command =
    PING | PONG | OKAY | ERRO | SLEP | ABRT
  | SOLN WORD "BYTE list" u64
  | WORK WORD "BYTE list" u64 BYTE
  | Unknown "char list"

fun command_text :: "command \<Rightarrow> char list" where
  "command_text PING = ''PING''"
| "command_text PONG = ''PONG''"
| "command_text OKAY = ''OKAY''"
| "command_text ERRO = ''ERRO''"
| "command_text SLEP = ''SLEP''"
| "command_text ABRT = ''ABRT''"
| "command_text (SOLN w seed n) = soln_text w seed n"
| "command_text (WORK w seed n t) = work_text w seed n t"
| "command_text (Unknown s) = s"

text \<open>
  A seed has 32 bytes and a WORK at least one thread; the nonces that \<open>get_x\<close> takes for the wrong
  byte order are left out; an unknown command is a line that is none of the others.
\<close>

fun well_formed :: "command \<Rightarrow> bool" where
  "well_formed (SOLN w seed n) \<longleftrightarrow> length seed = 32 \<and> \<not> byte_palindrome n"
| "well_formed (WORK w seed n t) \<longleftrightarrow> length seed = 32 \<and> t \<noteq> 0"
| "well_formed (Unknown s) \<longleftrightarrow> NUL \<notin> set s \<and> LF \<notin> set s \<and> handler_for s 0 = Unkn_handler"
| "well_formed _ \<longleftrightarrow> True"

fun replies :: "u64 \<Rightarrow> int \<Rightarrow> command \<Rightarrow> char list list" where
  "replies sol c PING = [''PONG'' @ [CR, LF]]"
| "replies sol c PONG = [reply_frame ''ERRO'' ''PONG is strictly reserved for server'']"
| "replies sol c OKAY = [reply_frame ''ERRO'' (''Dude it'' @ [CHR 0x27] @ ''s not okay to send OKAY okay?'')]"
| "replies sol c ERRO = [reply_frame ''ERRO'' ''Only I can send YOU errors =.='']"
| "replies sol c SLEP = [reply_frame ''OKAY'' ''sleeping 3 seconds..'', reply_frame ''OKAY'' ''I just woke up!'']"
| "replies sol c ABRT = []"
| "replies sol c (SOLN w seed n) =
     [if solves w seed n then ''OKAY'' @ [CR, LF] else reply_frame ''ERRO'' ''Not a valid solution'']"
| "replies sol c (WORK w seed n t) =
     [if c < GLOBAL_WORK_LIMIT then soln_text w seed sol @ [CR, LF]
      else reply_frame ''ERRO'' ''Server is full of WORK'']"
| "replies sol c (Unknown s) = [reply_frame ''ERRO'' ''Unknown command or format'']"

fun works_after :: "int \<Rightarrow> command \<Rightarrow> int" where
  "works_after c (WORK w seed n t) = (if c < GLOBAL_WORK_LIMIT then c + 1 else c)"
| "works_after c _ = c"

text \<open>What is sent to the socket of the client.\<close>

definition sent_to :: "int \<Rightarrow> io_event list \<Rightarrow> char list list" where
  "sent_to fd evs = concat (map (\<lambda>e. case e of Write f s \<Rightarrow> if f = fd then [s] else [] | _ \<Rightarrow> []) evs)"

lemma sent_to_simps [simp]:
  "sent_to fd [] = []" "sent_to fd (Log_Line l # evs) = sent_to fd evs"
  "sent_to fd (Write fd s # evs) = s # sent_to fd evs" "sent_to fd (evs @ evs') = sent_to fd evs @ sent_to fd evs'"
  by (simp_all add: sent_to_def)

section \<open>A command is answered as the protocol says\<close>

fun command_handler :: "int \<Rightarrow> command \<Rightarrow> worker_func" where
  "command_handler c PING = Ping_handler"
| "command_handler c PONG = Pong_handler"
| "command_handler c OKAY = Okay_handler"
| "command_handler c ERRO = Erro_handler"
| "command_handler c SLEP = Slep_handler"
| "command_handler c ABRT = Abrt_handler"
| "command_handler c (SOLN w seed n) = Soln_handler"
| "command_handler c (WORK w seed n t) = (if c < GLOBAL_WORK_LIMIT then Work_handler else Cust_handler)"
| "command_handler c (Unknown s) = Unkn_handler"

lemma handler_for_unknown: "handler_for s 0 = Unkn_handler \<Longrightarrow> handler_for s c = Unkn_handler"
  by (auto simp: handler_for_def split: if_splits)

lemma handler_for_command: "well_formed cmd \<Longrightarrow> handler_for (command_text cmd) c = command_handler c cmd"
proof (cases cmd)
  case (SOLN w seed n)
  then show "well_formed cmd \<Longrightarrow> ?thesis"
    using length_soln_text [of seed w n] by (auto simp: handler_for_def soln_text_def)
next
  case (WORK w seed n t)
  then show "well_formed cmd \<Longrightarrow> ?thesis"
    using length_work_text [of seed w n t] by (auto simp: handler_for_def work_text_def)
next
  case (Unknown s)
  then show "well_formed cmd \<Longrightarrow> ?thesis"
    by (simp add: handler_for_unknown)
qed (simp_all add: handler_for_def)

lemma NUL_notin_command: "well_formed cmd \<Longrightarrow> NUL \<notin> set (command_text cmd)"
  by (cases cmd) (simp_all add: NUL_notin_soln_text NUL_notin_work_text)

lemma works_after_handler:
  "works_after c cmd = (if command_handler c cmd = Work_handler then c + 1 else c)"
  by (cases cmd) simp_all

lemma dispatch_command:
  assumes "well_formed cmd"
  shows "dispatch fd (cmd_mem (command_text cmd)) c =
    Inr (command_handler c cmd, arg_for fd (command_text cmd) (command_handler c cmd), works_after c cmd)"
  using dispatch_eq [OF NUL_notin_command [OF assms]] assms
  by (simp add: handler_for_command works_after_handler)

lemma newsockfd_arg_for [simp]: "newsockfd (arg_for fd s f) = fd" "command_str (arg_for fd s f) = cmd_mem s"
  by (simp_all add: arg_for_def)

lemma thread_count_range:
  assumes "t \<noteq> (0 :: BYTE)" shows "0 < int (unat t)" "int (unat t) < 2 ^ 31"
proof -
  have "unat t < 256"
    using unsigned_less [of t] by simp
  moreover have "0 < unat t"
    using assms by (simp add: unat_gt_0)
  moreover have "(256 :: int) < 2 ^ 31"
    by simp
  ultimately show "0 < int (unat t)" "int (unat t) < 2 ^ 31"
    by linarith+
qed

lemma work_reply:
  assumes "safe_env env" "0 \<le> fd" "fd < 1000" "length seed = 32" "t \<noteq> 0"
  shows "\<exists>l. work_handler host env (arg_for fd (work_text w seed n t) f) sol =
    Inr [Log_Line l, Write fd (soln_text w seed sol @ [CR, LF])]"
proof -
  let ?arg = "arg_for fd (work_text w seed n t) f"
  have "stack_slack env \<noteq> 0"
    using assms(1) by (simp add: safe_env_def)
  then have parse: "work_parse host env ?arg = Inr (work_params_for host env w seed n t)"
    by (intro work_parse_text assms(4)) simp_all
  obtain args where "work_chunks n (int (unat t)) = Inr args"
    using work_chunks_ranges [OF thread_count_range [OF assms(5)], of n] by metis
  with parse work_answer_text [of env ?arg seed host w n t sol] assms(1-4) show ?thesis
    by (simp add: work_handler_def work_params_for_def)
qed

lemma reason_reply:
  assumes "safe_env env" "0 \<le> fd" "fd < 1000" "length info = 4" "NUL \<notin> set info" "NUL \<notin> set reason" "length reason \<le> 38"
  shows "\<exists>evs. send_formatted env fd info (Some reason) = Inr evs \<and> sent_to fd evs = [reply_frame info reason]"
  using send_frame [OF assms] by auto

lemma handler_replies:
  assumes "safe_env env" "0 \<le> fd" "fd < 1000" "well_formed cmd"
  shows "\<exists>evs. handler_wrapper Little env sol (command_handler c cmd)
      (arg_for fd (command_text cmd) (command_handler c cmd)) = Inr evs \<and> sent_to fd evs = replies sol c cmd"
proof (cases cmd)
  case PING
  then show ?thesis
    using ping_reply [OF assms(1), of "arg_for fd ''PING'' Ping_handler"] assms(2,3) by (auto simp: handler_wrapper_def)
next
  case SLEP
  obtain evs evs' where "send_formatted env fd ''OKAY'' (Some ''sleeping 3 seconds..'') = Inr evs"
    "sent_to fd evs = [reply_frame ''OKAY'' ''sleeping 3 seconds..'']"
    "send_formatted env fd ''OKAY'' (Some ''I just woke up!'') = Inr evs'"
    "sent_to fd evs' = [reply_frame ''OKAY'' ''I just woke up!'']"
    using reason_reply [OF assms(1-3), of "''OKAY''" "''sleeping 3 seconds..''"]
      reason_reply [OF assms(1-3), of "''OKAY''" "''I just woke up!''"] by auto
  with SLEP show ?thesis
    by (simp add: handler_wrapper_def slep_handler_def)
next
  case (SOLN w seed n)
  then have "length seed = 32" "\<not> byte_palindrome n"
    using assms(4) by simp_all
  with soln_reply [OF assms(1), of "arg_for fd (soln_text w seed n) Soln_handler" seed w n] assms(2,3) SOLN
  show ?thesis
    by (auto simp: handler_wrapper_def reply_frame_def)
next
  case (WORK w seed n t)
  show ?thesis
  proof (cases "c < GLOBAL_WORK_LIMIT")
    case True
    with WORK assms work_reply [OF assms(1-3), of seed t Little w n Work_handler sol] show ?thesis
      by (auto simp: handler_wrapper_def)
  next
    case False
    with WORK reason_reply [OF assms(1-3), of "''ERRO''" "''Server is full of WORK''"] show ?thesis
      by (simp add: handler_wrapper_def cust_handler_def arg_for_def)
  qed
qed (auto simp: handler_wrapper_def reason_handlers intro!: reason_reply [OF assms(1-3)])

lemma run_command_replies:
  assumes "safe_env env" "addr_ok addr" "0 \<le> fd" "fd < 1000" "well_formed cmd"
  shows "\<exists>evs. run_command Little env addr fd sol c (cmd_mem (command_text cmd)) = Inr (evs, works_after c cmd)
    \<and> sent_to fd evs = replies sol c cmd"
proof -
  have nul: "NUL \<notin> set (command_text cmd)"
    by (rule NUL_notin_command [OF assms(5)])
  have slack: "heap_slack env \<noteq> 0" "\<not> stack_slack env < 8" "env_ok env"
    using assms(1) by (auto simp: safe_env_def)
  have "logger_log env (Some addr) fd (cmd_mem (command_text cmd)) (int (length (command_text cmd))) =
      Inr [Log_Line (log_line env (Some addr) fd (command_text cmd))]"
    using logger_log_eq [OF slack(3) assms(3,4) _ nul, of "Some addr" "[]"] assms(2) slack
    by (simp add: cmd_mem_def)
  moreover obtain evs where "handler_wrapper Little env sol (command_handler c cmd)
      (arg_for fd (command_text cmd) (command_handler c cmd)) = Inr evs" "sent_to fd evs = replies sol c cmd"
    using handler_replies [OF assms(1,3-5)] by blast
  ultimately show ?thesis
    by (simp add: run_command_def read_cmd_mem [OF nul] dispatch_command [OF assms(5)])
qed

section \<open>A stream of commands\<close>

definition stream_text :: "command list \<Rightarrow> char list" where
  "stream_text cmds = concat (map (\<lambda>c. command_text c @ [CR, LF]) cmds)"

lemma LF_notin_digits [simp]: "LF \<notin> set (print_hex k v)" "LF \<notin> set (hex_text bs)"
  using print_hex_digits [of LF k v] hex_text_digits [of LF bs] by auto

lemma LF_notin_command: "well_formed cmd \<Longrightarrow> LF \<notin> set (command_text cmd)"
  by (cases cmd) (simp_all add: soln_text_def work_text_def)

lemma NUL_notin_stream: "\<forall>cmd \<in> set cmds. well_formed cmd \<Longrightarrow> NUL \<notin> set (stream_text cmds)"
  by (auto simp: stream_text_def NUL_notin_command)

lemma crlf_index_line: "LF \<notin> set s \<Longrightarrow> crlf_index (s @ CR # LF # r) = Some (length s)"
proof (induction s)
  case (Cons c s)
  then show ?case by (cases s) auto
qed simp

lemma split_stream: "\<forall>cmd \<in> set cmds. well_formed cmd \<Longrightarrow> split_commands (stream_text cmds) = (map command_text cmds, [])"
proof (induction cmds)
  case Nil
  show ?case by (simp add: stream_text_def split_commands.simps)
next
  case (Cons cmd cmds)
  have "stream_text (cmd # cmds) = command_text cmd @ CR # LF # stream_text cmds"
    by (simp add: stream_text_def)
  moreover have "crlf_index (command_text cmd @ CR # LF # stream_text cmds) = Some (length (command_text cmd))"
    using Cons.prems by (intro crlf_index_line LF_notin_command) simp
  ultimately show ?case
    using Cons by (subst split_commands.simps) simp
qed

lemma concat_c_str: "NUL \<notin> set (concat chunks) \<Longrightarrow> concat (map c_str chunks) = concat chunks"
  by (induction chunks) (auto simp: c_str_id)

lemma stream_commands:
  assumes "\<forall>cmd \<in> set cmds. well_formed cmd" "concat chunks = stream_text cmds"
    and "\<forall>c \<in> set chunks. c \<noteq> [] \<and> length c < BUFFER_LEN" "length (stream_text cmds) < 2 ^ 30"
  shows "\<exists>b. client_loop (Suc (length chunks)) recv_buf_init chunks =
      Some (Inr (map (\<lambda>cmd. cmd_mem (command_text cmd)) cmds, b)) \<and> recv_pending b = []"
proof -
  have "concat (map c_str chunks) = stream_text cmds"
    using concat_c_str [of chunks] NUL_notin_stream [OF assms(1)] assms(2) by simp
  then show ?thesis
    using recv.loop_ok [OF recv_ok_init(1), of chunks] assms(3,4) split_stream [OF assms(1)]
    by (auto simp: recv_ok_init(2) comp_def)
qed

section \<open>Properties\<close>

text \<open>
  Property C17. The model of the threads is what the code does with a command: whatever line the
  client thread has taken from the buffer, dispatching it and creating its thread is a step of the
  thread model, and the queue grows by the new thread exactly when the line is an accepted WORK.
\<close>

theorem start_command_step:
  assumes "cl_pc s = Acquired i" "cl_threads s i = None" "NUL \<notin> set line"
  shows "\<exists>f s'. start_command fd (cmd_mem line) i s = Inr (f, s') \<and> client_step s s'
    \<and> f = handler_for line (work_count s)
    \<and> cl_queue s' = cl_queue s @ (if f = Work_handler then [i] else [])
    \<and> work_count s' = work_count s + (if f = Work_handler then 1 else 0)"
proof (cases "handler_for line (work_count s) = Work_handler")
  case True
  then have "work_count s < GLOBAL_WORK_LIMIT"
    by (auto simp: handler_for_def split: if_splits)
  from client_step.spawn_work [OF assms(1,2) this] True show ?thesis
    by (simp add: start_command_def dispatch_eq [OF assms(3)])
next
  case False
  with client_step.spawn_other [OF assms(1,2)] show ?thesis
    by (simp add: start_command_def dispatch_eq [OF assms(3)])
qed

theorem start_command_step_witness:
  "\<exists>s f s'. run_schedule [Acquire 0] client_init = Some s \<and> start_command 5 (cmd_mem ''ABRT'') 0 s = Inr (f, s')
    \<and> client_step s s' \<and> cl_queue s' = []"
proof -
  have "map_option (\<lambda>s. (cl_pc s, cl_threads s 0 = None, cl_queue s)) (run_schedule [Acquire 0] client_init) =
      Some (Acquired 0, True, [])"
    by code_simp
  then obtain s where s: "run_schedule [Acquire 0] client_init = Some s" "cl_pc s = Acquired 0" "cl_threads s 0 = None"
      "cl_queue s = []"
    by auto
  from start_command_step [OF s(2,3), of "''ABRT''" 5] s show ?thesis
    by (auto simp: handler_for_def)
qed


definition sample_chunks :: "char list list" where
  "sample_chunks = [''PI'', ''NG'' @ [CR, LF] @ ''HEL'', ''LO'' @ [CR, LF]]"

definition sample_addr :: sockaddr_in where
  "sample_addr = \<lparr>sin_addr = ''10.0.0.7'', sin_port = 4000\<rparr>"




end
