(* ===== verification/Known_Answers.thy ===== *)
theory Known_Answers
  imports Session
begin

text \<open>
  The models on the inputs of the repository's own tests: the first message of
  \<open>crypto/sha256_test.c\<close> and the first sample of \<open>output\<close> (\<open>sol1-out.txt\<close>, a SOLN that the server
  answered with OKAY).  The table of round constants is shared by the model of \<open>sha256.c\<close> and by the
  statement of the standard, so these runs also check the table.
\<close>

section \<open>Digests of one block\<close>

lemma fold_upt_trans:
  assumes "fold f [i..<j] r = s" "fold f [j..<k] s = t" "i \<le> j" "j \<le> k" shows "fold f [i..<k] r = t"
proof -
  have "[i..<k] = [i..<j] @ [j..<k]"
    using assms(3,4) by (metis le_Suc_ex upt_add_eq_append)
  with assms(1,2) show ?thesis
    by simp
qed

lemma compress_block:
  assumes "length blk = 64" "sha256_schedule blk = m"
    "fold (sha256_round m) [0..<64] (h0, h1, h2, h3, h4, h5, h6, h7) = (a, b, c, d, e, f, g, h)"
  shows "fips_compress [h0, h1, h2, h3, h4, h5, h6, h7] blk = [h0 + a, h1 + b, h2 + c, h3 + d, h4 + e, h5 + f, h6 + g, h7 + h]"
proof -
  have "fips_vars blk (h0, h1, h2, h3, h4, h5, h6, h7) 64 = (a, b, c, d, e, f, g, h)"
    using sha256_rounds [OF assms(1), of 64] assms(2,3) by simp
  then show ?thesis
    by (simp add: fips_compress_def)
qed

lemma one_block_digest:
  assumes "fips_pad msg = blk" "length blk = 64" "sha256_schedule blk = m"
    and "fold (sha256_round m) [0..<64] (0x6a09e667, 0xbb67ae85, 0x3c6ef372, 0xa54ff53a, 0x510e527f, 0x9b05688c, 0x1f83d9ab, 0x5be0cd19)
      = (a, b, c, d, e, f, g, h)"
  shows "fips_sha256 msg = concat (map be_bytes32
    [0x6a09e667 + a, 0xbb67ae85 + b, 0x3c6ef372 + c, 0xa54ff53a + d, 0x510e527f + e, 0x9b05688c + f, 0x1f83d9ab + g, 0x5be0cd19 + h])"
  using compress_block [OF assms(2,3,4)] by (simp only: fips_sha256_def assms(1) fips_chain_block [OF assms(2)] fips_H0_def)

section \<open>The message \<open>abc\<close>\<close>

definition abc :: "BYTE list" where
  "abc = [97, 98, 99]"

definition abc_block :: "BYTE list" where
  "abc_block = [0x61, 0x62, 0x63, 0x80, 0x00, 0x00, 0x00, 0x00, 0x00, 0x00, 0x00, 0x00, 0x00, 0x00, 0x00, 0x00,
     0x00, 0x00, 0x00, 0x00, 0x00, 0x00, 0x00, 0x00, 0x00, 0x00, 0x00, 0x00, 0x00, 0x00, 0x00, 0x00,
     0x00, 0x00, 0x00, 0x00, 0x00, 0x00, 0x00, 0x00, 0x00, 0x00, 0x00, 0x00, 0x00, 0x00, 0x00, 0x00,
     0x00, 0x00, 0x00, 0x00, 0x00, 0x00, 0x00, 0x00, 0x00, 0x00, 0x00, 0x00, 0x00, 0x00, 0x00, 0x18]"

definition abc_words :: "WORD list" where
  "abc_words = [0x61626380, 0x00000000, 0x00000000, 0x00000000, 0x00000000, 0x00000000, 0x00000000, 0x00000000,
     0x00000000, 0x00000000, 0x00000000, 0x00000000, 0x00000000, 0x00000000, 0x00000000, 0x00000018,
     0x61626380, 0x000f0000, 0x7da86405, 0x600003c6, 0x3e9d7b78, 0x0183fc00, 0x12dcbfdb, 0xe2e2c38e,
     0xc8215c1a, 0xb73679a2, 0xe5bc3909, 0x32663c5b, 0x9d209d67, 0xec8726cb, 0x702138a4, 0xd3b7973b,
     0x93f5997f, 0x3b68ba73, 0xaff4ffc1, 0xf10a5c62, 0x0a8b3996, 0x72af830a, 0x9409e33e, 0x24641522,
     0x9f47bf94, 0xf0a64f5a, 0x3e246a79, 0x27333ba3, 0x0c4763f2, 0x840abf27, 0x7a290d5d, 0x065c43da,
     0xfb3e89cb, 0xcc7617db, 0xb9e66c34, 0xa9993667, 0x84badedd, 0xc21462bc, 0x1487472c, 0xb20f7a99,
     0xef57b9cd, 0xebe6b238, 0x9fe3095e, 0x78bc8d4b, 0xa43fcf15, 0x668b2ff8, 0xeeaba2cc, 0x12b1edeb]"

lemma abc_schedule: "sha256_schedule abc_block = abc_words"
  by code_simp

lemma abc_rounds_0: "fold (sha256_round abc_words) [0..<16]
    (0x6a09e667, 0xbb67ae85, 0x3c6ef372, 0xa54ff53a, 0x510e527f, 0x9b05688c, 0x1f83d9ab, 0x5be0cd19) =
    (0xb0fa238e, 0xc0645fde, 0xd932eb16, 0x87912990, 0x07590dcd, 0x0b92f20c, 0x745a48de, 0x1e578218)"
  by code_simp

lemma abc_rounds_1: "fold (sha256_round abc_words) [16..<32]
    (0xb0fa238e, 0xc0645fde, 0xd932eb16, 0x87912990, 0x07590dcd, 0x0b92f20c, 0x745a48de, 0x1e578218) =
    (0x73b33bf5, 0xea992a22, 0xa0060b30, 0x363482c9, 0xba591112, 0x0109ab3a, 0xade79437, 0x6112a3b7)"
  by code_simp

lemma abc_rounds_2: "fold (sha256_round abc_words) [32..<48]
    (0x73b33bf5, 0xea992a22, 0xa0060b30, 0x363482c9, 0xba591112, 0x0109ab3a, 0xade79437, 0x6112a3b7) =
    (0x4172328d, 0xa14c14b0, 0x72ab4b91, 0x26628815, 0xfecf0bc6, 0xd57b94a9, 0xb7755da1, 0xa80f11f0)"
  by code_simp

lemma abc_rounds_3: "fold (sha256_round abc_words) [48..<64]
    (0x4172328d, 0xa14c14b0, 0x72ab4b91, 0x26628815, 0xfecf0bc6, 0xd57b94a9, 0xb7755da1, 0xa80f11f0) =
    (0x506e3058, 0xd39a2165, 0x04d24d6c, 0xb85e2ce9, 0x5ef50f24, 0xfb121210, 0x948d25b6, 0x961f4894)"
  by code_simp

definition abc_digest :: "BYTE list" where
  "abc_digest = [0xba, 0x78, 0x16, 0xbf, 0x8f, 0x01, 0xcf, 0xea, 0x41, 0x41, 0x40, 0xde, 0x5d, 0xae, 0x22, 0x23,
     0xb0, 0x03, 0x61, 0xa3, 0x96, 0x17, 0x7a, 0x9c, 0xb4, 0x10, 0xff, 0x61, 0xf2, 0x00, 0x15, 0xad]"

lemma abc_pad: "fips_pad abc = abc_block" "length abc_block = 64"
proof -
  have "replicate 52 (0 :: BYTE) = [0, 0, 0, 0, 0, 0, 0, 0, 0, 0, 0, 0, 0, 0, 0, 0, 0, 0, 0, 0, 0, 0, 0, 0, 0, 0, 0, 0, 0, 0, 0, 0, 0, 0, 0, 0, 0, 0, 0, 0, 0, 0, 0, 0, 0, 0, 0, 0, 0, 0, 0, 0]"
    by code_simp
  then show "fips_pad abc = abc_block" "length abc_block = 64"
    by (simp_all add: fips_pad_def pad_zeros_def be64_def abc_def abc_block_def)
qed

lemma abc_hash: "fips_sha256 abc = abc_digest"
proof -
  have "fold (sha256_round abc_words) [0..<64]
      (0x6a09e667, 0xbb67ae85, 0x3c6ef372, 0xa54ff53a, 0x510e527f, 0x9b05688c, 0x1f83d9ab, 0x5be0cd19) =
      (0x506e3058, 0xd39a2165, 0x04d24d6c, 0xb85e2ce9, 0x5ef50f24, 0xfb121210, 0x948d25b6, 0x961f4894)"
    by (rule fold_upt_trans [OF abc_rounds_0 fold_upt_trans [OF abc_rounds_1 fold_upt_trans [OF abc_rounds_2 abc_rounds_3]]]) simp_all
  from one_block_digest [OF abc_pad abc_schedule this]
  have "fips_sha256 abc = concat (map be_bytes32 [0x6a09e667 + 0x506e3058, 0xbb67ae85 + 0xd39a2165, 0x3c6ef372 + 0x04d24d6c, 0xa54ff53a + 0xb85e2ce9, 0x510e527f + 0x5ef50f24, 0x9b05688c + 0xfb121210, 0x1f83d9ab + 0x948d25b6, 0x5be0cd19 + 0x961f4894])" .
  moreover have "concat (map be_bytes32 [0x6a09e667 + 0x506e3058, 0xbb67ae85 + 0xd39a2165, 0x3c6ef372 + 0x04d24d6c, 0xa54ff53a + 0xb85e2ce9, 0x510e527f + 0x5ef50f24, 0x9b05688c + 0xfb121210, 0x1f83d9ab + 0x948d25b6, 0x5be0cd19 + 0x961f4894]) = abc_digest"
    by code_simp
  ultimately show ?thesis
    by simp
qed

section \<open>A solved puzzle\<close>

definition sample_seed :: "BYTE list" where
  "sample_seed = [0x00, 0x00, 0x00, 0x00, 0x19, 0xd6, 0x68, 0x9c, 0x08, 0x5a, 0xe1, 0x65, 0x83, 0x1e, 0x93, 0x4f,
     0xf7, 0x63, 0xae, 0x46, 0xa2, 0x18, 0xa6, 0xc1, 0x72, 0xb3, 0xf1, 0xb6, 0x0a, 0x8c, 0xe2, 0x6f]"

definition sample_nonce :: u64 where
  "sample_nonce = 0x1000000023212147"

definition sample_x :: "BYTE list" where
  "sample_x = sample_seed @ be_bytes64 sample_nonce"

lemma sample_x_bytes: "sample_x =
    [0x00, 0x00, 0x00, 0x00, 0x19, 0xd6, 0x68, 0x9c, 0x08, 0x5a, 0xe1, 0x65, 0x83, 0x1e, 0x93, 0x4f,
     0xf7, 0x63, 0xae, 0x46, 0xa2, 0x18, 0xa6, 0xc1, 0x72, 0xb3, 0xf1, 0xb6, 0x0a, 0x8c, 0xe2, 0x6f,
     0x10, 0x00, 0x00, 0x00, 0x23, 0x21, 0x21, 0x47]"
  by code_simp

definition inner_block :: "BYTE list" where
  "inner_block = [0x00, 0x00, 0x00, 0x00, 0x19, 0xd6, 0x68, 0x9c, 0x08, 0x5a, 0xe1, 0x65, 0x83, 0x1e, 0x93, 0x4f,
     0xf7, 0x63, 0xae, 0x46, 0xa2, 0x18, 0xa6, 0xc1, 0x72, 0xb3, 0xf1, 0xb6, 0x0a, 0x8c, 0xe2, 0x6f,
     0x10, 0x00, 0x00, 0x00, 0x23, 0x21, 0x21, 0x47, 0x80, 0x00, 0x00, 0x00, 0x00, 0x00, 0x00, 0x00,
     0x00, 0x00, 0x00, 0x00, 0x00, 0x00, 0x00, 0x00, 0x00, 0x00, 0x00, 0x00, 0x00, 0x00, 0x01, 0x40]"

definition inner_words :: "WORD list" where
  "inner_words = [0x00000000, 0x19d6689c, 0x085ae165, 0x831e934f, 0xf763ae46, 0xa218a6c1, 0x72b3f1b6, 0x0a8ce26f,
     0x10000000, 0x23212147, 0x80000000, 0x00000000, 0x00000000, 0x00000000, 0x00000000, 0x00000140,
     0xc44f88fe, 0x0da11494, 0x69629a39, 0xa48d91bc, 0xd45cbc94, 0xbbb811ed, 0x248121aa, 0xdbe1f41c,
     0x94fe39ce, 0x623eea71, 0x0089392a, 0x7ccacf76, 0x77687408, 0x62cbe4f9, 0x90cae38a, 0x2b3849f0,
     0xc0a90006, 0x1567f8d2, 0x90187be7, 0x3b7233a1, 0x324efa8e, 0xc4e10b28, 0x51a083fd, 0x4310d545,
     0x501b9579, 0x7ccce9ac, 0x44c044f8, 0x9c18107c, 0x6ede4dfd, 0x7e5db205, 0xba83d959, 0x4047291c,
     0x2dd1ea4b, 0x8fc0d338, 0xbe89005a, 0xc2b7f601, 0x5c9629b3, 0x55bd5e81, 0x1b95f932, 0x9365c051,
     0x90a1304c, 0x7c8ba5da, 0xb428422a, 0x0370bbff, 0x57cf05b2, 0x36e77b68, 0xab33a7e9, 0x0d3053c2]"

lemma inner_schedule: "sha256_schedule inner_block = inner_words"
  by code_simp

lemma inner_rounds_0: "fold (sha256_round inner_words) [0..<16]
    (0x6a09e667, 0xbb67ae85, 0x3c6ef372, 0xa54ff53a, 0x510e527f, 0x9b05688c, 0x1f83d9ab, 0x5be0cd19) =
    (0x910beb09, 0x3f3c6e05, 0x03e352c9, 0xbc3100a2, 0x906b98c5, 0x7719777f, 0xf96db55f, 0x09bb6bb0)"
  by code_simp

lemma inner_rounds_1: "fold (sha256_round inner_words) [16..<32]
    (0x910beb09, 0x3f3c6e05, 0x03e352c9, 0xbc3100a2, 0x906b98c5, 0x7719777f, 0xf96db55f, 0x09bb6bb0) =
    (0x21205e89, 0x3d9572c9, 0x5690927d, 0x42697d51, 0x4e07c9d3, 0xac837d96, 0x981e049a, 0xb1cf7e83)"
  by code_simp

lemma inner_rounds_2: "fold (sha256_round inner_words) [32..<48]
    (0x21205e89, 0x3d9572c9, 0x5690927d, 0x42697d51, 0x4e07c9d3, 0xac837d96, 0x981e049a, 0xb1cf7e83) =
    (0xb2b48ba5, 0x0656d4de, 0x77ddbe8c, 0xd18af1e3, 0xacd30c88, 0xe77f9ae6, 0x4681658f, 0x2b6323f3)"
  by code_simp

lemma inner_rounds_3: "fold (sha256_round inner_words) [48..<64]
    (0xb2b48ba5, 0x0656d4de, 0x77ddbe8c, 0xd18af1e3, 0xacd30c88, 0xe77f9ae6, 0x4681658f, 0x2b6323f3) =
    (0x136a1f91, 0xbc4dc112, 0xd4e2e5ad, 0x30df2194, 0x12522b4e, 0x872efde9, 0x1b837a54, 0x1352d618)"
  by code_simp

definition inner_digest :: "BYTE list" where
  "inner_digest = [0x7d, 0x74, 0x05, 0xf8, 0x77, 0xb5, 0x6f, 0x97, 0x11, 0x51, 0xd9, 0x1f, 0xd6, 0x2f, 0x16, 0xce,
     0x63, 0x60, 0x7d, 0xcd, 0x22, 0x34, 0x66, 0x75, 0x3b, 0x07, 0x53, 0xff, 0x6f, 0x33, 0xa3, 0x31]"

lemma inner_pad: "fips_pad sample_x = inner_block" "length inner_block = 64"
proof -
  have "replicate 15 (0 :: BYTE) = [0, 0, 0, 0, 0, 0, 0, 0, 0, 0, 0, 0, 0, 0, 0]"
    by code_simp
  then show "fips_pad sample_x = inner_block" "length inner_block = 64"
    by (simp_all add: fips_pad_def pad_zeros_def be64_def sample_x_bytes inner_block_def)
qed

lemma inner_hash: "fips_sha256 sample_x = inner_digest"
proof -
  have "fold (sha256_round inner_words) [0..<64]
      (0x6a09e667, 0xbb67ae85, 0x3c6ef372, 0xa54ff53a, 0x510e527f, 0x9b05688c, 0x1f83d9ab, 0x5be0cd19) =
      (0x136a1f91, 0xbc4dc112, 0xd4e2e5ad, 0x30df2194, 0x12522b4e, 0x872efde9, 0x1b837a54, 0x1352d618)"
    by (rule fold_upt_trans [OF inner_rounds_0 fold_upt_trans [OF inner_rounds_1 fold_upt_trans [OF inner_rounds_2 inner_rounds_3]]]) simp_all
  from one_block_digest [OF inner_pad inner_schedule this]
  have "fips_sha256 sample_x = concat (map be_bytes32 [0x6a09e667 + 0x136a1f91, 0xbb67ae85 + 0xbc4dc112, 0x3c6ef372 + 0xd4e2e5ad, 0xa54ff53a + 0x30df2194, 0x510e527f + 0x12522b4e, 0x9b05688c + 0x872efde9, 0x1f83d9ab + 0x1b837a54, 0x5be0cd19 + 0x1352d618])" .
  moreover have "concat (map be_bytes32 [0x6a09e667 + 0x136a1f91, 0xbb67ae85 + 0xbc4dc112, 0x3c6ef372 + 0xd4e2e5ad, 0xa54ff53a + 0x30df2194, 0x510e527f + 0x12522b4e, 0x9b05688c + 0x872efde9, 0x1f83d9ab + 0x1b837a54, 0x5be0cd19 + 0x1352d618]) = inner_digest"
    by code_simp
  ultimately show ?thesis
    by simp
qed

definition outer_block :: "BYTE list" where
  "outer_block = [0x7d, 0x74, 0x05, 0xf8, 0x77, 0xb5, 0x6f, 0x97, 0x11, 0x51, 0xd9, 0x1f, 0xd6, 0x2f, 0x16, 0xce,
     0x63, 0x60, 0x7d, 0xcd, 0x22, 0x34, 0x66, 0x75, 0x3b, 0x07, 0x53, 0xff, 0x6f, 0x33, 0xa3, 0x31,
     0x80, 0x00, 0x00, 0x00, 0x00, 0x00, 0x00, 0x00, 0x00, 0x00, 0x00, 0x00, 0x00, 0x00, 0x00, 0x00,
     0x00, 0x00, 0x00, 0x00, 0x00, 0x00, 0x00, 0x00, 0x00, 0x00, 0x00, 0x00, 0x00, 0x00, 0x01, 0x00]"

definition outer_words :: "WORD list" where
  "outer_words = [0x7d7405f8, 0x77b56f97, 0x1151d91f, 0xd62f16ce, 0x63607dcd, 0x22346675, 0x3b0753ff, 0x6f33a331,
     0x80000000, 0x00000000, 0x00000000, 0x00000000, 0x00000000, 0x00000000, 0x00000000, 0x00000100,
     0xf97020b8, 0xc2a4cc5c, 0x68a1223c, 0x5f9dfe9d, 0x1043bb68, 0x90a873d0, 0x6dd8b8b2, 0xb15a5446,
     0x8df8d9d5, 0xc928fa4f, 0xd7910812, 0x72a012f7, 0x35e74948, 0x7912b7b2, 0xff1aba05, 0x021cebe5,
     0x5fdd8281, 0xc00ef710, 0x9b347c71, 0x77d2b7ab, 0xeaa721b4, 0xe44c8ca4, 0xf32438dc, 0x76095e4a,
     0xa175bcd4, 0x66a92548, 0x9d48f88b, 0x57e0f535, 0x43e4b2fc, 0x8afd07b1, 0x35144d1d, 0x308350bb,
     0xf9ed1413, 0x0eeb4fdb, 0x11ca98a2, 0x46b957fe, 0x0b4d937d, 0x44281342, 0x6d3b2639, 0x4e2847b0,
     0x7d6c51eb, 0xde62cc5c, 0xe3f8654c, 0x7f0544c3, 0xf9ea121e, 0x32ae2b99, 0x730f0eaf, 0xfc6d3dff]"

lemma outer_schedule: "sha256_schedule outer_block = outer_words"
  by code_simp

lemma outer_rounds_0: "fold (sha256_round outer_words) [0..<16]
    (0x6a09e667, 0xbb67ae85, 0x3c6ef372, 0xa54ff53a, 0x510e527f, 0x9b05688c, 0x1f83d9ab, 0x5be0cd19) =
    (0x7f0c7eae, 0x74087376, 0x2a95323c, 0x5775e657, 0xe61875df, 0x3080c33f, 0x896eb261, 0xbcd233d9)"
  by code_simp

lemma outer_rounds_1: "fold (sha256_round outer_words) [16..<32]
    (0x7f0c7eae, 0x74087376, 0x2a95323c, 0x5775e657, 0xe61875df, 0x3080c33f, 0x896eb261, 0xbcd233d9) =
    (0x3ad3cdc6, 0x89156f88, 0x9bbb937f, 0x53fa9c94, 0x2cd7f745, 0xed64ee9b, 0xa8688de5, 0xd1bd2e30)"
  by code_simp

lemma outer_rounds_2: "fold (sha256_round outer_words) [32..<48]
    (0x3ad3cdc6, 0x89156f88, 0x9bbb937f, 0x53fa9c94, 0x2cd7f745, 0xed64ee9b, 0xa8688de5, 0xd1bd2e30) =
    (0x1dfc67bc, 0x9b7a439c, 0xbfd784f7, 0x4a9da918, 0x8bd61b2d, 0xd7965b4f, 0x7ef2b83c, 0x5a1b71b0)"
  by code_simp

lemma outer_rounds_3: "fold (sha256_round outer_words) [48..<64]
    (0x1dfc67bc, 0x9b7a439c, 0xbfd784f7, 0x4a9da918, 0x8bd61b2d, 0xd7965b4f, 0x7ef2b83c, 0x5a1b71b0) =
    (0x96d97a0b, 0xcd8dfd68, 0x98e24e59, 0xb52389b9, 0x801c23a9, 0x3bf6fbd2, 0x5a6db776, 0x37c5d222)"
  by code_simp

definition outer_digest :: "BYTE list" where
  "outer_digest = [0x00, 0xe3, 0x60, 0x72, 0x88, 0xf5, 0xab, 0xed, 0xd5, 0x51, 0x41, 0xcb, 0x5a, 0x73, 0x7e, 0xf3,
     0xd1, 0x2a, 0x76, 0x28, 0xd6, 0xfc, 0x64, 0x5e, 0x79, 0xf1, 0x91, 0x21, 0x93, 0xa6, 0x9f, 0x3b]"

lemma outer_pad: "fips_pad inner_digest = outer_block" "length outer_block = 64"
proof -
  have "replicate 23 (0 :: BYTE) = [0, 0, 0, 0, 0, 0, 0, 0, 0, 0, 0, 0, 0, 0, 0, 0, 0, 0, 0, 0, 0, 0, 0]"
    by code_simp
  then show "fips_pad inner_digest = outer_block" "length outer_block = 64"
    by (simp_all add: fips_pad_def pad_zeros_def be64_def inner_digest_def outer_block_def)
qed

lemma outer_hash: "fips_sha256 inner_digest = outer_digest"
proof -
  have "fold (sha256_round outer_words) [0..<64]
      (0x6a09e667, 0xbb67ae85, 0x3c6ef372, 0xa54ff53a, 0x510e527f, 0x9b05688c, 0x1f83d9ab, 0x5be0cd19) =
      (0x96d97a0b, 0xcd8dfd68, 0x98e24e59, 0xb52389b9, 0x801c23a9, 0x3bf6fbd2, 0x5a6db776, 0x37c5d222)"
    by (rule fold_upt_trans [OF outer_rounds_0 fold_upt_trans [OF outer_rounds_1 fold_upt_trans [OF outer_rounds_2 outer_rounds_3]]]) simp_all
  from one_block_digest [OF outer_pad outer_schedule this]
  have "fips_sha256 inner_digest = concat (map be_bytes32 [0x6a09e667 + 0x96d97a0b, 0xbb67ae85 + 0xcd8dfd68, 0x3c6ef372 + 0x98e24e59, 0xa54ff53a + 0xb52389b9, 0x510e527f + 0x801c23a9, 0x9b05688c + 0x3bf6fbd2, 0x1f83d9ab + 0x5a6db776, 0x5be0cd19 + 0x37c5d222])" .
  moreover have "concat (map be_bytes32 [0x6a09e667 + 0x96d97a0b, 0xbb67ae85 + 0xcd8dfd68, 0x3c6ef372 + 0x98e24e59, 0xa54ff53a + 0xb52389b9, 0x510e527f + 0x801c23a9, 0x9b05688c + 0x3bf6fbd2, 0x1f83d9ab + 0x5a6db776, 0x5be0cd19 + 0x37c5d222]) = outer_digest"
    by code_simp
  ultimately show ?thesis
    by simp
qed

lemma sample_solves: "solves 0x1fffffff sample_seed sample_nonce"
proof -
  have "fips_sha256 (fips_sha256 (sample_seed @ be_bytes64 sample_nonce)) = outer_digest"
    by (simp only: sample_x_def [symmetric] inner_hash outer_hash)
  moreover have "be_val outer_digest < target_of 0x1fffffff"
    by (simp add: outer_digest_def target_of_def)
  ultimately show ?thesis
    by (simp add: solves_def)
qed

definition sample_line :: "char list" where
  "sample_line = ''SOLN 1fffffff 0000000019d6689c085ae165831e934ff763ae46a218a6c172b3f1b60a8ce26f 1000000023212147''"

lemma hex_chars: "hex_char 0 = CHR ''0''" "hex_char 1 = CHR ''1''" "hex_char 2 = CHR ''2''" "hex_char 3 = CHR ''3''"
  "hex_char 4 = CHR ''4''" "hex_char 5 = CHR ''5''" "hex_char 6 = CHR ''6''" "hex_char 7 = CHR ''7''"
  "hex_char 8 = CHR ''8''" "hex_char 9 = CHR ''9''" "hex_char 10 = CHR ''a''" "hex_char 11 = CHR ''b''"
  "hex_char 12 = CHR ''c''" "hex_char 13 = CHR ''d''" "hex_char 14 = CHR ''e''" "hex_char 15 = CHR ''f''"
  by code_simp+

lemma print_hex_numeral: "print_hex (numeral k) v = print_hex (pred_numeral k) (v div 16) @ [hex_char (v mod 16)]"
  by (simp only: numeral_eq_Suc print_hex.simps)

lemmas print_digits = print_hex_numeral hex_chars hex_chars(2) [unfolded One_nat_def]

lemma sample_line_text: "sample_line = soln_text 0x1fffffff sample_seed sample_nonce"
proof -
  have "hex_text sample_seed = ''0000000019d6689c085ae165831e934ff763ae46a218a6c172b3f1b60a8ce26f''"
    by (simp add: hex_text_def sample_seed_def print_digits)
  moreover have "print_hex 8 (unat (0x1fffffff :: WORD)) = ''1fffffff''"
    by (simp add: print_digits)
  moreover have "print_hex 16 (unat sample_nonce) = ''1000000023212147''"
    by (simp add: sample_nonce_def print_digits)
  ultimately show ?thesis
    by (simp add: sample_line_def soln_text_def)
qed

section \<open>Properties\<close>

text \<open>
  Property C22. The first sample of the repository, as the bytes of the command line: on a
  little-endian host the server answers \<open>SOLN 1fffffff 00000000 ... 1000000023212147\<close> with OKAY.
\<close>

theorem sample_soln_okay:
  assumes "safe_env env" "addr_ok addr" "0 \<le> fd" "fd < 1000"
  shows "\<exists>evs. run_command Little env addr fd sol c (cmd_mem sample_line) = Inr (evs, c)
    \<and> sent_to fd evs = [''OKAY'' @ [CR, LF]]"
proof -
  have "\<not> byte_palindrome sample_nonce"
    by (simp add: sample_nonce_def byte_palindrome_def bswap32_def)
  moreover have "length sample_seed = 32"
    by (simp add: sample_seed_def)
  ultimately have "well_formed (SOLN 0x1fffffff sample_seed sample_nonce)"
    by simp
  from run_command_replies [OF assms this, of sol c] show ?thesis
    by (simp add: sample_line_text sample_solves)
qed

theorem sample_soln_okay_witness:
  "\<exists>evs. run_command Little sample_env sample_addr 5 0 0 (cmd_mem sample_line) = Inr (evs, 0)
    \<and> sent_to 5 evs = [''OKAY'' @ [CR, LF]]"
  using sample_soln_okay [OF safe_sample_env(1), of sample_addr 5 0 0]
  by (simp add: addr_ok_def sample_addr_def)

end
