(* ===== verification/Searches.thy ===== *)
theory Searches
  imports Known_Answers Progress
begin

text \<open>
  The WORK threads of one connection together with the batch threads of their searches: the thread
  model of \<open>Client\<close> and the search of \<open>Work\<close> put together.  A WORK that gets the semaphore starts its
  batches; it goes on when they have published a solution; its cleanup sets the flag, cancels and
  joins the batches one after the other and only then waits for its turn to leave the queue
  (\<open>work_handler\<close>, \<open>work_handler_cleanup\<close>, \<open>work_btch\<close>).  All threads are interleaved in any order.
  The parameters of a WORK, as \<open>work_parse\<close> gives them, are found by its ticket.  As in \<open>Progress\<close> no
  thread is asked to stop.
\<close>

section \<open>State and steps\<close>

record pipeline =
  pl_client :: client_state
  pl_search :: "nat \<rightharpoonup> search"
  pl_sent :: "(nat \<times> u64) list"

definition pipe_init :: pipeline where
  "pipe_init = \<lparr>pl_client = client_init, pl_search = Map.empty, pl_sent = []\<rparr>"

text \<open>
  A step of a thread of \<open>Client\<close>, a step of batch \<open>k\<close> of the WORK in slot \<open>i\<close>, the store to
  \<open>*cancelled\<close>, and \<open>pthread_cancel\<close> for batch \<open>k\<close>.
\<close>

datatype pipe_label = Thread label | Batch nat nat | Stop nat | Stop_Batch nat nat

definition valid_for :: "endian \<Rightarrow> work_params \<Rightarrow> u64 \<Rightarrow> bool" where
  "valid_for host p x \<longleftrightarrow> is_valid_soln host (wp_target p) (wp_seed p) x = -1"

abbreviation work_of :: "(nat \<Rightarrow> work_params) \<Rightarrow> pipeline \<Rightarrow> nat \<Rightarrow> work_params" where
  "work_of params s i \<equiv> params (ticket (pl_client s) i)"

definition batch_step :: "(u64 \<Rightarrow> bool) \<Rightarrow> nat \<Rightarrow> search \<Rightarrow> search option" where
  "batch_step valid k r =
     (if k < length (btches r) \<and> b_pc (btches r ! k) \<noteq> Ended
      then let (sol, b) = work_btch_step valid (solution r) (cancelled r) (btches r ! k)
           in Some (r\<lparr>solution := sol, btches := (btches r)[k := b]\<rparr>)
      else None)"

text \<open>The batches \<open>j < k\<close> have been cancelled and joined.\<close>

definition joined :: "nat \<Rightarrow> search \<Rightarrow> bool" where
  "joined k r \<longleftrightarrow> cancelled r \<and> (\<forall>b \<in> set (take k (btches r)). b_killed b \<and> b_pc b = Ended)"

text \<open>
  What a step of a WORK thread asks of the batches: it starts when its range can be split, it goes
  on when the solution is not 0, and it waits for its turn to leave when all batches are joined.
\<close>

fun may_step :: "(nat \<Rightarrow> work_params) \<Rightarrow> label \<Rightarrow> pipeline \<Rightarrow> bool" where
  "may_step params (Start i) s =
     (case work_chunks (wp_n (work_of params s i)) (wp_thread_count (work_of params s i)) of Inl e \<Rightarrow> False | Inr args \<Rightarrow> True)"
| "may_step params (Find i) s = (case pl_search s i of None \<Rightarrow> False | Some r \<Rightarrow> solution r \<noteq> 0)"
| "may_step params (Leave i) s = (case pl_search s i of None \<Rightarrow> True | Some r \<Rightarrow> joined (length (btches r)) r)"
| "may_step params _ s = True"

fun searches_after :: "(nat \<Rightarrow> work_params) \<Rightarrow> label \<Rightarrow> pipeline \<Rightarrow> nat \<rightharpoonup> search" where
  "searches_after params (Start i) s =
     (case work_chunks (wp_n (work_of params s i)) (wp_thread_count (work_of params s i)) of
        Inl e \<Rightarrow> pl_search s
      | Inr args \<Rightarrow> (pl_search s)(i \<mapsto> search_init args))"
| "searches_after params (Leave i) s = (pl_search s)(i := None)"
| "searches_after params _ s = pl_search s"

text \<open>The answers that have been sent, by ticket.\<close>

fun sent_after :: "label \<Rightarrow> pipeline \<Rightarrow> (nat \<times> u64) list" where
  "sent_after (Answer i) s =
     (case pl_search s i of
        None \<Rightarrow> pl_sent s
      | Some r \<Rightarrow> pl_sent s @ [(ticket (pl_client s) i, solution r)])"
| "sent_after _ s = pl_sent s"

fun pipe_do :: "endian \<Rightarrow> (nat \<Rightarrow> work_params) \<Rightarrow> pipe_label \<Rightarrow> pipeline \<Rightarrow> pipeline option" where
  "pipe_do host params (Thread l) s =
     (case do_step l (pl_client s) of
        None \<Rightarrow> None
      | Some c \<Rightarrow>
          if may_step params l s
          then Some \<lparr>pl_client = c, pl_search = searches_after params l s, pl_sent = sent_after l s\<rparr>
          else None)"
| "pipe_do host params (Batch i k) s =
     (case pl_search s i of
        None \<Rightarrow> None
      | Some r \<Rightarrow>
          map_option (\<lambda>r'. s\<lparr>pl_search := (pl_search s)(i \<mapsto> r')\<rparr>)
            (batch_step (valid_for host (work_of params s i)) k r))"
| "pipe_do host params (Stop i) s =
     (case (pl_search s i, phase_of (pl_client s) i) of
        (Some r, Some (Leaving b)) \<Rightarrow>
          if cancelled r then None else Some (s\<lparr>pl_search := (pl_search s)(i \<mapsto> r\<lparr>cancelled := True\<rparr>)\<rparr>)
      | _ \<Rightarrow> None)"
| "pipe_do host params (Stop_Batch i k) s =
     (case (pl_search s i, phase_of (pl_client s) i) of
        (Some r, Some (Leaving b)) \<Rightarrow>
          if joined k r \<and> k < length (btches r) \<and> \<not> b_killed (btches r ! k)
          then Some (s\<lparr>pl_search := (pl_search s)
            (i \<mapsto> r\<lparr>btches := (btches r)[k := (btches r ! k)\<lparr>b_killed := True\<rparr>]\<rparr>)\<rparr>)
          else None
      | _ \<Rightarrow> None)"

text \<open>All steps of the connection, and those of its started threads and their batches.\<close>

definition pipe_step :: "endian \<Rightarrow> (nat \<Rightarrow> work_params) \<Rightarrow> pipeline \<Rightarrow> pipeline \<Rightarrow> bool" where
  "pipe_step host params s s' \<longleftrightarrow>
     (\<exists>l. pipe_do host params l s = Some s') \<and> cl_cancel (pl_client s') = {}"

fun runs_on :: "pipe_label \<Rightarrow> bool" where
  "runs_on (Thread l) = thread_label l"
| "runs_on _ = True"

definition pipe_thread :: "endian \<Rightarrow> (nat \<Rightarrow> work_params) \<Rightarrow> pipeline \<Rightarrow> pipeline \<Rightarrow> bool" where
  "pipe_thread host params s s' \<longleftrightarrow> (\<exists>l. runs_on l \<and> pipe_do host params l s = Some s')"

abbreviation pipe_reach :: "endian \<Rightarrow> (nat \<Rightarrow> work_params) \<Rightarrow> pipeline \<Rightarrow> bool" where
  "pipe_reach host params s \<equiv> (pipe_step host params)\<^sup>*\<^sup>* pipe_init s"

section \<open>The invariant\<close>

text \<open>The phases of a WORK thread whose batches exist; no thread is cancelled here.\<close>

fun has_search :: "phase \<Rightarrow> bool" where
  "has_search Waiting = False"
| "has_search Aborted = False"
| "has_search Wrapping = False"
| "has_search Other = False"
| "has_search _ = True"

definition search_of :: "endian \<Rightarrow> work_params \<Rightarrow> search \<Rightarrow> bool" where
  "search_of host p r \<longleftrightarrow>
     (\<exists>args. work_chunks (wp_n p) (wp_thread_count p) = Inr args \<and> search_reach (valid_for host p) args r)"

definition published :: "endian \<Rightarrow> work_params \<Rightarrow> u64 \<Rightarrow> bool" where
  "published host p x \<longleftrightarrow> x \<noteq> 0 \<and> (\<exists>r. search_of host p r \<and> solution r = x)"

definition pipe_inv :: "endian \<Rightarrow> (nat \<Rightarrow> work_params) \<Rightarrow> pipeline \<Rightarrow> bool" where
  "pipe_inv host params s \<longleftrightarrow>
     calm_inv (pl_client s)
     \<and> (\<forall>i. pl_search s i \<noteq> None \<longleftrightarrow> (\<exists>p. phase_of (pl_client s) i = Some p \<and> has_search p))
     \<and> (\<forall>i r. pl_search s i = Some r \<longrightarrow> search_of host (work_of params s i) r
          \<and> (phase_of (pl_client s) i \<noteq> Some Searching \<longrightarrow> solution r \<noteq> 0)
          \<and> (cancelled r \<longrightarrow> (\<exists>b. phase_of (pl_client s) i = Some (Leaving b))))
     \<and> map fst (pl_sent s) = answered (pl_client s)
     \<and> (\<forall>(t, x) \<in> set (pl_sent s). published host (params t) x)"

lemma pipe_invD:
  assumes "pipe_inv host params s"
  shows "calm_inv (pl_client s)"
    "pl_search s i \<noteq> None \<longleftrightarrow> (\<exists>p. phase_of (pl_client s) i = Some p \<and> has_search p)"
    "pl_search s i = Some r \<Longrightarrow> search_of host (work_of params s i) r"
    "pl_search s i = Some r \<Longrightarrow> phase_of (pl_client s) i \<noteq> Some Searching \<Longrightarrow> solution r \<noteq> 0"
    "pl_search s i = Some r \<Longrightarrow> cancelled r \<Longrightarrow> \<exists>b. phase_of (pl_client s) i = Some (Leaving b)"
    "map fst (pl_sent s) = answered (pl_client s)"
    "(t, x) \<in> set (pl_sent s) \<Longrightarrow> published host (params t) x"
  using assms unfolding pipe_inv_def by blast+

lemma pipe_invI:
  assumes "calm_inv (pl_client s)"
    "\<And>i. pl_search s i \<noteq> None \<longleftrightarrow> (\<exists>p. phase_of (pl_client s) i = Some p \<and> has_search p)"
    "\<And>i r. pl_search s i = Some r \<Longrightarrow> search_of host (work_of params s i) r
       \<and> (phase_of (pl_client s) i \<noteq> Some Searching \<longrightarrow> solution r \<noteq> 0)
       \<and> (cancelled r \<longrightarrow> (\<exists>b. phase_of (pl_client s) i = Some (Leaving b)))"
    "map fst (pl_sent s) = answered (pl_client s)"
    "\<And>t x. (t, x) \<in> set (pl_sent s) \<Longrightarrow> published host (params t) x"
  shows "pipe_inv host params s"
  using assms unfolding pipe_inv_def by blast

lemma pipe_inv_init: "pipe_inv host params pipe_init"
  by (rule pipe_invI) (simp_all add: pipe_init_def calm_inv_init, simp_all add: client_init_def phase_of_def)

text \<open>A step of the batches leaves the threads of \<open>Client\<close> alone.\<close>

lemma search_of_init: "work_chunks (wp_n p) (wp_thread_count p) = Inr args \<Longrightarrow> search_of host p (search_init args)"
  by (auto simp: search_of_def search_reach_def)

lemma search_init_fields [simp]: "\<not> cancelled (search_init args)" "solution (search_init args) = 0"
  by (simp_all add: search_init_def)

lemma search_of_step: "search_of host p r \<Longrightarrow> search_step (valid_for host p) r r' \<Longrightarrow> search_of host p r'"
  by (auto simp: search_of_def search_reach_def intro: rtranclp.rtrancl_into_rtrancl)

lemma batch_step_sound:
  "batch_step valid k r = Some r' \<Longrightarrow> search_step valid r r'" "batch_step valid k r = Some r' \<Longrightarrow> cancelled r' = cancelled r"
  by (auto simp: batch_step_def search_step.batch split: if_splits prod.splits)


lemma pipe_inv_search:
  assumes inv: "pipe_inv host params s" and r: "pl_search s i = Some r"
    and step: "search_step (valid_for host (work_of params s i)) r r'"
    and c: "cancelled r' \<Longrightarrow> \<exists>b. phase_of (pl_client s) i = Some (Leaving b)"
  shows "pipe_inv host params (s\<lparr>pl_search := (pl_search s)(i \<mapsto> r')\<rparr>)"
proof (rule pipe_invI)
  let ?s = "s\<lparr>pl_search := (pl_search s)(i \<mapsto> r')\<rparr>"
  show "pl_search ?s j \<noteq> None \<longleftrightarrow> (\<exists>p. phase_of (pl_client ?s) j = Some p \<and> has_search p)" for j
    using pipe_invD(2) [OF inv, of j] r by (cases "j = i") auto
  show "search_of host (work_of params ?s j) q
      \<and> (phase_of (pl_client ?s) j \<noteq> Some Searching \<longrightarrow> solution q \<noteq> 0)
      \<and> (cancelled q \<longrightarrow> (\<exists>b. phase_of (pl_client ?s) j = Some (Leaving b)))"
    if q: "pl_search ?s j = Some q" for j q
  proof (cases "j = i")
    case True
    with q have "q = r'" by simp
    moreover have "search_of host (work_of params s i) r'"
      by (rule search_of_step [OF pipe_invD(3) [OF inv r] step])
    moreover have "solution r' \<noteq> 0" if "phase_of (pl_client s) i \<noteq> Some Searching"
      using search_solution_stable [OF step] pipe_invD(4) [OF inv r that] by simp
    ultimately show ?thesis
      using c True by simp
  next
    case False
    with q have "pl_search s j = Some q" by simp
    with pipe_invD(3-5) [OF inv this] show ?thesis by auto
  qed
qed (use pipe_invD [OF inv] in auto)

lemma joined_kill:
  "joined k r \<Longrightarrow> k < length (btches r) \<Longrightarrow> \<not> b_killed (btches r ! k) \<Longrightarrow>
    search_step valid r (r\<lparr>btches := (btches r)[k := (btches r ! k)\<lparr>b_killed := True\<rparr>]\<rparr>)"
  by (auto simp: joined_def intro: search_step.kill)

text \<open>What the steps of the threads do to a WORK whose batches exist.\<close>

lemmas do_step_splits = option.splits phase.splits list.splits sum.splits if_splits client_pc.splits

lemma do_step_other:
  assumes l: "do_step l c = Some c'" and p: "phase_of c i \<noteq> None" and i: "thread_label l \<Longrightarrow> actor l \<noteq> i"
  shows "phase_of c' i = phase_of c i \<and> ticket c' i = ticket c i"
proof (cases "thread_label l")
  case True
  with do_step_advances [OF True l] i show ?thesis
    by (auto simp: advances_def)
next
  case False
  with l p show ?thesis
    by (cases l) (auto simp: phase_of_spawn ticket_spawn phase_None split: do_step_splits)
qed

lemma do_step_searching:
  assumes l: "do_step l c = Some c'" "cl_cancel c = {}" "l \<noteq> Leave i" and p: "phase_of c i = Some p" "has_search p"
  shows "ticket c' i = ticket c i \<and> (phase_of c' i = Some Searching \<or> p = Searching \<and> l = Find i \<or> p \<noteq> Searching)
    \<and> (\<forall>b. p = Leaving b \<longrightarrow> phase_of c' i = Some (Leaving b))"
proof (cases "thread_label l \<and> actor l = i")
  case True
  with l p show ?thesis
    by (cases l; cases p) (auto simp: phase_of_set_phase split: if_splits sum.splits)
qed (use do_step_other [OF l(1), of i] p in auto)

lemma do_step_has_search:
  assumes "do_step l c = Some c'" "cl_cancel c = {}" "\<And>p. phase_of c i = Some p \<Longrightarrow> orderly p"
  shows "(\<exists>p. phase_of c' i = Some p \<and> has_search p) \<longleftrightarrow>
    l = Start i \<or> l \<noteq> Leave i \<and> (\<exists>p. phase_of c i = Some p \<and> has_search p)"
  using assms by (cases l; auto simp: phase_of_set_phase phase_of_thread_end phase_of_spawn phase_None
      split: do_step_splits)+

lemma do_step_answered:
  "do_step l c = Some c' \<Longrightarrow> answered c' = answered c @ (case l of Answer i \<Rightarrow> [ticket c i] | _ \<Rightarrow> [])"
  by (cases l) (auto simp: set_phase_def thread_end_def spawn_def ticket_def split: do_step_splits)

lemma searches_after_eq:
  "may_step params l s \<Longrightarrow> searches_after params l s i \<noteq> None \<longleftrightarrow> l = Start i \<or> l \<noteq> Leave i \<and> pl_search s i \<noteq> None"
  "searches_after params l s i = Some r \<Longrightarrow> l \<noteq> Start i \<Longrightarrow> l \<noteq> Leave i \<and> pl_search s i = Some r"
  by (cases l; auto split: sum.splits if_splits)+

text \<open>A step of a thread keeps the invariant.\<close>

lemma pipe_inv_start:
  assumes "do_step (Start i) (pl_client s) = Some c" "searches_after params (Start i) s i = Some r"
    "may_step params (Start i) s"
  shows "search_of host (params (ticket c i)) r" "phase_of c i = Some Searching" "\<not> cancelled r"
  using assms by (auto simp: phase_of_set_phase search_of_init split: sum.splits if_splits)

lemma pipe_inv_thread:
  assumes inv: "pipe_inv host params s" and l: "do_step l (pl_client s) = Some c" "may_step params l s"
    and calm: "cl_cancel c = {}"
  shows "pipe_inv host params \<lparr>pl_client = c, pl_search = searches_after params l s, pl_sent = sent_after l s\<rparr>"
    (is "pipe_inv host params ?s")
proof (rule pipe_invI)
  have ord: "order_inv (pl_client s)"
    using pipe_invD(1) [OF inv] by (simp add: calm_inv_def)
  note no_cancel = order_invD(1) [OF ord]
  show "calm_inv (pl_client ?s)"
    using calm_inv_step [OF do_step_sound [OF l(1)] calm pipe_invD(1) [OF inv]] by simp
  show "pl_search ?s i \<noteq> None \<longleftrightarrow> (\<exists>p. phase_of (pl_client ?s) i = Some p \<and> has_search p)" for i
    using pipe_invD(2) [OF inv, of i] searches_after_eq(1) [OF l(2), of i]
      do_step_has_search [OF l(1) no_cancel order_invD(3) [OF ord], of i] by simp
  show "search_of host (work_of params ?s i) r
      \<and> (phase_of (pl_client ?s) i \<noteq> Some Searching \<longrightarrow> solution r \<noteq> 0)
      \<and> (cancelled r \<longrightarrow> (\<exists>b. phase_of (pl_client ?s) i = Some (Leaving b)))"
    if r: "pl_search ?s i = Some r" for i r
  proof (cases "l = Start i")
    case True
    with pipe_inv_start [of i s c params r] l r show ?thesis by simp
  next
    case False
    with r searches_after_eq(2) [of params l s i r] have r': "pl_search s i = Some r" "l \<noteq> Leave i"
      by simp_all
    then obtain p where p: "phase_of (pl_client s) i = Some p" "has_search p"
      using pipe_invD(2) [OF inv, of i] by auto
    note st = do_step_searching [OF l(1) no_cancel r'(2) p]
    have "solution r \<noteq> 0" if "phase_of c i \<noteq> Some Searching"
      using st that l(2) r'(1) p(1) pipe_invD(4) [OF inv r'(1)] by auto
    with st p pipe_invD(3,5) [OF inv r'(1)] show ?thesis by auto
  qed
  have sent: "sent_after l s = pl_sent s \<and> answered c = answered (pl_client s)
      \<or> (\<exists>i r. pl_search s i = Some r \<and> solution r \<noteq> 0 \<and> answered c = answered (pl_client s) @ [ticket (pl_client s) i]
          \<and> sent_after l s = pl_sent s @ [(ticket (pl_client s) i, solution r)])"
  proof (cases "\<exists>i. l = Answer i")
    case True
    then obtain i where i: "l = Answer i" "phase_of (pl_client s) i = Some Found"
      using l(1) by (auto split: if_splits)
    then obtain r where r: "pl_search s i = Some r"
      using pipe_invD(2) [OF inv, of i] by auto
    moreover have "solution r \<noteq> 0"
      using pipe_invD(4) [OF inv r] i(2) by simp
    ultimately show ?thesis
      using i(1) do_step_answered [OF l(1)] by (intro disjI2 exI [of _ i] exI [of _ r]) simp
  next
    case False
    with do_step_answered [OF l(1)] show ?thesis
      by (cases l) simp_all
  qed
  then show "map fst (pl_sent ?s) = answered (pl_client ?s)"
    using pipe_invD(6) [OF inv] by auto
  show "published host (params t) x" if "(t, x) \<in> set (pl_sent ?s)" for t x
  proof (cases "(t, x) \<in> set (pl_sent s)")
    case False
    with sent that obtain i r where "pl_search s i = Some r" "solution r \<noteq> 0" "t = ticket (pl_client s) i" "x = solution r"
      by auto
    with pipe_invD(3) [OF inv, of i r] show ?thesis
      by (auto simp: published_def)
  qed (rule pipe_invD(7) [OF inv])
qed

text \<open>Every step keeps the invariant.\<close>

lemma pipe_do_search:
  assumes inv: "pipe_inv host params s" and "pipe_do host params l s = Some s'" "\<forall>m. l \<noteq> Thread m"
  obtains i r r' where "pl_search s i = Some r" "search_step (valid_for host (work_of params s i)) r r'"
    "cancelled r' \<Longrightarrow> \<exists>b. phase_of (pl_client s) i = Some (Leaving b)"
    "s' = s\<lparr>pl_search := (pl_search s)(i \<mapsto> r')\<rparr>"
proof (cases l)
  case (Batch i k)
  with assms(2) obtain r r' where r: "pl_search s i = Some r"
    and b: "batch_step (valid_for host (work_of params s i)) k r = Some r'"
    and s': "s' = s\<lparr>pl_search := (pl_search s)(i \<mapsto> r')\<rparr>"
    by (auto split: option.splits)
  show thesis
    by (rule that [OF r batch_step_sound(1) [OF b] _ s'])
      (use pipe_invD(5) [OF inv r] batch_step_sound(2) [OF b] in simp)
next
  case (Stop i)
  with assms(2) show thesis
    by (auto intro!: that [of i] search_step.cancel split: option.splits phase.splits if_splits)
next
  case (Stop_Batch i k)
  with assms(2) show thesis
    by (auto intro!: that [of i] joined_kill split: option.splits phase.splits if_splits)
qed (use assms(3) in simp)

lemma pipe_inv_do:
  assumes "pipe_do host params l s = Some s'" "cl_cancel (pl_client s') = {}" "pipe_inv host params s"
  shows "pipe_inv host params s'"
proof (cases "\<exists>m. l = Thread m")
  case True
  then obtain m where "l = Thread m" ..
  with assms show ?thesis
    using pipe_inv_thread [OF assms(3), of m] by (auto split: option.splits if_splits)
next
  case False
  with pipe_do_search [OF assms(3,1)] obtain i r r' where
    "pl_search s i = Some r" "search_step (valid_for host (work_of params s i)) r r'"
    "cancelled r' \<Longrightarrow> \<exists>b. phase_of (pl_client s) i = Some (Leaving b)"
    "s' = s\<lparr>pl_search := (pl_search s)(i \<mapsto> r')\<rparr>"
    by blast
  with pipe_inv_search [OF assms(3)] show ?thesis by blast
qed

lemma pipe_invariant: "step_invariant (pipe_step host params) pipe_init (pipe_inv host params)"
  by unfold_locales (auto intro: pipe_inv_init pipe_inv_do simp: pipe_step_def)

interpretation pipe: step_invariant "pipe_step host params" pipe_init "pipe_inv host params" for host params
  by (rule pipe_invariant)


section \<open>The threads and the batches use up their work\<close>

text \<open>
  A WORK whose search must succeed: some nonce from \<open>n\<close> to below \<open>UINT64_MAX\<close> is valid, and the
  search does not start at 0 with 0 valid, which would look like no solution.
\<close>

definition solvable :: "endian \<Rightarrow> work_params \<Rightarrow> bool" where
  "solvable host p \<longleftrightarrow> 0 < wp_thread_count p \<and> wp_thread_count p < 2 ^ 31
     \<and> \<not> (wp_n p = 0 \<and> valid_for host p 0)
     \<and> (\<exists>x. wp_n p \<le> x \<and> x < UINT64_MAX \<and> valid_for host p x)"

definition ready_inv :: "endian \<Rightarrow> (nat \<Rightarrow> work_params) \<Rightarrow> pipeline \<Rightarrow> bool" where
  "ready_inv host params s \<longleftrightarrow> pipe_inv host params s
     \<and> (\<forall>i \<in> set (cl_queue (pl_client s)). solvable host (work_of params s i))"

text \<open>What is left to do for the WORK of a slot.\<close>

definition slot_work :: "(nat \<Rightarrow> work_params) \<Rightarrow> pipeline \<Rightarrow> nat \<Rightarrow> nat" where
  "slot_work params s i = rank_of (pl_client s) i +
     (case pl_search s i of
        Some r \<Rightarrow> search_todo r
      | None \<Rightarrow>
          if phase_of (pl_client s) i = Some Waiting then
            (case work_chunks (wp_n (work_of params s i)) (wp_thread_count (work_of params s i)) of
               Inl e \<Rightarrow> 0
             | Inr args \<Rightarrow> search_todo (search_init args))
          else 0)"

definition pipe_work :: "(nat \<Rightarrow> work_params) \<Rightarrow> pipeline \<Rightarrow> nat" where
  "pipe_work params s = (\<Sum>i<CLIENT_THREAD_COUNT. slot_work params s i)"

lemma slot_work_cong:
  "pl_search s' i = pl_search s i \<Longrightarrow> phase_of (pl_client s') i = phase_of (pl_client s) i \<Longrightarrow>
    ticket (pl_client s') i = ticket (pl_client s) i \<Longrightarrow> slot_work params s' i = slot_work params s i"
  unfolding slot_work_def rank_of_def by (simp only:)

lemma sum_one_less:
  fixes f g :: "nat \<Rightarrow> nat"
  assumes "i < n" "g i < f i" "\<And>j. j \<noteq> i \<Longrightarrow> g j = f j"
  shows "(\<Sum>j<n. g j) < (\<Sum>j<n. f j)"
proof (rule sum_strict_mono_ex1)
  show "\<forall>j\<in>{..<n}. g j \<le> f j"
    using assms by (metis less_imp_le order_refl)
  show "\<exists>j\<in>{..<n}. g j < f j"
    using assms(1,2) by blast
qed simp

lemma has_search_queued: "has_search p \<Longrightarrow> queued p"
  by (cases p) auto

lemma phase_bound: "calm_inv c \<Longrightarrow> phase_of c i = Some p \<Longrightarrow> i < CLIENT_THREAD_COUNT"
  using phase_thread [of c i p] unfolding calm_inv_def slot_inv_def by blast

lemma ready_search:
  assumes inv: "ready_inv host params s" and r: "pl_search s i = Some r"
  obtains args p where "solvable host (work_of params s i)" "phase_of (pl_client s) i = Some p" "has_search p"
    "work_chunks (wp_n (work_of params s i)) (wp_thread_count (work_of params s i)) = Inr args"
    "search_reach (valid_for host (work_of params s i)) args r"
    "search_inv (valid_for host (work_of params s i)) args r"
proof -
  have pipe: "pipe_inv host params s"
    using inv by (simp add: ready_inv_def)
  obtain p where p: "phase_of (pl_client s) i = Some p" "has_search p"
    using pipe_invD(2) [OF pipe, of i] r by auto
  then have "i \<in> set (cl_queue (pl_client s))"
    using pipe_invD(1) [OF pipe] order_invD(2) [of "pl_client s" i] has_search_queued by (auto simp: calm_inv_def)
  then have sol: "solvable host (work_of params s i)"
    using inv by (simp add: ready_inv_def)
  obtain args where a: "work_chunks (wp_n (work_of params s i)) (wp_thread_count (work_of params s i)) = Inr args"
    "search_reach (valid_for host (work_of params s i)) args r"
    using pipe_invD(3) [OF pipe r] by (auto simp: search_of_def)
  have "search_inv (valid_for host (work_of params s i)) args r"
    using search_reach_inv [OF a(2)] work_chunks_args [OF _ _ a(1)] sol by (auto simp: solvable_def)
  with sol p a that show thesis by blast
qed

lemma searches_after_other:
  "thread_label l \<Longrightarrow> j \<noteq> actor l \<Longrightarrow> searches_after params l s j = pl_search s j"
  by (cases l) (auto split: sum.split)

lemma pipe_less_thread:
  assumes inv: "pipe_inv host params s" and l: "thread_label l" "do_step l (pl_client s) = Some c" "may_step params l s"
    and s': "s' = \<lparr>pl_client = c, pl_search = searches_after params l s, pl_sent = sent_after l s\<rparr>"
  shows "pipe_work params s' < pipe_work params s"
  unfolding pipe_work_def
proof (rule sum_one_less [where i = "actor l"])
  note adv = do_step_advances [OF l(1,2), unfolded advances_def]
  show "actor l < CLIENT_THREAD_COUNT"
    using adv phase_bound [OF pipe_invD(1) [OF inv]] by auto
  show "slot_work params s' j = slot_work params s j" if "j \<noteq> actor l" for j
    by (rule slot_work_cong) (use adv that searches_after_other [OF l(1) that] in \<open>simp_all add: s'\<close>)
  have rank: "rank_of c (actor l) < rank_of (pl_client s) (actor l)"
    using adv by blast
  consider i where "l = Start i" | i where "l = Leave i"
    | "searches_after params l s = pl_search s" "\<forall>i. l \<noteq> Start i \<and> l \<noteq> Leave i"
    by (cases l) auto
  then show "slot_work params s' (actor l) < slot_work params s (actor l)"
  proof cases
    case 1
    then have "pl_search s i = None"
      using pipe_invD(2) [OF inv, of i] l(2) by (auto split: if_splits)
    with 1 l(2,3) rank show ?thesis
      by (auto simp: slot_work_def s' split: sum.splits if_splits)
  next
    case 2
    then have "phase_of c i \<noteq> Some Waiting"
      using l(2) by (auto simp: phase_of_set_phase phase_of_thread_end split: do_step_splits)
    with 2 rank show ?thesis
      by (simp add: slot_work_def s')
  next
    case 3
    then have "phase_of c (actor l) \<noteq> Some Waiting"
      using l(1,2) by (cases l) (auto simp: phase_of_set_phase phase_of_thread_end split: do_step_splits)
    with 3 rank show ?thesis
      by (simp add: slot_work_def s' split: option.split)
  qed
qed

lemma pipe_less:
  assumes step: "pipe_thread host params s s'" and inv: "ready_inv host params s"
  shows "pipe_work params s' < pipe_work params s"
proof -
  have pipe: "pipe_inv host params s"
    using inv by (simp add: ready_inv_def)
  obtain l where l: "runs_on l" "pipe_do host params l s = Some s'"
    using step by (auto simp: pipe_thread_def)
  show ?thesis
  proof (cases "\<exists>m. l = Thread m")
    case True
    with l pipe_less_thread [OF pipe] show ?thesis
      by (auto split: option.splits if_splits)
  next
    case False
    with pipe_do_search [OF pipe l(2)] obtain i r r' where r: "pl_search s i = Some r"
      "search_step (valid_for host (work_of params s i)) r r'" "s' = s\<lparr>pl_search := (pl_search s)(i \<mapsto> r')\<rparr>"
      by blast
    from ready_search [OF inv r(1)] obtain args p where a: "phase_of (pl_client s) i = Some p"
      "search_inv (valid_for host (work_of params s i)) args r" by blast
    have "i < CLIENT_THREAD_COUNT"
      by (rule phase_bound [OF pipe_invD(1) [OF pipe] a(1)])
    moreover have "search_todo r' < search_todo r"
      by (rule search_todo_step [OF r(2) a(2)])
    ultimately show ?thesis
      unfolding pipe_work_def
    proof (intro sum_one_less [where i = i])
      show "slot_work params s' j = slot_work params s j" if "j \<noteq> i" for j
        using that by (intro slot_work_cong) (simp_all add: r(3))
    qed (simp_all add: slot_work_def r(1,3))
  qed
qed


lemma queue_kept:
  assumes "thread_step c c'" "calm_inv c" "i \<in> set (cl_queue c')"
  shows "i \<in> set (cl_queue c) \<and> ticket c' i = ticket c i"
proof
  obtain l where l: "thread_label l" "do_step l c = Some c'"
    using assms(1) by (auto simp: thread_step_def)
  then show q: "i \<in> set (cl_queue c)"
    using do_step_queue(1) [OF l] assms(3) by auto
  obtain p where "phase_of c' i = Some p"
    using threads.kept [OF assms(1,2)] order_invD(2) [of c' i] assms(3) by (auto simp: calm_inv_def)
  with l show "ticket c' i = ticket c i"
    by (cases l) (auto simp: phase_of_thread_end ticket_thread_end split: do_step_splits)
qed

lemma pipe_do_client:
  "pipe_do host params l s = Some s' \<Longrightarrow> runs_on l \<Longrightarrow>
    pl_client s' = pl_client s \<or> thread_step (pl_client s) (pl_client s')"
  by (cases l) (auto simp: thread_step_def split: option.splits phase.splits if_splits)

lemma ready_inv_kept:
  assumes step: "pipe_thread host params s s'" and inv: "ready_inv host params s"
  shows "ready_inv host params s'"
proof -
  have pipe: "pipe_inv host params s" and calm: "calm_inv (pl_client s)"
    using inv pipe_invD(1) by (auto simp: ready_inv_def)
  obtain l where l: "runs_on l" "pipe_do host params l s = Some s'"
    using step by (auto simp: pipe_thread_def)
  note c = pipe_do_client [OF l(2,1)]
  have "cl_cancel (pl_client s) = {}"
    using calm order_invD(1) by (auto simp: calm_inv_def)
  then have "cl_cancel (pl_client s') = {}"
    using c thread_step_cancel by auto
  then have "pipe_inv host params s'"
    by (rule pipe_inv_do [OF l(2) _ pipe])
  with c queue_kept [OF _ calm] inv show ?thesis
    by (auto simp: ready_inv_def)
qed

text \<open>A search without solution has a batch that goes on; the cleanup can stop and join the batches.\<close>

lemma pipe_threadI: "pipe_do host params l s = Some s' \<Longrightarrow> runs_on l \<Longrightarrow> \<exists>s'. pipe_thread host params s s'"
  by (auto simp: pipe_thread_def)

lemma batch_goes_on:
  assumes "pl_search s i = Some r" "k < length (btches r)" "b_pc (btches r ! k) \<noteq> Ended"
  shows "\<exists>s'. pipe_thread host params s s'"
proof -
  obtain sol b where "work_btch_step (valid_for host (work_of params s i)) (solution r) (cancelled r) (btches r ! k) = (sol, b)"
    by fastforce
  with assms show ?thesis
    by (intro pipe_threadI [of _ _ "Batch i k"]) (simp_all add: batch_step_def)
qed

lemma search_goes_on:
  assumes inv: "ready_inv host params s" and r: "pl_search s i = Some r" "phase_of (pl_client s) i = Some Searching"
    "solution r = 0"
  shows "\<exists>s'. pipe_thread host params s s'"
proof (cases "\<forall>b \<in> set (btches r). b_pc b = Ended")
  case False
  then obtain k where "k < length (btches r)" "b_pc (btches r ! k) \<noteq> Ended"
    by (auto simp: in_set_conv_nth)
  with r(1) show ?thesis by (rule batch_goes_on)
next
  case True
  have "\<not> cancelled r"
    using inv r(2) pipe_invD(5) [of host params s i r, OF _ r(1)] by (auto simp: ready_inv_def)
  moreover obtain args where "solvable host (work_of params s i)"
    "work_chunks (wp_n (work_of params s i)) (wp_thread_count (work_of params s i)) = Inr args"
    "search_reach (valid_for host (work_of params s i)) args r"
    using ready_search [OF inv r(1)] by blast
  ultimately show ?thesis
    using search_exhausted [of "wp_thread_count (work_of params s i)" "wp_n (work_of params s i)" args
        "valid_for host (work_of params s i)" r] r(3) True
    unfolding solvable_def by blast
qed

lemma cleanup_goes_on:
  assumes r: "pl_search s i = Some r" "phase_of (pl_client s) i = Some (Leaving b)"
    and nj: "\<not> joined (length (btches r)) r"
  shows "\<exists>s'. pipe_thread host params s s'"
proof (cases "cancelled r")
  case False
  with r show ?thesis by (intro pipe_threadI [of _ _ "Stop i"]) simp_all
next
  case True
  define bad where "bad k \<longleftrightarrow> k < length (btches r) \<and> \<not> (b_killed (btches r ! k) \<and> b_pc (btches r ! k) = Ended)" for k
  define k where "k = (LEAST k. bad k)"
  have "\<exists>k. bad k"
    using nj True by (auto simp: bad_def joined_def in_set_conv_nth)
  then have k: "bad k"
    unfolding k_def by (rule LeastI_ex)
  have "\<not> bad j" if "j < k" for j
    using not_less_Least [of j bad] that by (simp add: k_def)
  with k True have j: "joined k r"
    by (auto simp: joined_def in_set_conv_nth bad_def)
  show ?thesis
  proof (cases "b_pc (btches r ! k) = Ended")
    case True
    with k j r show ?thesis
      by (intro pipe_threadI [of _ _ "Stop_Batch i k"]) (simp_all add: bad_def)
  qed (use k r(1) batch_goes_on in \<open>auto simp: bad_def\<close>)
qed


text \<open>Where \<open>Client\<close> lets a thread step, the thread or one of its batches can go on.\<close>

lemma thread_goes_on:
  assumes inv: "ready_inv host params s" and l: "thread_label l" "do_step l (pl_client s) = Some c"
  shows "\<exists>s'. pipe_thread host params s s'"
proof (cases "may_step params l s")
  case True
  with l show ?thesis by (intro pipe_threadI [of _ _ "Thread l"]) simp_all
next
  case False
  have pipe: "pipe_inv host params s"
    using inv by (simp add: ready_inv_def)
  from False consider i where "l = Start i" | i where "l = Find i" | i where "l = Leave i"
    by (cases l) auto
  then show ?thesis
  proof cases
    case 1
    then have "phase_of (pl_client s) i = Some Waiting"
      using l by (auto split: if_splits)
    then have "i \<in> set (cl_queue (pl_client s))"
      using pipe_invD(1) [OF pipe] order_invD(2) [of "pl_client s" i] by (auto simp: calm_inv_def)
    then have "wp_thread_count (work_of params s i) \<noteq> 0"
      using inv by (auto simp: ready_inv_def solvable_def)
    with False 1 show ?thesis
      by (simp add: work_chunks_def Let_def)
  next
    case 2
    then have p: "phase_of (pl_client s) i = Some Searching"
      using l by (auto split: if_splits)
    then obtain r where r: "pl_search s i = Some r"
      using pipe_invD(2) [OF pipe, of i] by auto
    with search_goes_on [OF inv r p] False 2 show ?thesis
      by simp
  next
    case 3
    then obtain b where p: "phase_of (pl_client s) i = Some (Leaving b)"
      using l by (auto split: do_step_splits)
    then obtain r where r: "pl_search s i = Some r"
      using pipe_invD(2) [OF pipe, of i] by auto
    with cleanup_goes_on [OF r p] False 3 show ?thesis
      by simp
  qed
qed

interpretation pipe_threads: draining "pipe_thread host params" "ready_inv host params" "pipe_work params"
    "\<lambda>s. cl_threads (pl_client s) = Map.empty" for host params
proof
  show "\<exists>s'. pipe_thread host params s s'"
    if inv: "ready_inv host params s" and "cl_threads (pl_client s) \<noteq> Map.empty" for s
  proof -
    have "calm_inv (pl_client s)"
      using inv pipe_invD(1) by (auto simp: ready_inv_def)
    from calm_progress [OF this that(2)] thread_goes_on [OF inv] show ?thesis
      by (auto simp: thread_step_def)
  qed
qed (fact ready_inv_kept pipe_less)+

lemma pipe_run_client:
  "(pipe_thread host params)\<^sup>*\<^sup>* s s' \<Longrightarrow> thread_step\<^sup>*\<^sup>* (pl_client s) (pl_client s')"
proof (induction rule: rtranclp_induct)
  case (step s' s'')
  then obtain l where "runs_on l" "pipe_do host params l s' = Some s''"
    by (auto simp: pipe_thread_def)
  from pipe_do_client [OF this(2,1)] step.IH show ?case
    by (metis rtranclp.rtrancl_into_rtrancl)
qed simp

lemma published_sound:
  assumes "published host p x" "solvable host p"
  shows "valid_for host p x \<and> wp_n p \<le> x \<and> x < UINT64_MAX"
proof -
  obtain r args where "x \<noteq> 0" "solution r = x" "work_chunks (wp_n p) (wp_thread_count p) = Inr args"
    "search_reach (valid_for host p) args r"
    using assms(1) by (auto simp: published_def search_of_def)
  with published_valid [of "wp_thread_count p" "wp_n p" args "valid_for host p" r] assms(2) show ?thesis
    by (simp add: solvable_def)
qed

section \<open>A WORK without solution\<close>

text \<open>
  A WORK none of whose nonces is valid never gets past its search, and holds up the queue.
\<close>

definition hopeless :: "endian \<Rightarrow> work_params \<Rightarrow> bool" where
  "hopeless host p \<longleftrightarrow> 0 < wp_thread_count p \<and> wp_thread_count p < 2 ^ 31
     \<and> (\<forall>x. wp_n p \<le> x \<and> x < UINT64_MAX \<longrightarrow> \<not> valid_for host p x)"

definition holds_up :: "nat \<Rightarrow> nat \<Rightarrow> pipeline \<Rightarrow> bool" where
  "holds_up i t s \<longleftrightarrow> (phase_of (pl_client s) i = Some Waiting \<or> phase_of (pl_client s) i = Some Searching)
     \<and> ticket (pl_client s) i = t"

lemma hopeless_search:
  assumes "hopeless host p" "search_of host p r" shows "solution r = 0"
proof (rule ccontr)
  assume "solution r \<noteq> 0"
  with published_valid [of "wp_thread_count p" "wp_n p" _ "valid_for host p" r] assms show False
    by (auto simp: search_of_def hopeless_def)
qed

lemma do_step_search_phase:
  assumes l: "do_step l c = Some c'" "cl_cancel c = {}" "l \<noteq> Find i"
    and p: "phase_of c i = Some p" "p = Waiting \<or> p = Searching"
  shows "(phase_of c' i = Some Waiting \<or> phase_of c' i = Some Searching) \<and> ticket c' i = ticket c i"
proof (cases "thread_label l \<and> actor l = i")
  case True
  from p(2) show ?thesis
  proof
    assume "p = Waiting"
    with True l p(1) show ?thesis
      by (cases l) (auto simp: phase_of_set_phase split: if_splits sum.splits)
  next
    assume "p = Searching"
    with True l p(1) show ?thesis
      by (cases l) (auto simp: phase_of_set_phase split: if_splits sum.splits)
  qed
next
  case False
  with do_step_other [OF l(1), of i] p show ?thesis
    by simp
qed

lemma holds_up_step:
  assumes step: "pipe_step host params s s'" and inv: "pipe_inv host params s"
    and h: "hopeless host (params t)" "holds_up i t s"
  shows "holds_up i t s'"
proof -
  obtain l where l: "pipe_do host params l s = Some s'"
    using step by (auto simp: pipe_step_def)
  show ?thesis
  proof (cases "\<exists>m. l = Thread m")
    case True
    then obtain m where m: "l = Thread m" ..
    with l have c: "do_step m (pl_client s) = Some (pl_client s')" "may_step params m s"
      by (auto split: option.splits if_splits)
    have "m \<noteq> Find i"
    proof
      assume "m = Find i"
      with c obtain r where r: "pl_search s i = Some r" "solution r \<noteq> 0"
        by (auto split: option.splits)
      with hopeless_search [OF h(1), of r] pipe_invD(3) [OF inv r(1)] h(2) show False
        by (auto simp: holds_up_def)
    qed
    moreover have "cl_cancel (pl_client s) = {}"
      using pipe_invD(1) [OF inv] order_invD(1) by (auto simp: calm_inv_def)
    ultimately show ?thesis
      using h(2) do_step_search_phase [OF c(1), of i] unfolding holds_up_def by blast
  next
    case False
    with pipe_do_search [OF inv l] obtain r' j where "s' = s\<lparr>pl_search := (pl_search s)(j \<mapsto> r')\<rparr>"
      by blast
    with h(2) show ?thesis
      by (simp add: holds_up_def)
  qed
qed

lemma holds_up_run:
  assumes "(pipe_step host params)\<^sup>*\<^sup>* s s'" "pipe_inv host params s"
    "hopeless host (params t)" "holds_up i t s"
  shows "holds_up i t s' \<and> pipe_inv host params s'"
  using assms by (induction rule: rtranclp_induct) (auto intro: holds_up_step pipe.kept)


section \<open>Schedules and samples\<close>

fun pipe_run :: "endian \<Rightarrow> (nat \<Rightarrow> work_params) \<Rightarrow> pipe_label list \<Rightarrow> pipeline \<Rightarrow> pipeline option" where
  "pipe_run host params [] s = Some s"
| "pipe_run host params (l # ls) s =
     (case pipe_do host params l s of
        None \<Rightarrow> None
      | Some s' \<Rightarrow> if cl_cancel (pl_client s') = {} then pipe_run host params ls s' else None)"

lemma pipe_run_reach: "pipe_run host params ls s = Some s' \<Longrightarrow> (pipe_step host params)\<^sup>*\<^sup>* s s'"
proof (induction ls arbitrary: s)
  case (Cons l ls)
  then obtain t where t: "pipe_do host params l s = Some t" "cl_cancel (pl_client t) = {}"
      "pipe_run host params ls t = Some s'"
    by (auto split: option.splits if_splits)
  then have "pipe_step host params s t"
    by (auto simp: pipe_step_def)
  from this Cons.IH [OF t(3)] show ?case
    by (rule converse_rtranclp_into_rtranclp)
qed simp

definition sample_work :: work_params where
  "sample_work = work_params_for Little sample_env 0x1fffffff sample_seed sample_nonce 2"

lemma sample_work_solvable: "solvable Little sample_work"
proof -
  have "length sample_seed = 32" "\<not> byte_palindrome sample_nonce"
    by (simp_all add: sample_seed_def sample_nonce_def byte_palindrome_def bswap32_def)
  then have "valid_for Little sample_work sample_nonce"
    using sample_solves valid_soln_solves [of sample_seed sample_nonce "0x1fffffff"]
    by (simp add: valid_for_def sample_work_def work_params_for_def)
  moreover have "sample_nonce \<noteq> 0" "sample_nonce < UINT64_MAX"
    by (simp_all add: sample_nonce_def word_less_nat_alt unat_UINT64_MAX)
  ultimately show ?thesis
    by (auto simp: solvable_def sample_work_def work_params_for_def)
qed

text \<open>The difficulty 0 stands for the target 0, which no digest is below.\<close>

definition sample_hopeless :: work_params where
  "sample_hopeless = work_params_for Big sample_env 0 sample_seed 1 1"

lemma sample_hopeless_hopeless: "hopeless Big sample_hopeless"
proof -
  have "length sample_seed = 32"
    by (simp add: sample_seed_def)
  moreover have "be_val (get_target 0) = 0"
    using target_value [of 0] by (simp add: ntohl_def target_of_def bswap32_def)
  ultimately have "\<not> valid_for Big sample_hopeless x" for x
    using valid_soln_value [of sample_seed "get_target 0" Big x]
    by (simp add: valid_for_def sample_hopeless_def work_params_for_def ntohl_def)
  then show ?thesis
    by (simp add: hopeless_def sample_hopeless_def work_params_for_def)
qed

abbreviation two_works :: "pipe_label list" where
  "two_works \<equiv> map Thread [Acquire 0, Spawn_Work, Acquire 1, Spawn_Work]"

lemma two_works_run:
  obtains s where "pipe_reach host params s" "pipe_run host params two_works pipe_init = Some s"
    "cl_queue (pl_client s) = [0, 1]" "ticket (pl_client s) 0 = 0" "ticket (pl_client s) 1 = 1"
proof -
  have "map_option (\<lambda>s. (cl_queue (pl_client s), map (ticket (pl_client s)) [0, 1]))
      (pipe_run host params two_works pipe_init) = Some ([0, 1], [0, 1])"
    by code_simp
  then obtain s where "pipe_run host params two_works pipe_init = Some s"
    "cl_queue (pl_client s) = [0, 1]" "map (ticket (pl_client s)) [0, 1] = [0, 1]"
    by auto
  with pipe_run_reach that show thesis by auto
qed

section \<open>Properties\<close>

text \<open>
  Property C7. Every WORK that has a solution gets it.  Take any state of a connection that is
  reached without a cancellation, with WORKs in the queue that all have a valid nonce to find, and
  let the WORK threads and the batch threads of their searches run in any order.  They cannot run
  for ever; when none of them can go on, all have ended, and to each of the WORKs a nonce has been
  sent that is valid for its target and seed, not below its \<open>n\<close> and below \<open>UINT64_MAX\<close>; the
  answers of the connection are in the order in which the WORKs were accepted.
\<close>

theorem solvable_works_solved:
  assumes "pipe_reach host params s"
    and "\<forall>i \<in> set (cl_queue (pl_client s)). solvable host (params (ticket (pl_client s) i))"
  shows "(\<exists>N. \<forall>n s'. (pipe_thread host params ^^ n) s s' \<longrightarrow> n \<le> N)
    \<and> (\<exists>s'. (pipe_thread host params)\<^sup>*\<^sup>* s s' \<and> \<not> (\<exists>t. pipe_thread host params s' t))
    \<and> (\<forall>s'. (pipe_thread host params)\<^sup>*\<^sup>* s s' \<and> \<not> (\<exists>t. pipe_thread host params s' t) \<longrightarrow>
         cl_threads (pl_client s') = Map.empty
         \<and> (\<forall>i \<in> set (cl_queue (pl_client s)). \<exists>x. (ticket (pl_client s) i, x) \<in> set (pl_sent s')
              \<and> valid_for host (params (ticket (pl_client s) i)) x
              \<and> wp_n (params (ticket (pl_client s) i)) \<le> x \<and> x < UINT64_MAX)
         \<and> sorted_wrt (<) (map fst (pl_sent s')))"
proof (intro conjI allI impI)
  have inv: "ready_inv host params s"
    using pipe.reach [OF assms(1)] assms(2) by (simp add: ready_inv_def)
  show "\<exists>N. \<forall>n s'. (pipe_thread host params ^^ n) s s' \<longrightarrow> n \<le> N"
    using pipe_threads.bounded [OF _ inv] by (meson add_leD1)
  show "\<exists>s'. (pipe_thread host params)\<^sup>*\<^sup>* s s' \<and> \<not> (\<exists>t. pipe_thread host params s' t)"
    using pipe_threads.ends [OF inv] by blast
  fix s'
  assume run: "(pipe_thread host params)\<^sup>*\<^sup>* s s' \<and> \<not> (\<exists>t. pipe_thread host params s' t)"
  have inv': "pipe_inv host params s'"
    using pipe_threads.later [OF _ inv] run by (simp add: ready_inv_def)
  show ended: "cl_threads (pl_client s') = Map.empty"
    using pipe_threads.stuck_final [OF _ inv] run by blast
  show "sorted_wrt (<) (map fst (pl_sent s'))"
    using pipe_invD(1,6) [OF inv'] order_invD(6) by (simp add: calm_inv_def)
  show "\<forall>i \<in> set (cl_queue (pl_client s)). \<exists>x. (ticket (pl_client s) i, x) \<in> set (pl_sent s')
      \<and> valid_for host (params (ticket (pl_client s) i)) x
      \<and> wp_n (params (ticket (pl_client s) i)) \<le> x \<and> x < UINT64_MAX"
  proof
    fix i
    assume i: "i \<in> set (cl_queue (pl_client s))"
    have "kept_or_answered (pl_client s') i (ticket (pl_client s) i)"
      using kept_or_answered_run [OF pipe_run_client, of host params s s' i] run inv i pipe_invD(1)
      by (auto simp: kept_or_answered_def ready_inv_def)
    then have "ticket (pl_client s) i \<in> set (map fst (pl_sent s'))"
      using final_queue [OF pipe_invD(1) [OF inv'] ended] pipe_invD(6) [OF inv'] by (simp add: kept_or_answered_def)
    then obtain x where x: "(ticket (pl_client s) i, x) \<in> set (pl_sent s')"
      by auto
    with published_sound [OF pipe_invD(7) [OF inv' x]] assms(2) i
    show "\<exists>x. (ticket (pl_client s) i, x) \<in> set (pl_sent s')
      \<and> valid_for host (params (ticket (pl_client s) i)) x
      \<and> wp_n (params (ticket (pl_client s) i)) \<le> x \<and> x < UINT64_MAX"
      by blast
  qed
qed

theorem solvable_works_solved_witness:
  "\<exists>s s' x y. pipe_run Little (\<lambda>t. sample_work) two_works pipe_init = Some s
    \<and> (pipe_thread Little (\<lambda>t. sample_work))\<^sup>*\<^sup>* s s' \<and> cl_threads (pl_client s') = Map.empty
    \<and> {(0, x), (1, y)} \<subseteq> set (pl_sent s') \<and> valid_for Little sample_work x \<and> valid_for Little sample_work y"
proof -
  obtain s where s: "pipe_reach Little (\<lambda>t. sample_work) s"
    "pipe_run Little (\<lambda>t. sample_work) two_works pipe_init = Some s"
    "cl_queue (pl_client s) = [0, 1]" "ticket (pl_client s) 0 = 0" "ticket (pl_client s) 1 = 1"
    by (rule two_works_run)
  have "\<forall>i \<in> set (cl_queue (pl_client s)). solvable Little sample_work"
    by (simp add: sample_work_solvable)
  from solvable_works_solved [OF s(1) this] obtain s' where
    "(pipe_thread Little (\<lambda>t. sample_work))\<^sup>*\<^sup>* s s'" "cl_threads (pl_client s') = Map.empty"
    "\<forall>i \<in> set (cl_queue (pl_client s)). \<exists>x. (ticket (pl_client s) i, x) \<in> set (pl_sent s')
      \<and> valid_for Little sample_work x"
    by blast
  with s show ?thesis by auto
qed

text \<open>
  Property C31. A WORK without a solution holds up its client.  When none of the nonces of a WORK in
  the queue is valid, then however the connection goes on without a cancellation, with all its
  threads and batches and new commands in any order, the WORK stays in the queue and neither it nor
  any WORK that was accepted after it is ever answered.
\<close>

theorem hopeless_work_blocks:
  assumes "pipe_reach host params s" "i \<in> set (cl_queue (pl_client s))"
    and "hopeless host (params (ticket (pl_client s) i))" "(pipe_step host params)\<^sup>*\<^sup>* s s'"
  shows "i \<in> set (cl_queue (pl_client s')) \<and> (\<forall>(t, x) \<in> set (pl_sent s'). t < ticket (pl_client s) i)"
proof -
  have inv: "pipe_inv host params s"
    by (rule pipe.reach [OF assms(1)])
  then have ord: "order_inv (pl_client s)"
    using pipe_invD(1) by (simp add: calm_inv_def)
  obtain p where p: "phase_of (pl_client s) i = Some p" "queued p"
    using order_invD(2) [OF ord, of i] assms(2) by blast
  have "p = Waiting \<or> p = Searching"
  proof (rule ccontr)
    assume other: "\<not> (p = Waiting \<or> p = Searching)"
    then have "has_search p"
      using p(2) order_invD(3) [OF ord p(1)] by (cases p) auto
    then obtain r where r: "pl_search s i = Some r"
      using pipe_invD(2) [OF inv, of i] p(1) by auto
    with hopeless_search [OF assms(3) pipe_invD(3) [OF inv r]] pipe_invD(4) [OF inv r] p(1) other show False
      by simp
  qed
  with p(1) have "holds_up i (ticket (pl_client s) i) s"
    by (auto simp: holds_up_def)
  from holds_up_run [OF assms(4) inv assms(3) this] have
    h: "holds_up i (ticket (pl_client s) i) s'" and inv': "pipe_inv host params s'"
    by simp_all
  have ord': "order_inv (pl_client s')"
    using pipe_invD(1) [OF inv'] by (simp add: calm_inv_def)
  have q: "i \<in> set (cl_queue (pl_client s'))"
    using h order_invD(2) [OF ord', of i] by (auto simp: holds_up_def)
  moreover have "t < ticket (pl_client s) i" if "(t, x) \<in> set (pl_sent s')" for t x
  proof -
    have "t \<in> set (map fst (pl_sent s'))"
      using that by force
    then have "t \<in> set (answered (pl_client s'))"
      by (simp only: pipe_invD(6) [OF inv'])
    from order_invD(8) [OF ord' this q] h show ?thesis
      by (auto simp: holds_up_def)
  qed
  ultimately show ?thesis by blast
qed

theorem hopeless_work_blocks_witness:
  "\<exists>s. pipe_run Big (\<lambda>t. if t = 0 then sample_hopeless else sample_work) two_works pipe_init = Some s
    \<and> (\<forall>s'. (pipe_step Big (\<lambda>t. if t = 0 then sample_hopeless else sample_work))\<^sup>*\<^sup>* s s' \<longrightarrow> pl_sent s' = [])"
proof -
  let ?params = "\<lambda>t. if t = 0 then sample_hopeless else sample_work"
  obtain s where s: "pipe_reach Big ?params s" "pipe_run Big ?params two_works pipe_init = Some s"
    "cl_queue (pl_client s) = [0, 1]" "ticket (pl_client s) 0 = 0"
    by (rule two_works_run)
  have "0 \<in> set (cl_queue (pl_client s))" "hopeless Big (?params (ticket (pl_client s) 0))"
    using s sample_hopeless_hopeless by simp_all
  note blocks = hopeless_work_blocks [OF s(1) this]
  have "pl_sent s' = []" if "(pipe_step Big ?params)\<^sup>*\<^sup>* s s'" for s'
    using blocks [OF that] s(4) by (cases "pl_sent s'") auto
  with s(2) show ?thesis by blast
qed

end
