(* ===== verification/Uint256_Test.thy ===== *)
theory Uint256_Test
  imports Uint256
begin

text \<open>
  The test program \<open>uint256_test.c\<close> on top of the model of \<open>uint256.h\<close>: its five arrays, the calls and
  the assertions in the order of \<open>main\<close>, one definition per numbered test.  An assertion that does
  not hold ends the program; the model then gives the line of the assertion.
\<close>

section \<open>The program\<close>

text \<open>The store, and the text printed so far.\<close>

type_synonym test_state = "store \<times> char list"

abbreviation (input) uint256a :: ptr where "uint256a \<equiv> 2"
abbreviation (input) uint256b :: ptr where "uint256b \<equiv> 3"
abbreviation (input) uint256c :: ptr where "uint256c \<equiv> 4"
abbreviation (input) uint256d :: ptr where "uint256d \<equiv> 5"
abbreviation (input) clean :: ptr where "clean \<equiv> 6"

definition set_byte :: "ptr \<Rightarrow> nat \<Rightarrow> BYTE \<Rightarrow> store \<Rightarrow> store" where
  "set_byte p i v st = st(p := (st p)[i := v])"

definition assert_at :: "nat \<Rightarrow> bool \<Rightarrow> test_state \<Rightarrow> nat + test_state" where
  "assert_at line c s = (if c then Inr s else Inl line)"

definition then_test :: "nat + test_state \<Rightarrow> (test_state \<Rightarrow> nat + test_state) \<Rightarrow> nat + test_state" where
  "then_test r f = (case r of Inl line \<Rightarrow> Inl line | Inr s \<Rightarrow> f s)"

definition test_setup :: "store \<Rightarrow> store" where
  "test_setup st =
     (let st = uint256_init (uint256_init (uint256_init (uint256_init st uint256a) uint256b) uint256c) uint256d;
          st = uint256_init st clean
      in set_byte uint256d 28 0x12 (set_byte uint256d 2 0xa (set_byte uint256b 31 0xb (set_byte uint256a 31 0x1 st))))"

definition test_1 :: "test_state \<Rightarrow> nat + test_state" where
  "test_1 = (\<lambda>(st, out).
     let st = uint256_sl st uint256c uint256a 9
     in assert_at 24 (st uint256c ! 30 = 0x02)
          (st, out @ ''TEST #1: uint256 shift left 0x1 << 9 '' @ [CHR 0x0A] @ ''TEST #1 PASSED'' @ [CHR 0x0A]))"

definition test_2 :: "test_state \<Rightarrow> nat + test_state" where
  "test_2 = (\<lambda>(st, out).
     let st = uint256_add st uint256c uint256a uint256b
     in assert_at 29 (st uint256c ! 31 = 0xc)
          (st, out @ ''TEST #2a: uint256 add 0x1 + 0xb '' @ [CHR 0x0A] @ ''TEST #2 PASSED'' @ [CHR 0x0A]))"

definition test_3a :: "test_state \<Rightarrow> nat + test_state" where
  "test_3a = (\<lambda>(st, out).
     let st = uint256_mul st clean uint256a uint256b
     in then_test (assert_at 35 (st clean ! 31 = 0xb) (st, out @ ''TEST #3a: uint256 mul 0x1 * 0xb'' @ [CHR 0x0A]))
          (\<lambda>(st, out). Inr (uint256_init st clean, out)))"

text \<open>
  The assertions of tests 3b and 3c are assignments: they store the expected value and test that it
  is not 0.
\<close>

definition test_3b :: "test_state \<Rightarrow> nat + test_state" where
  "test_3b = (\<lambda>(st, out).
     let st = set_byte uint256a 31 0x2 st;
         st = uint256_mul st clean uint256a uint256b;
         st = set_byte clean 31 0x22 st
     in then_test (assert_at 42 (st clean ! 31 \<noteq> 0) (st, out @ ''TEST #3b: uint256 mul 0x2 * 0xb'' @ [CHR 0x0A]))
          (\<lambda>(st, out). Inr (uint256_init st clean, out)))"

definition test_3c :: "test_state \<Rightarrow> nat + test_state" where
  "test_3c = (\<lambda>(st, out).
     let st = set_byte uint256a 31 0x2 st;
         st = uint256_mul st clean uint256a uint256a;
         st = set_byte clean 31 0x4 st
     in then_test (assert_at 49 (st clean ! 31 \<noteq> 0) (st, out @ ''TEST #3c: uint256 mul 0x2 * 0x2'' @ [CHR 0x0A]))
          (\<lambda>(st, out). Inr (uint256_init st clean, out)))"

definition test_3d :: "test_state \<Rightarrow> nat + test_state" where
  "test_3d = (\<lambda>(st, out).
     let st = set_byte uint256b 31 0x10 st;
         st = uint256_mul st clean uint256b uint256b
     in then_test (assert_at 56 (st clean ! 30 = 0x01 \<and> st clean ! 31 = 0x00)
            (st, out @ ''TEST #3d: uint256 mul 0x10 * 0x10'' @ [CHR 0x0A]))
          (\<lambda>(st, out). Inr (uint256_init st clean, out @ ''TEST #3 PASSED'' @ [CHR 0x0A])))"

definition test_4a :: "test_state \<Rightarrow> nat + test_state" where
  "test_4a = (\<lambda>(st, out).
     let st = uint256_exp st clean uint256a 2
     in then_test (assert_at 64 (st clean ! 31 = 0x4) (st, out @ ''TEST #4a: uint256 exp 0x2 ** 0x2'' @ [CHR 0x0A]))
          (\<lambda>(st, out). Inr (uint256_init st clean, out)))"

definition test_4b :: "test_state \<Rightarrow> nat + test_state" where
  "test_4b = (\<lambda>(st, out).
     let st = uint256_exp st clean uint256a 0x3f
     in then_test (assert_at 70 (st clean ! 24 = 0x80) (st, out @ ''TEST #4b: uint256 exp 0x02 ** 0x3f'' @ [CHR 0x0A]))
          (\<lambda>(st, out). Inr (uint256_init st clean, out @ ''TEST #4 PASSED'' @ [CHR 0x0A])))"

definition uint256_test_main :: "store \<Rightarrow> nat + test_state" where
  "uint256_test_main st =
     fold (\<lambda>t r. then_test r t) [test_1, test_2, test_3a, test_3b, test_3c, test_3d, test_4a, test_4b]
       (Inr (test_setup st, []))"

section \<open>Products of small numbers\<close>

text \<open>A factor below 256 has set bits in its last byte only: eight iterations do the work.\<close>

definition small :: "BYTE \<Rightarrow> BYTE list" where
  "small v = zeros[31 := v]"

lemma length_small [simp]: "length (small v) = 32"
  by (simp add: small_def)

text \<open>The shifted copies of the first factor that are added up, for the set bits of the second one.\<close>

definition shift_small :: "BYTE list \<Rightarrow> nat \<Rightarrow> BYTE list" where
  "shift_small a s = (if s = 0 then a else map (sl_byte a 0 s) [0..<32])"

lemma length_shift_small [simp]: "length a = 32 \<Longrightarrow> length (shift_small a s) = 32"
  by (simp add: shift_small_def)

definition mul_small :: "BYTE list \<Rightarrow> BYTE \<Rightarrow> BYTE list" where
  "mul_small a w = fold (\<lambda>s acc. add_bytes acc (shift_small a s) 32) (filter (\<lambda>s. bit w s) [0..<8]) zeros"

lemma byte_and_bit: "s < 8 \<Longrightarrow> (w :: BYTE) AND push_bit s 1 > 0 \<longleftrightarrow> bit w s"
proof -
  have "w AND push_bit s 1 = (if bit w s then push_bit s 1 else 0)"
    by (rule bit_word_eqI) (auto simp: bit_simps)
  moreover assume "s < 8"
  then have "push_bit s (1 :: BYTE) \<noteq> 0"
    by (metis unat_0 unat_push_bit_1 power_not_zero zero_neq_numeral)
  ultimately show ?thesis
    by (auto simp: word_gt_0)
qed

lemma div_mod_ends: "s < 8 \<Longrightarrow> (255 - s) div 8 = 31 \<and> 7 - (255 - s) mod 8 = (s :: nat)"
proof -
  assume "s < 8"
  then have eq: "255 - s = (7 - s) + 31 * 8" by simp
  have "(255 - s) div 8 = 31" "(255 - s) mod 8 = 7 - s"
    unfolding eq by (simp_all only: mod_mult_self1 div_mult_self1 zero_neq_numeral [symmetric]) simp_all
  with \<open>s < 8\<close> show ?thesis by simp
qed

lemma mul_step_small:
  assumes "fr mul_bb = small w" "length (fr mul_aa) = 32" "length (fr mul_acc) = 32" "length (fr mul_temp) = 32" "s < 8"
  shows "uint256_mul_step (255 - s) fr =
    (if bit w s then fr(mul_temp := shift_small (fr mul_aa) s, mul_acc := add_bytes (fr mul_acc) (shift_small (fr mul_aa) s) 32)
     else fr)"
proof -
  have ix: "(255 - s) div 8 = 31" "7 - (255 - s) mod 8 = s"
    using assms(5) div_mod_ends [OF assms(5)] by simp_all
  have "uint256_sl fr mul_temp mul_aa (word_of_nat s) = fr(mul_temp := shift_small (fr mul_aa) s)"
    using uint256_sl_eq [of mul_temp mul_aa fr s] assms by (auto simp: shift_small_def)
  moreover have "fr mul_bb ! 31 = w"
    using assms(1) by (simp add: small_def)
  ultimately show ?thesis
    using assms byte_and_bit [OF assms(5), of w] by (simp add: uint256_mul_step_def ix uint256_add_eq)
qed

lemma mul_fold_small:
  assumes "fr mul_bb = small w" "length (fr mul_aa) = 32" "length (fr mul_acc) = 32" "length (fr mul_temp) = 32"
    "set ss \<subseteq> {..<8}"
  shows "fold uint256_mul_step (map ((-) 255) ss) fr mul_acc =
    fold (\<lambda>s acc. add_bytes acc (shift_small (fr mul_aa) s) 32) (filter (bit w) ss) (fr mul_acc)"
  using assms
proof (induction ss arbitrary: fr)
  case (Cons s ss)
  then show ?case
    using mul_step_small [of fr w s] by (simp add: Cons.IH)
qed simp

lemma uint256_mul_small:
  assumes "res \<noteq> NULL" "a \<noteq> NULL" "b \<noteq> NULL" "length (st res) = 32" "length (st a) = 32" "st b = small w"
  shows "uint256_mul st res a b = st(res := mul_small (st a) w)"
proof -
  let ?fr = "uint256_mul_frame (st a) (small w)"
  have fr: "?fr mul_bb = small w" "?fr mul_aa = st a" "?fr mul_acc = zeros" "?fr mul_temp = zeros"
    using assms(5) by (simp_all add: uint256_mul_frame_def memcpy_at_whole)
  have "fold uint256_mul_step (rev [0..<256]) ?fr = fold uint256_mul_step (filter (\<lambda>i. 248 \<le> i) (rev [0..<256])) ?fr"
  proof (rule fold_filter_noop [where Q = "\<lambda>fr. fr mul_bb = small w"])
    show "uint256_mul_step i fr mul_bb = small w" if "fr mul_bb = small w" for i fr
      using that by (simp add: uint256_mul_step_def uint256_add_other uint256_sl_other)
    show "uint256_mul_step i fr = fr"
      if "i \<in> set (rev [0..<256])" "fr mul_bb = small w" "\<not> 248 \<le> i" for i fr
    proof -
      have "i div 8 < 31"
        using that(3) by auto
      then have "fr mul_bb ! (i div 8) = 0"
        using that(2) by (simp add: small_def)
      then show ?thesis
        by (simp add: uint256_mul_step_def)
    qed
  qed (rule fr)
  moreover have "filter (\<lambda>i. 248 \<le> i) (rev [0..<256]) = map ((-) 255) [0..<8 :: nat]"
    by code_simp
  moreover have "fold uint256_mul_step (map ((-) 255) [0..<8]) ?fr mul_acc = mul_small (st a) w"
    using mul_fold_small [of ?fr w "[0..<8]"] fr assms(5) by (simp add: mul_small_def lessThan_atLeast0)
  moreover have "length (mul_small (st a) w) = 32"
    unfolding mul_small_def by (rule fold_keeps [where P = "\<lambda>x. length x = 32"]) simp_all
  ultimately show ?thesis
    using assms by (simp add: uint256_mul_def memcpy_at_whole)
qed

lemma length_mul_small [simp]: "length (mul_small a w) = 32"
  unfolding mul_small_def by (rule fold_keeps [where P = "\<lambda>x. length x = 32"]) simp_all

text \<open>Adding two small numbers; what does not fit into the last byte is lost.\<close>

lemma nth_small: "i < 32 \<Longrightarrow> small v ! i = (if i = 31 then v else 0)"
  by (simp add: small_def)

lemma add_temp_small: "n \<le> 31 \<Longrightarrow> add_temp (small x) (small y) n = 0"
  by (induction n) (simp_all add: nth_small)

lemma add_bytes_small: "add_bytes (small x) (small y) 32 = small (x + y)"
proof (rule nth_equalityI)
  fix i
  assume i: "i < length (add_bytes (small x) (small y) 32)"
  have "ucast (ucast x + ucast y AND 0xff :: u16) = x + y"
    by (rule word_unat_eq_iff [THEN iffD2]) (simp add: unat_and_255 unat_word_ariths unsigned_ucast_eq take_bit_eq_mod mod_mod_cancel)
  with i show "add_bytes (small x) (small y) 32 ! i = small (x + y) ! i"
    by (cases "i = 31") (simp_all add: add_bytes_def add_temp_small nth_small)
qed simp

lemma shift_small_value:
  assumes "s < 8" "v AND push_bit (8 - s) 0xff = 0" shows "shift_small (small v) s = small (push_bit s v)"
proof (cases "s = 0")
  case False
  show ?thesis
  proof (rule nth_equalityI)
    fix i
    assume "i < length (shift_small (small v) s)"
    with False assms show "shift_small (small v) s ! i = small (push_bit s v) ! i"
      by (cases "i = 31") (auto simp: shift_small_def sl_byte_def sl_carry_def nth_small simp del: drop_bit_and)
  qed simp
qed (simp add: shift_small_def)

lemma zeros_small: "zeros = small 0"
  using list_update_id [of zeros 31] by (simp add: small_def)

lemma mul_small_values:
  "mul_small (small 1) 0xb = small 0xb" "mul_small (small 2) 0xb = small 0x16"
proof -
  have bits: "filter (bit (0xb :: BYTE)) [0..<8] = [0, 1, 3]"
    by code_simp
  show "mul_small (small 1) 0xb = small 0xb" "mul_small (small 2) 0xb = small 0x16"
    unfolding mul_small_def bits by (simp_all add: zeros_small shift_small_value add_bytes_small)
qed

section \<open>The tests one by one\<close>

text \<open>The values of the arrays between two tests; \<open>clean\<close> is zero.\<close>

definition test_ready :: "BYTE \<Rightarrow> BYTE \<Rightarrow> store \<Rightarrow> bool" where
  "test_ready v w st \<longleftrightarrow>
     st uint256a = small v \<and> st uint256b = small w \<and> length (st uint256c) = 32 \<and> st clean = zeros"

definition passed :: "BYTE \<Rightarrow> BYTE \<Rightarrow> nat + test_state \<Rightarrow> bool" where
  "passed v w r \<longleftrightarrow> (\<exists>st out. r = Inr (st, out) \<and> test_ready v w st)"

lemma passed_then:
  assumes "passed v w r" "\<And>st out. test_ready v w st \<Longrightarrow> passed v' w' (t (st, out))"
  shows "passed v' w' (then_test r t)"
  using assms by (auto simp: passed_def [of v w] then_test_def)

lemma test_setup_ready:
  assumes "arrays_ok st" shows "test_ready 1 0xb (test_setup st) \<and> test_setup st uint256c = zeros"
  using assms by (simp add: test_ready_def test_setup_def set_byte_def uint256_init_eq arrays_ok_def Let_def
      small_def zeros_def)

lemma test_1_passes:
  assumes "test_ready 1 0xb st" shows "passed 1 0xb (test_1 (st, out))"
proof -
  have sl: "uint256_sl st uint256c uint256a 9 =
      st(uint256c := map (sl_byte (small 1) 1 1) [0..<31] @ drop 31 (st uint256c))"
    using uint256_sl_eq [of uint256c uint256a st 9] assms by (simp add: test_ready_def)
  have "(map (sl_byte (small 1) 1 1) [0..<31] @ drop 31 (st uint256c)) ! 30 = 2"
    by (simp add: nth_append sl_byte_def sl_carry_def nth_small)
  with assms show ?thesis
    by (simp add: passed_def test_1_def sl assert_at_def test_ready_def)
qed

lemma test_2_passes:
  assumes "test_ready 1 0xb st" shows "passed 1 0xb (test_2 (st, out))"
  using assms by (simp add: passed_def test_2_def assert_at_def test_ready_def uint256_add_eq add_bytes_small nth_small)

lemma test_3a_passes:
  assumes "test_ready 1 0xb st" shows "passed 1 0xb (test_3a (st, out))"
  using assms by (simp add: passed_def test_3a_def assert_at_def then_test_def test_ready_def uint256_mul_small
      mul_small_values nth_small uint256_init_eq)

lemma set_small: "(small v)[31 := w] = small w"
  by (simp add: small_def)

lemma test_3b_passes:
  assumes "test_ready v 0xb st" shows "passed 2 0xb (test_3b (st, out))"
  using assms by (simp add: passed_def test_3b_def assert_at_def then_test_def test_ready_def set_byte_def set_small
      uint256_mul_small uint256_init_eq)

lemma test_3c_passes:
  assumes "test_ready v w st" shows "passed 2 w (test_3c (st, out))"
  using assms by (simp add: passed_def test_3c_def assert_at_def then_test_def test_ready_def set_byte_def set_small
      uint256_mul_small uint256_init_eq)

lemma test_3d_passes:
  assumes "test_ready 2 w st" shows "passed 2 0x10 (test_3d (st, out))"
proof -
  have "small 0x10 = pow2 4" "shifted (pow2 4) 4 = pow2 8"
    using shifted_square [of 2] by (simp_all add: small_def pow2_def)
  moreover have "pow2 8 ! 30 = 1" "pow2 8 ! 31 = 0"
    by (simp_all add: nth_pow2)
  ultimately show ?thesis
    using assms by (simp add: passed_def test_3d_def assert_at_def then_test_def test_ready_def set_byte_def set_small
        uint256_mul_pow2 [where s = 4] uint256_init_eq)
qed

lemma test_4_passes:
  assumes "test_ready 2 w st"
  shows "passed 2 w (test_4a (st, out))"
    "passed 2 w (test_4b (st, out))"
proof -
  have exp: "uint256_exp st clean uint256a e = st(clean := pow2 (unat e))" for e
    using assms by (intro uint256_exp_pow2) (simp_all add: test_ready_def small_def)
  have "pow2 2 ! 31 = 4" "pow2 63 ! 24 = 0x80"
    by (simp_all add: nth_pow2)
  with assms show "passed 2 w (test_4a (st, out))"
      "passed 2 w (test_4b (st, out))"
    by (simp_all add: passed_def test_4a_def test_4b_def exp assert_at_def then_test_def test_ready_def uint256_init_eq)
qed

section \<open>Properties\<close>

text \<open>
  Property C26. The test program \<open>uint256_test\<close> passes: none of its assertions fails, whatever the
  arrays on its stack held before, and at the end \<open>clean\<close> is zero.
\<close>

theorem uint256_test_passes:
  assumes "arrays_ok st"
  shows "\<exists>st' out. uint256_test_main st = Inr (st', out) \<and> st' clean = zeros"
proof -
  have "passed 1 0xb (Inr (test_setup st, []))"
    using test_setup_ready [OF assms] by (simp add: passed_def)
  note passed_then [where t = test_1, OF this test_1_passes]
  note passed_then [where t = test_2, OF this test_2_passes]
  note passed_then [where t = test_3a, OF this test_3a_passes]
  note passed_then [where t = test_3b, OF this test_3b_passes]
  note passed_then [where t = test_3c, OF this test_3c_passes]
  note passed_then [where t = test_3d, OF this test_3d_passes]
  note passed_then [where t = test_4a, OF this test_4_passes(1)]
  note passed_then [where t = test_4b, OF this test_4_passes(2)]
  then have "passed 2 0x10 (uint256_test_main st)"
    by (simp add: uint256_test_main_def)
  then show ?thesis
    by (auto simp: passed_def test_ready_def)
qed

theorem uint256_test_passes_witness:
  "\<exists>st' out. uint256_test_main (\<lambda>_. replicate 32 0xA5) = Inr (st', out) \<and> st' clean = zeros"
  using uint256_test_passes [of "\<lambda>_. replicate 32 0xA5"] by (simp add: arrays_ok_def)

text \<open>
  Test 3b does not check what it computes: its assertion assigns 0x22, while the product that
  \<open>uint256_mul\<close> leaves is 0x16, the right value of 2 times 0xb.
\<close>

lemma test_3b_value:
  assumes "test_ready 2 0xb st" shows "uint256_mul st clean uint256a uint256b clean ! 31 = 0x16"
  using assms by (simp add: test_ready_def uint256_mul_small mul_small_values nth_small)

end
