(* ===== verification/Sha256_Test.thy ===== *)
theory Sha256_Test
  imports Known_Answers
begin

text \<open>
  The known-answer test \<open>crypto/sha256_test.c\<close> on top of the model of \<open>sha256.c\<close>: three messages, the
  third one of a million letters fed in a hundred thousand pieces.  The first two digests are
  evaluated; the third is related to the standard, which leaves open only the value of the standard
  on that message.
\<close>

section \<open>The program\<close>

definition ascii :: "char list \<Rightarrow> BYTE list" where
  "ascii cs = map of_char cs"

text \<open>The arrays hold the terminating zero of the string literal.\<close>

definition text1 :: "BYTE list" where
  "text1 = ascii ''abc'' @ [0]"

definition text2 :: "BYTE list" where
  "text2 = ascii ''abcdbcdecdefdefgefghfghighijhijkijkljklmklmnlmnomnopnopq'' @ [0]"

definition text3 :: "BYTE list" where
  "text3 = ascii ''aaaaaaaaaa'' @ [0]"

definition hash1 :: "BYTE list" where
  "hash1 = [0xba, 0x78, 0x16, 0xbf, 0x8f, 0x01, 0xcf, 0xea, 0x41, 0x41, 0x40, 0xde, 0x5d, 0xae, 0x22, 0x23,
     0xb0, 0x03, 0x61, 0xa3, 0x96, 0x17, 0x7a, 0x9c, 0xb4, 0x10, 0xff, 0x61, 0xf2, 0x00, 0x15, 0xad]"

definition hash2 :: "BYTE list" where
  "hash2 = [0x24, 0x8d, 0x6a, 0x61, 0xd2, 0x06, 0x38, 0xb8, 0xe5, 0xc0, 0x26, 0x93, 0x0c, 0x3e, 0x60, 0x39,
     0xa3, 0x3c, 0xe4, 0x59, 0x64, 0xff, 0x21, 0x67, 0xf6, 0xec, 0xed, 0xd4, 0x19, 0xdb, 0x06, 0xc1]"

definition hash3 :: "BYTE list" where
  "hash3 = [0xcd, 0xc7, 0x6e, 0x5c, 0x99, 0x14, 0xfb, 0x92, 0x81, 0xa1, 0xc7, 0xe2, 0x84, 0xd7, 0x3e, 0x67,
     0xf1, 0x80, 0x9a, 0x48, 0xa4, 0x97, 0x20, 0x0e, 0x04, 0x6d, 0x39, 0xcc, 0xc7, 0x11, 0x2c, 0xd0]"

text \<open>The library functions \<open>strlen\<close> and \<open>memcmp\<close> on byte arrays.\<close>

definition byte_strlen :: "BYTE list \<Rightarrow> nat" where
  "byte_strlen xs = length (takeWhile (\<lambda>b. b \<noteq> 0) xs)"

definition memcmp :: "BYTE list \<Rightarrow> BYTE list \<Rightarrow> nat \<Rightarrow> int" where
  "memcmp xs ys n =
     (case filter (\<lambda>(x, y). x \<noteq> y) (zip (take n xs) (take n ys)) of
        [] \<Rightarrow> 0
      | (x, y) # _ \<Rightarrow> if x < y then -1 else 1)"

definition sha256_test :: "SHA256_CTX \<Rightarrow> BYTE list \<Rightarrow> int" where
  "sha256_test ctx buf =
     (let pass = True;
          ctx = sha256_init ctx;
          ctx = sha256_update ctx text1 (byte_strlen text1);
          (ctx, buf) = sha256_final ctx buf;
          pass = (pass \<and> memcmp hash1 buf 32 = 0);
          ctx = sha256_init ctx;
          ctx = sha256_update ctx text2 (byte_strlen text2);
          (ctx, buf) = sha256_final ctx buf;
          pass = (pass \<and> memcmp hash2 buf 32 = 0);
          ctx = sha256_init ctx;
          ctx = ((\<lambda>ctx. sha256_update ctx text3 (byte_strlen text3)) ^^ 100000) ctx;
          (ctx, buf) = sha256_final ctx buf;
          pass = (pass \<and> memcmp hash3 buf 32 = 0)
      in if pass then 1 else 0)"

definition sha256_test_main :: "SHA256_CTX \<Rightarrow> BYTE list \<Rightarrow> char list" where
  "sha256_test_main ctx buf =
     ''SHA-256 tests: '' @ (if sha256_test ctx buf \<noteq> 0 then ''SUCCEEDED'' else ''FAILED'') @ [LF]"

section \<open>The second message\<close>

text \<open>It fills the first block up to the length field, so its padding takes a second block.\<close>

definition text2a_block :: "BYTE list" where
  "text2a_block = [0x61, 0x62, 0x63, 0x64, 0x62, 0x63, 0x64, 0x65, 0x63, 0x64, 0x65, 0x66, 0x64, 0x65, 0x66, 0x67,
     0x65, 0x66, 0x67, 0x68, 0x66, 0x67, 0x68, 0x69, 0x67, 0x68, 0x69, 0x6a, 0x68, 0x69, 0x6a, 0x6b,
     0x69, 0x6a, 0x6b, 0x6c, 0x6a, 0x6b, 0x6c, 0x6d, 0x6b, 0x6c, 0x6d, 0x6e, 0x6c, 0x6d, 0x6e, 0x6f,
     0x6d, 0x6e, 0x6f, 0x70, 0x6e, 0x6f, 0x70, 0x71, 0x80, 0x00, 0x00, 0x00, 0x00, 0x00, 0x00, 0x00]"

definition text2a_words :: "WORD list" where
  "text2a_words = [0x61626364, 0x62636465, 0x63646566, 0x64656667, 0x65666768, 0x66676869, 0x6768696a, 0x68696a6b,
     0x696a6b6c, 0x6a6b6c6d, 0x6b6c6d6e, 0x6c6d6e6f, 0x6d6e6f70, 0x6e6f7071, 0x80000000, 0x00000000,
     0xeb8012ad, 0xa7c3ae92, 0x76e93ba2, 0xba42e743, 0x92a92204, 0xd847e75e, 0x9e160036, 0xb280a7cb,
     0xddeb1516, 0xf36586f4, 0x969cd048, 0xe959d99d, 0x6accc0ec, 0xf54cb098, 0x2af1b2da, 0xee59c4c9,
     0xa835e16a, 0x1dff4429, 0xd6e15959, 0xc397cd6e, 0x6f1801ca, 0x21574205, 0x35ff7a84, 0x9743ee78,
     0xe44183e7, 0x0d09f00d, 0x9c89af54, 0x042d5bef, 0x71f134d0, 0x0f94f463, 0x7e49dc63, 0x6f65c997,
     0x0b706583, 0x179312ca, 0x503054e9, 0xba125c39, 0x7e9392c9, 0xd5cbaa1e, 0x78e0585d, 0xf6e7611c,
     0x8ac830ce, 0x8b47a303, 0xfd6e627f, 0x8c6e2c6a, 0x4001adf1, 0x1a3dd097, 0xa9df6f62, 0x6aa60a39]"

lemma text2a_schedule: "sha256_schedule text2a_block = text2a_words"
  by code_simp

lemma text2a_rounds_0: "fold (sha256_round text2a_words) [0..<16]
    (0x6a09e667, 0xbb67ae85, 0x3c6ef372, 0xa54ff53a, 0x510e527f, 0x9b05688c, 0x1f83d9ab, 0x5be0cd19) =
    (0xc3486194, 0xdd16cbb3, 0xd68e6457, 0x101a4861, 0x1496a54f, 0x9162aded, 0x9243f8af, 0x839a0fc9)"
  by code_simp

lemma text2a_rounds_1: "fold (sha256_round text2a_words) [16..<32]
    (0xc3486194, 0xdd16cbb3, 0xd68e6457, 0x101a4861, 0x1496a54f, 0x9162aded, 0x9243f8af, 0x839a0fc9) =
    (0x5581ab07, 0xeb43f3ed, 0xdf7151a0, 0x74bcf468, 0xdf980085, 0x0635d880, 0x7629c961, 0x72abaecd)"
  by code_simp

lemma text2a_rounds_2: "fold (sha256_round text2a_words) [32..<48]
    (0x5581ab07, 0xeb43f3ed, 0xdf7151a0, 0x74bcf468, 0xdf980085, 0x0635d880, 0x7629c961, 0x72abaecd) =
    (0x13d82741, 0x165be9cd, 0x18f0d19d, 0xde71e2f2, 0xa7802a4d, 0xa483f080, 0x6b88472c, 0xff61c636)"
  by code_simp

lemma text2a_rounds_3: "fold (sha256_round text2a_words) [48..<64]
    (0x13d82741, 0x165be9cd, 0x18f0d19d, 0xde71e2f2, 0xa7802a4d, 0xa483f080, 0x6b88472c, 0xff61c636) =
    (0x1bdc6f6f, 0x86126910, 0xf6f443f8, 0xbcfce922, 0x25d2430a, 0x2fc08f85, 0xacc75916, 0x962d8621)"
  by code_simp

lemma text2a_compress: "fips_compress [0x6a09e667, 0xbb67ae85, 0x3c6ef372, 0xa54ff53a, 0x510e527f, 0x9b05688c, 0x1f83d9ab, 0x5be0cd19] text2a_block =
    [0x85e655d6, 0x417a1795, 0x3363376a, 0x624cde5c, 0x76e09589, 0xcac5f811, 0xcc4b32c1, 0xf20e533a]"
proof -
  have "fold (sha256_round text2a_words) [0..<64]
      (0x6a09e667, 0xbb67ae85, 0x3c6ef372, 0xa54ff53a, 0x510e527f, 0x9b05688c, 0x1f83d9ab, 0x5be0cd19) =
      (0x1bdc6f6f, 0x86126910, 0xf6f443f8, 0xbcfce922, 0x25d2430a, 0x2fc08f85, 0xacc75916, 0x962d8621)"
    by (rule fold_upt_trans [OF text2a_rounds_0 fold_upt_trans [OF text2a_rounds_1 fold_upt_trans [OF text2a_rounds_2 text2a_rounds_3]]]) simp_all
  from compress_block [OF _ text2a_schedule this] show ?thesis
    by (simp add: text2a_block_def)
qed

definition text2b_block :: "BYTE list" where
  "text2b_block = [0x00, 0x00, 0x00, 0x00, 0x00, 0x00, 0x00, 0x00, 0x00, 0x00, 0x00, 0x00, 0x00, 0x00, 0x00, 0x00,
     0x00, 0x00, 0x00, 0x00, 0x00, 0x00, 0x00, 0x00, 0x00, 0x00, 0x00, 0x00, 0x00, 0x00, 0x00, 0x00,
     0x00, 0x00, 0x00, 0x00, 0x00, 0x00, 0x00, 0x00, 0x00, 0x00, 0x00, 0x00, 0x00, 0x00, 0x00, 0x00,
     0x00, 0x00, 0x00, 0x00, 0x00, 0x00, 0x00, 0x00, 0x00, 0x00, 0x00, 0x00, 0x00, 0x00, 0x01, 0xc0]"

definition text2b_words :: "WORD list" where
  "text2b_words = [0x00000000, 0x00000000, 0x00000000, 0x00000000, 0x00000000, 0x00000000, 0x00000000, 0x00000000,
     0x00000000, 0x00000000, 0x00000000, 0x00000000, 0x00000000, 0x00000000, 0x00000000, 0x000001c0,
     0x00000000, 0x00d80000, 0x00000000, 0x00003677, 0x00000000, 0x1df5600d, 0x000001c0, 0x1c00501c,
     0x01b00000, 0x220a8d94, 0x0000a365, 0x177017e7, 0x63d38035, 0x090ab713, 0x4c7539ca, 0x0f19a8c9,
     0x5df4b0c4, 0xe257036a, 0xc97bb6f1, 0xc5b46f4d, 0xf8253c4e, 0xa558d189, 0x78696285, 0xed07117f,
     0x107358f6, 0x390ae496, 0x565010a2, 0xc51d7d44, 0x9e74c972, 0x6614b561, 0x30fc129d, 0x9ac684a8,
     0x2b658dbd, 0xe290f793, 0x9eebb24c, 0x9713b5de, 0x41061ab7, 0xe022e23b, 0x0772079e, 0x7de22d9c,
     0xc8b83778, 0x75a79849, 0xd93dbddb, 0x0a036c9d, 0xcb4f6ac6, 0x823f97e2, 0xea2f2a7a, 0xb9018b52]"

lemma text2b_schedule: "sha256_schedule text2b_block = text2b_words"
  by code_simp

lemma text2b_rounds_0: "fold (sha256_round text2b_words) [0..<16]
    (0x85e655d6, 0x417a1795, 0x3363376a, 0x624cde5c, 0x76e09589, 0xcac5f811, 0xcc4b32c1, 0xf20e533a) =
    (0x16a8cc79, 0x0cea5cbc, 0xd74080fa, 0x35ee996d, 0x0fcb1f6f, 0x60356548, 0x68aa893f, 0x5c24e2a2)"
  by code_simp

lemma text2b_rounds_1: "fold (sha256_round text2b_words) [16..<32]
    (0x16a8cc79, 0x0cea5cbc, 0xd74080fa, 0x35ee996d, 0x0fcb1f6f, 0x60356548, 0x68aa893f, 0x5c24e2a2) =
    (0xb0eab1c5, 0x02ef3a5f, 0x1cfa5eb0, 0xd958b529, 0xf6d93952, 0x5da10665, 0x6c49db9f, 0xc2fa99b1)"
  by code_simp

lemma text2b_rounds_2: "fold (sha256_round text2b_words) [32..<48]
    (0xb0eab1c5, 0x02ef3a5f, 0x1cfa5eb0, 0xd958b529, 0xf6d93952, 0x5da10665, 0x6c49db9f, 0xc2fa99b1) =
    (0xd7354d5b, 0x0b3303a7, 0x104a7db4, 0x0f154e11, 0xaad55b6b, 0xbbe1c39a, 0x5348e8f6, 0x6f9517cb)"
  by code_simp

lemma text2b_rounds_3: "fold (sha256_round text2b_words) [48..<64]
    (0xd7354d5b, 0x0b3303a7, 0x104a7db4, 0x0f154e11, 0xaad55b6b, 0xbbe1c39a, 0x5348e8f6, 0x6f9517cb) =
    (0x9ea7148b, 0x908c2123, 0xb25cef29, 0xa9f181dd, 0x2c5c4ed0, 0x9a392956, 0x2aa1bb13, 0x27ccb387)"
  by code_simp

lemma text2b_compress: "fips_compress [0x85e655d6, 0x417a1795, 0x3363376a, 0x624cde5c, 0x76e09589, 0xcac5f811, 0xcc4b32c1, 0xf20e533a] text2b_block =
    [0x248d6a61, 0xd20638b8, 0xe5c02693, 0x0c3e6039, 0xa33ce459, 0x64ff2167, 0xf6ecedd4, 0x19db06c1]"
proof -
  have "fold (sha256_round text2b_words) [0..<64]
      (0x85e655d6, 0x417a1795, 0x3363376a, 0x624cde5c, 0x76e09589, 0xcac5f811, 0xcc4b32c1, 0xf20e533a) =
      (0x9ea7148b, 0x908c2123, 0xb25cef29, 0xa9f181dd, 0x2c5c4ed0, 0x9a392956, 0x2aa1bb13, 0x27ccb387)"
    by (rule fold_upt_trans [OF text2b_rounds_0 fold_upt_trans [OF text2b_rounds_1 fold_upt_trans [OF text2b_rounds_2 text2b_rounds_3]]]) simp_all
  from compress_block [OF _ text2b_schedule this] show ?thesis
    by (simp add: text2b_block_def)
qed

text \<open>The padded message is these two blocks.\<close>

lemma ascii_text2: "takeWhile (\<lambda>b. b \<noteq> 0) text2 = take 56 text2a_block"
  by code_simp

lemma text2_hash: "fips_sha256 (take 56 text2a_block) = hash2"
proof -
  have z: "replicate 63 (0 :: BYTE) = drop 57 text2a_block @ take 56 text2b_block"
    by code_simp
  have cut: "take 56 text2a_block @ [0x80] @ drop 57 text2a_block = text2a_block"
    by code_simp
  have len: "length text2a_block = 64" "length text2b_block = 64"
    by (simp_all add: text2a_block_def text2b_block_def)
  have "be64 448 = drop 56 text2b_block"
    by (simp add: be64_def text2b_block_def)
  then have pad: "fips_pad (take 56 text2a_block) = text2a_block @ text2b_block"
    using cut by (simp add: fips_pad_def pad_zeros_def z len)
  have "fips_chain fips_H0 (text2a_block @ text2b_block) = fips_compress (fips_compress fips_H0 text2a_block) text2b_block"
    by (simp add: fips_chain_append fips_chain_block len)
  then have "fips_sha256 (take 56 text2a_block) = concat (map be_bytes32 (fips_compress (fips_compress fips_H0 text2a_block) text2b_block))"
    by (simp only: fips_sha256_def pad)
  also have "\<dots> = hash2"
    unfolding fips_H0_def text2a_compress text2b_compress by code_simp
  finally show ?thesis .
qed

section \<open>Feeding a string\<close>

lemma update_string:
  "sha256_update ctx xs (byte_strlen xs) = fold sha256_update_byte (takeWhile (\<lambda>b. b \<noteq> 0) xs) ctx"
proof -
  let ?ys = "takeWhile (\<lambda>b. b \<noteq> 0) xs"
  have "fold (\<lambda>i. sha256_update_byte (xs ! i)) [0..<length ?ys] ctx = fold (\<lambda>i. sha256_update_byte (?ys ! i)) [0..<length ?ys] ctx"
    by (intro fold_cong) (auto simp: takeWhile_nth)
  then show ?thesis
    using sha256_update_whole [of ctx ?ys] by (simp add: sha256_update_def byte_strlen_def)
qed

text \<open>Feeding the same piece again and again is feeding the pieces in a row.\<close>

lemma funpow_fold: "((\<lambda>c. fold f xs c) ^^ n) c = fold f (concat (replicate n xs)) c"
  by (induction n arbitrary: c) (simp_all add: funpow_Suc_right del: funpow.simps(2))

lemma test_digest:
  assumes "length (ctx_data ctx) = 64" "length buf = 32" "length msg < 2 ^ 32"
  shows "snd (sha256_final (fold sha256_update_byte msg (sha256_init ctx)) buf) = fips_sha256 msg"
proof -
  have "ctx_inv msg (length msg) (sha256_update (sha256_init ctx) msg (length msg))"
    by (rule ctx_inv_update [OF assms(1) le_refl])
  then have "ctx_inv msg (length msg) (fold sha256_update_byte msg (sha256_init ctx))"
    by (simp only: sha256_update_whole)
  then show ?thesis
    by (rule sha256_final_hash) (rule assms(2))
qed

lemma no_difference: "length xs = length ys \<Longrightarrow> filter (\<lambda>(x, y). x \<noteq> y) (zip xs ys) = [] \<longleftrightarrow> xs = ys"
  by (induction xs ys rule: list_induct2) simp_all

lemma memcmp_zero:
  assumes "length xs = n" "length ys = n" shows "memcmp xs ys n = 0 \<longleftrightarrow> xs = ys"
proof (cases "filter (\<lambda>(x, y). x \<noteq> y) (zip xs ys)")
  case Nil
  with assms no_difference [of xs ys] show ?thesis by (simp add: memcmp_def)
next
  case (Cons d ds)
  with assms no_difference [of xs ys] show ?thesis by (simp add: memcmp_def split: prod.split)
qed

lemma length_hashes [simp]: "length hash1 = 32" "length hash2 = 32" "length hash3 = 32"
  by (simp_all add: hash1_def hash2_def hash3_def)

text \<open>The array in the context keeps its length, so the context can be used again.\<close>

lemma transform_data [simp]: "ctx_data (sha256_transform ctx d) = ctx_data ctx"
  by (simp add: sha256_transform_def Let_def split: prod.split)

lemma zero_from_length: "length (zero_from i n d) = length d"
  unfolding zero_from_def by (rule fold_keeps [where P = "\<lambda>x. length x = length d"]) simp_all

lemma final_keeps: "length (ctx_data ctx) = 64 \<Longrightarrow> length (ctx_data (fst (sha256_final ctx buf))) = 64"
  by (simp add: sha256_final_def sha256_put_len_def sha256_pad_def Let_def zero_from_length)

lemma update_keeps: "length (ctx_data ctx) = 64 \<Longrightarrow> length (ctx_data (fold sha256_update_byte xs ctx)) = 64"
  by (rule fold_keeps [where P = "\<lambda>c. length (ctx_data c) = 64"]) (simp_all add: sha256_update_byte_def Let_def)

text \<open>One test: the digest, and the context and the digest array for the next one.\<close>

lemma digest_step:
  assumes "length (ctx_data ctx) = 64" "length buf = 32" "length msg < 2 ^ 32"
  obtains ctx' where "sha256_final (fold sha256_update_byte msg (sha256_init ctx)) buf = (ctx', fips_sha256 msg)"
    "length (ctx_data ctx') = 64"
proof -
  have "length (ctx_data (sha256_init ctx)) = 64"
    using assms(1) by (simp add: sha256_init_def)
  from final_keeps [OF update_keeps [OF this], of msg buf] test_digest [OF assms] that show thesis
    by (metis prod.collapse)
qed

lemma zero_free_text3: "takeWhile (\<lambda>b. b \<noteq> 0) text3 = replicate 10 0x61"
  by code_simp

lemma million: "concat (replicate 100000 (replicate 10 x)) = replicate 1000000 x"
proof -
  have "concat (replicate n (replicate m x)) = replicate (n * m) x" for n m
    by (induction n) (simp_all add: replicate_add)
  from this [of 100000 10] show ?thesis by simp
qed

section \<open>Properties\<close>

text \<open>
  Property C25. The test program \<open>sha256_test\<close>: the first two messages are hashed to the expected
  digests (both digests of the standard are evaluated here), so the result is 1 exactly when the
  standard gives the third expected digest for a million letters \<open>a\<close>, whatever the context and the
  digest array held before.
\<close>

theorem sha256_test_result:
  assumes "length (ctx_data ctx) = 64" "length buf = 32"
  shows "sha256_test ctx buf = (if fips_sha256 (replicate 1000000 0x61) = hash3 then 1 else 0)"
proof -
  have t1: "takeWhile (\<lambda>b. b \<noteq> 0) text1 = abc"
    by code_simp
  have h1: "fips_sha256 abc = hash1"
    by (simp add: abc_hash abc_digest_def hash1_def)
  have short: "length abc < 2 ^ 32" "length (take 56 text2a_block) < 2 ^ 32" "length (replicate 1000000 (0x61 :: BYTE)) < 2 ^ 32"
    by (simp_all add: abc_def text2a_block_def del: replicate.simps)
  obtain c1 where c1: "sha256_final (fold sha256_update_byte abc (sha256_init ctx)) buf = (c1, hash1)" "length (ctx_data c1) = 64"
    using digest_step [OF assms short(1)] unfolding h1 by blast
  obtain c2 where c2: "sha256_final (fold sha256_update_byte (take 56 text2a_block) (sha256_init c1)) hash1 = (c2, hash2)"
      "length (ctx_data c2) = 64"
    using digest_step [OF c1(2) length_hashes(1) short(2)] unfolding text2_hash by blast
  let ?d3 = "fips_sha256 (replicate 1000000 0x61)"
  obtain c3 where c3: "sha256_final (fold sha256_update_byte (replicate 1000000 0x61) (sha256_init c2)) hash2 = (c3, ?d3)"
    using digest_step [OF c2(2) length_hashes(2) short(3)] by blast
  have "(\<lambda>ctx. sha256_update ctx text3 (byte_strlen text3)) ^^ 100000 = fold sha256_update_byte (replicate 1000000 0x61)"
    unfolding update_string zero_free_text3 by (rule ext) (simp only: funpow_fold million)
  then show ?thesis
    unfolding sha256_test_def Let_def update_string t1 ascii_text2
    by (simp only: c1(1) c2(1) c3 prod.case memcmp_zero length_hashes length_fips_sha256 simp_thms eq_commute [of hash3])
qed

theorem sha256_test_result_witness:
  "sha256_test \<lparr>ctx_data = replicate 64 7, ctx_datalen = 9, ctx_bitlen = 1, ctx_state = []\<rparr> (replicate 32 1)
    = (if fips_sha256 (replicate 1000000 0x61) = hash3 then 1 else 0)"
  by (rule sha256_test_result) simp_all

end
