(* ===== verification/Startup.thy ===== *)
theory Startup
  imports Pow Thread_Pool
begin

text \<open>
  The start of the server: the command line (\<open>main\<close> of \<open>driver.c\<close> up to its loop), the socket
  (\<open>netsock.c\<close>), the log file and the welcome screen (\<open>init_logger\<close>, \<open>print_welcome\<close> and
  \<open>close_logger\<close> of \<open>logger.c\<close>) and the signal handlers.  The results of the system calls are a
  parameter: the \<open>k\<close>-th call of \<open>socket\<close> returns \<open>os_socket os k\<close>, and so on.  The effects are a list
  of events.
\<close>

section \<open>System calls and events\<close>

record os_calls =
  os_socket :: "nat \<Rightarrow> int"
  os_setsockopt :: "nat \<Rightarrow> int"
  os_bind :: "nat \<Rightarrow> int"
  os_fopen :: bool

datatype out_file = Stdout | Stderr | Logger_file

datatype signal_action = Segfault_handler | Sigabrt_handler | SIG_IGN

datatype os_event =
    Perror "char list"
  | Fprintf out_file "char list"
  | Sleep nat
  | Signal nat signal_action
  | Printer out_file
  | Listen int int
  | Fclose out_file
  | Exit int

section \<open>Numbers on the command line and on the wire\<close>

text \<open>\<open>atoi\<close>: blanks, a sign, digits; a number that does not fit into an \<open>int\<close> is undefined.\<close>

definition dec_value :: "char list \<Rightarrow> int" where
  "dec_value ds = foldl (\<lambda>v c. 10 * v + int (of_char c - 48)) 0 ds"

definition isdigit :: "char \<Rightarrow> bool" where
  "isdigit c \<longleftrightarrow> (48 :: nat) \<le> of_char c \<and> (of_char c :: nat) \<le> 57"

definition atoi :: "char list \<Rightarrow> int c_result" where
  "atoi s =
     (let t = dropWhile isspace s;
          neg = (t \<noteq> [] \<and> hd t = CHR ''-'');
          u = (if t \<noteq> [] \<and> hd t \<in> {CHR ''-'', CHR ''+''} then tl t else t);
          v = dec_value (takeWhile isdigit u) * (if neg then - 1 else 1)
      in if - (2 ^ 31) \<le> v \<and> v < 2 ^ 31 then Inr v else Inl Signed_Overflow)"

definition bswap16 :: "u16 \<Rightarrow> u16" where
  "bswap16 w = push_bit 8 w OR drop_bit 8 w"

definition htons :: "endian \<Rightarrow> u16 \<Rightarrow> u16" where
  "htons host w = (case host of Little \<Rightarrow> bswap16 w | Big \<Rightarrow> w)"

abbreviation ntohs :: "endian \<Rightarrow> u16 \<Rightarrow> u16" where
  "ntohs \<equiv> htons"

section \<open>Sockets\<close>

record serv_addr =
  sin_family :: nat
  s_addr :: WORD
  sa_port :: u16

definition AF_INET :: nat where "AF_INET = 2"

definition INADDR_ANY :: WORD where "INADDR_ANY = 0"

text \<open>A loop that calls the operating system again until it succeeds, reporting every failure.\<close>

partial_function (option) retry :: "(nat \<Rightarrow> int) \<Rightarrow> (int \<Rightarrow> bool) \<Rightarrow> os_event list \<Rightarrow> nat \<Rightarrow> (int \<times> os_event list) option" where
  [code]: "retry call failed report k =
     (if failed (call k)
      then Option.bind (retry call failed report (Suc k)) (\<lambda>(v, evs). Some (v, report @ evs))
      else Some (call k, []))"

text \<open>What the three loops report on a failure.\<close>

definition failure :: "char list \<Rightarrow> char list \<Rightarrow> os_event list" where
  "failure err msg = [Perror err, Fprintf Stdout msg, Sleep 1]"

definition make_socket :: "endian \<Rightarrow> os_calls \<Rightarrow> int \<Rightarrow> (serv_addr \<times> int \<times> os_event list) option" where
  "make_socket host os portno =
     Option.bind
       (retry (os_socket os) (\<lambda>v. v < 0)
          (failure ''[ SOCKET ] ERROR opening socket''
             ''[ SOCKET ] Failed to open socket. Retrying in 1 second'') 0)
       (\<lambda>(sockfd, evs).
          Some (\<lparr>sin_family = AF_INET, s_addr = INADDR_ANY, sa_port = htons host (word_of_int portno)\<rparr>, sockfd, evs))"

definition bind_socket :: "os_calls \<Rightarrow> os_event list option" where
  "bind_socket os =
     Option.bind
       (retry (os_setsockopt os) (\<lambda>v. v = - 1)
          (failure ''[ SOCKET ] ERROR set socket option''
             ''[ SOCKET ] Failed set socket option. Retrying in 1 second'') 0)
       (\<lambda>(_, evs).
     Option.bind
       (retry (os_bind os) (\<lambda>v. v < 0)
          (failure ''[ SOCKET ] ERROR on binding''
             ''Failed bind socket. Retrying in 1 second'') 0)
       (\<lambda>(_, evs'). Some (evs @ evs')))"

section \<open>Log file and welcome screen\<close>

text \<open>In the pictures \<open>~\<close> stands for an apostrophe and \<open>#\<close> for a backslash.\<close>

definition art :: "char list \<Rightarrow> char list" where
  "art = map (\<lambda>c. if c = CHR ''~'' then CHR 0x27 else if c = CHR ''#'' then CHR 0x5C else c)"

definition coin_ascii :: "char list" where
  "coin_ascii =
     art ''                     ______________'' @ [LF]
     @ art ''        __,.,---~~~~~              ~~~~~---..._'' @ [LF]
     @ art ''     ,-~             ,:::::,,:::::,           ~`-.'' @ [LF]
     @ art ''    |             ~~::     ::     ::~~           |'' @ [LF]
     @ art ''    |            ~~:::.....::.....:::~~           |'' @ [LF]
     @ art ''    |~-.._        ````````````````````       __,,-|'' @ [LF]
     @ art ''     ~-.._~~`---.....______________.....---~~__,,-'' @ [LF]
     @ art ''          ~~`---.....______________.....---~~''"

definition svr_ascii :: "char list" where
  "svr_ascii =
     art ''  ___ _ _    ___     _        ___'' @ [LF]
     @ art '' | _ |_) |_ / __|___(_)_ _   / __| ___ _ ___ _____ _ _ '' @ [LF]
     @ art '' | _ # |  _| (__/ _ # | ~ #  #__ #/ -_) ~_# V / -_) ~_|'' @ [LF]
     @ art '' |___/_|#__|#___#___/_|_||_| |___/#___|_|  #_/#___|_|''"

definition mode_text :: "char list" where "mode_text = ''Submission, Logless STDOUT''"

definition about_text :: "char list" where
  "about_text =
     ''--------------------------------------------------------'' @ [LF]
     @ '' Author     : Max Lee, max@mirrorstairstudio.com'' @ [LF]
     @ '' Server Mode: '' @ mode_text @ [LF]
     @ '' Date       : 26/MAY/17'' @ [LF, LF]
     @ '' Multithreaded Bitcoin Server based on CS Project 2'' @ [LF]
     @ '' Written in blood and tears, not from this project </3'' @ [LF]
     @ '' '' @ [LF]
     @ '' mirrorstairstudio.com                  mallocsizeof.me'' @ [LF]
     @ ''--------------------------------------------------------'' @ [LF]"

text \<open>What \<open>print_welcome\<close> prints once, to the screen and to the log file.\<close>

definition welcome_text :: "out_file \<Rightarrow> os_event list" where
  "welcome_text file = [Fprintf file (LF # coin_ascii @ [LF, LF]), Fprintf file (svr_ascii @ [LF, LF]), Fprintf file about_text]"

text \<open>The counters on the screen: connected clients, WORKs, served clients.\<close>

definition status_line :: "int \<times> int \<times> int \<Rightarrow> char list" where
  "status_line = (\<lambda>(clients, works, served).
     print_0d 3 clients @ ''/'' @ print_0d 3 (int CLIENT_COUNT) @ '' Clients       ''
     @ print_0d 2 works @ ''/'' @ print_0d 2 10 @ '' Works          '' @ print_0d 5 served @ '' Served'')"

definition screen :: "nat \<Rightarrow> int \<times> int \<times> int \<Rightarrow> os_event list" where
  "screen i counters =
     [Fprintf Stdout (coin_ascii @ [LF, LF]), Fprintf Stdout (svr_ascii @ [LF, LF]),
      Fprintf Stdout (''                 Server alive for '' @ print_0d 3 (int i) @ '' s'' @ [LF]
        @ about_text @ status_line counters),
      Sleep 1, Fprintf Stdout ([CHR 0x1B] @ ''[H'' @ [CHR 0x1B] @ ''[J'')]"

text \<open>
  \<open>print_welcome\<close> on the screen never returns; this is what it has printed after \<open>n\<close> rounds, with the
  counters that it reads in each.
\<close>

definition print_welcome :: "out_file \<Rightarrow> (nat \<Rightarrow> int \<times> int \<times> int) \<Rightarrow> nat \<Rightarrow> os_event list" where
  "print_welcome file counters n =
     welcome_text file @ (if file = Stdout then concat (map (\<lambda>i. screen i (counters i)) [0..<n]) else [])"

text \<open>\<open>fileno\<close> is called before the result of \<open>fopen\<close> is checked.\<close>

definition init_logger :: "os_calls \<Rightarrow> (int \<times> os_event list) c_result" where
  "init_logger os = (if os_fopen os then Inr (1, [Printer Stdout, Printer Logger_file]) else Inl Invalid_Pointer)"

definition close_logger :: "os_event list" where
  "close_logger = [Fclose Logger_file]"

section \<open>Signals and \<open>main\<close>\<close>

definition EXIT_FAILURE :: int where "EXIT_FAILURE = 1"

definition sigabrt_handler :: "int \<Rightarrow> os_event list" where
  "sigabrt_handler signum =
     [Fprintf Stdout (''I am Sorry ('' @ print_int signum @ '')'' @ [LF]
        @ ''Server is incomplete and memory leaks pretty hard..'' @ [LF] @ ''malloc failed..''),
      Exit EXIT_FAILURE]"

definition segfault_handler :: "int \<Rightarrow> os_event list" where
  "segfault_handler signum =
     [Fprintf Stdout (''Segmentation Fault ('' @ print_int signum @ '')'' @ [LF] @ ''  </3  '' @ [LF] @ ''Good bye..'' @ [LF]),
      Exit EXIT_FAILURE]"

definition signals :: "os_event list" where
  "signals = [Signal 11 Segfault_handler, Signal 6 Sigabrt_handler, Signal 13 SIG_IGN]"

text \<open>\<open>main\<close> up to its loop: the events, and the address and socket unless the program has ended.\<close>

definition main_start :: "endian \<Rightarrow> os_calls \<Rightarrow> char list list \<Rightarrow>
    (os_event list \<times> (serv_addr \<times> int) option) c_result option" where
  "main_start host os argv =
     (if length argv < 2 then
        Some (Inr ([Fprintf Stderr (''[SERVER ] ERROR, no port provided'' @ [LF]), Exit EXIT_FAILURE], None))
      else case atoi (argv ! 1) of
        Inl e \<Rightarrow> Some (Inl e)
      | Inr portno \<Rightarrow>
          Option.bind (make_socket host os portno) (\<lambda>(serv_addr, sockfd, evs1).
          Option.bind (bind_socket os) (\<lambda>evs2.
            Some (bind_c (init_logger os) (\<lambda>(_, evs3).
              Inr (signals @ evs1 @ evs2 @ evs3 @ [Listen sockfd (int CLIENT_COUNT)], Some (serv_addr, sockfd)))))))"

section \<open>Retrying\<close>

lemma retry_after:
  assumes "\<not> failed (call (k + n))" "\<forall>i < n. failed (call (k + i))"
  shows "retry call failed report k = Some (call (k + n), concat (replicate n report))"
  using assms
proof (induction n arbitrary: k)
  case 0
  then show ?case by (subst retry.simps) simp
next
  case (Suc n)
  from Suc.prems(2) have "failed (call k)" "\<forall>i < n. failed (call (Suc k + i))"
    by (auto dest: spec [of _ 0] spec [of _ "Suc _"])
  with Suc.IH [of "Suc k"] Suc.prems(1) show ?case
    by (subst retry.simps) simp
qed

lemma retry_returns:
  assumes "retry call failed report k = Some r" shows "\<exists>i. \<not> failed (call i)"
  by (rule retry.raw_induct [OF _ assms]) (auto simp: bind_eq_Some_conv split: if_splits)

lemma retry_first:
  assumes "\<not> failed (call j)"
  shows "\<exists>evs. retry call failed report 0 = Some (call (LEAST i. \<not> failed (call i)), evs)"
proof -
  define n where "n = (LEAST i. \<not> failed (call i))"
  have "\<not> failed (call (0 + n))"
    unfolding n_def add_0 by (rule LeastI [of "\<lambda>i. \<not> failed (call i)", OF assms])
  moreover have "failed (call (0 + i))" if "i < n" for i
    using not_less_Least [of i "\<lambda>i. \<not> failed (call i)"] that by (simp add: n_def)
  ultimately have "retry call failed report 0 = Some (call (0 + n), concat (replicate n report))"
    by (intro retry_after) simp_all
  then show ?thesis
    by (simp add: n_def)
qed

lemma retry_iff: "(\<exists>r. retry call failed report 0 = Some r) \<longleftrightarrow> (\<exists>j. \<not> failed (call j))"
proof
  assume "\<exists>j. \<not> failed (call j)"
  then obtain j where "\<not> failed (call j)" by blast
  from retry_first [of failed call, OF this] show "\<exists>r. retry call failed report 0 = Some r" by blast
next
  assume "\<exists>r. retry call failed report 0 = Some r"
  then obtain r where "retry call failed report 0 = Some r" by blast
  then show "\<exists>j. \<not> failed (call j)" by (rule retry_returns)
qed

lemma bswap16_bswap16 [simp]: "bswap16 (bswap16 w) = w"
  by (rule bit_word_eqI) (auto simp: bswap16_def bit_simps)

lemma htons_htons [simp]: "htons host (htons host w) = w"
  by (cases host) (simp_all add: htons_def)

lemma ex_bind_Some: "(\<exists>r. Option.bind x (\<lambda>(v, evs). Some (f v evs)) = Some r) \<longleftrightarrow> (\<exists>r. x = Some r)"
  by (cases x) auto

lemma make_socket_iff: "(\<exists>r. make_socket host os portno = Some r) \<longleftrightarrow> (\<exists>j. 0 \<le> os_socket os j)"
  unfolding make_socket_def ex_bind_Some by (simp only: retry_iff not_less)

lemma bind_socket_iff:
  "(\<exists>r. bind_socket os = Some r) \<longleftrightarrow> (\<exists>j. os_setsockopt os j \<noteq> - 1) \<and> (\<exists>j. 0 \<le> os_bind os j)"
proof -
  let ?x = "retry (os_setsockopt os) (\<lambda>v. v = - 1) (failure ''[ SOCKET ] ERROR set socket option''
      ''[ SOCKET ] Failed set socket option. Retrying in 1 second'') 0"
  let ?y = "retry (os_bind os) (\<lambda>v. v < 0) (failure ''[ SOCKET ] ERROR on binding''
      ''Failed bind socket. Retrying in 1 second'') 0"
  have "(\<exists>r. bind_socket os = Some r) \<longleftrightarrow> (\<exists>r. ?x = Some r) \<and> (\<exists>r. ?y = Some r)"
    by (cases ?x; cases ?y) (auto simp: bind_socket_def)
  then show ?thesis
    by (simp only: retry_iff not_less)
qed

lemma make_socket_first:
  assumes "make_socket host os portno = Some (addr, fd, evs)"
  shows "fd = os_socket os (LEAST j. 0 \<le> os_socket os j) \<and> 0 \<le> fd \<and> sa_port addr = htons host (word_of_int portno)"
proof -
  obtain j where j: "0 \<le> os_socket os j"
    using assms make_socket_iff [of host os portno] by blast
  then have least: "0 \<le> os_socket os (LEAST j. 0 \<le> os_socket os j)"
    by (rule LeastI)
  have "\<exists>evs. retry (os_socket os) (\<lambda>v. v < 0) r 0 = Some (os_socket os (LEAST j. 0 \<le> os_socket os j), evs)" for r
    using retry_first [of "\<lambda>v. v < 0" "os_socket os" j r] j by (simp add: not_less)
  from this [of "failure ''[ SOCKET ] ERROR opening socket'' ''[ SOCKET ] Failed to open socket. Retrying in 1 second''"]
  show ?thesis
    using assms least by (auto simp: make_socket_def)
qed

section \<open>Properties\<close>


definition sample_os :: os_calls where
  "sample_os = \<lparr>os_socket = (\<lambda>k. if k < 2 then - 1 else 3), os_setsockopt = (\<lambda>k. 0),
     os_bind = (\<lambda>k. if k = 0 then - 1 else 0), os_fopen = True\<rparr>"


text \<open>
  When the log file cannot be opened, \<open>fileno\<close> gets a null pointer: the test of \<open>init_logger\<close> for this
  case comes too late, and \<open>main\<close> does not look at its result.
\<close>

lemma init_logger_no_file:
  assumes "2 \<le> length argv" "atoi (argv ! 1) = Inr portno" "main_start host os argv \<noteq> None" "\<not> os_fopen os"
  shows "main_start host os argv = Some (Inl Invalid_Pointer)"
  using assms by (auto simp: main_start_def init_logger_def bind_eq_None_conv split: option.splits)

end
