(* ===== verification/Test_Clients.thy ===== *)
theory Test_Clients
  imports Known_Answers Startup
begin

text \<open>
  The two client programs of \<open>output\<close>, \<open>client.c\<close> and \<open>ultimate.c\<close>: the connection to the server, the
  command lines they hold, and what they write and read.  The calls of the operating system are
  a parameter.  The command lines are then put through the model of the server: the programs'
  streams are taken apart into the commands they were made of.
\<close>

section \<open>Connecting\<close>

text \<open>
  The address found for a host name, the result of \<open>socket\<close> and of \<open>connect\<close>, the results of the
  \<open>k\<close>-th \<open>write\<close>, and the text of the \<open>k\<close>-th \<open>read\<close>, \<open>None\<close> on a failure.
\<close>

record client_os =
  os_gethostbyname :: "char list \<Rightarrow> BYTE list option"
  os_client_socket :: int
  os_connect :: int
  os_write :: "nat \<Rightarrow> int"
  os_read :: "nat \<Rightarrow> char list option"

record peer_addr =
  pa_family :: nat
  pa_addr :: "BYTE list"
  pa_port :: u16

text \<open>Effects: those of the start of the server, a connection, and bytes handed to the socket.\<close>

datatype net_event = Std os_event | Connect int peer_addr | Put int "char list"

definition client_connect :: "endian \<Rightarrow> client_os \<Rightarrow> char list list \<Rightarrow> (net_event list \<times> int option) c_result" where
  "client_connect host os argv =
     (if argv = [] then Inl Invalid_Pointer
      else if length argv < 3 then
        Inr ([Std (Fprintf Stderr (''usage '' @ argv ! 0 @ '' hostname port'' @ [LF])), Std (Exit 0)], None)
      else bind_c (atoi (argv ! 2)) (\<lambda>portno.
        case os_gethostbyname os (argv ! 1) of
          None \<Rightarrow> Inr ([Std (Fprintf Stderr (''ERROR, no such host'' @ [LF])), Std (Exit 0)], None)
        | Some h_addr \<Rightarrow>
            if length h_addr > 4 then Inl Out_Of_Bounds
            else let serv_addr = \<lparr>pa_family = AF_INET, pa_addr = memcpy_at (replicate 4 0) 0 h_addr (length h_addr),
                                  pa_port = htons host (word_of_int portno)\<rparr>;
                     sockfd = os_client_socket os
                 in if sockfd < 0 then Inr ([Std (Perror ''ERROR opening socket''), Std (Exit 0)], None)
                    else if os_connect os < 0 then
                      Inr ([Connect sockfd serv_addr, Std (Perror ''ERROR connecting''), Std (Exit 0)], None)
                    else Inr ([Connect sockfd serv_addr], Some sockfd)))"

section \<open>Writing and reading\<close>

text \<open>The effects of a part of the program, and whether it goes on after them.\<close>

type_synonym run = "net_event list \<times> bool"

fun run_all :: "run list \<Rightarrow> run" where
  "run_all [] = ([], True)"
| "run_all ((evs, go) # rs) = (if go then (evs @ fst (run_all rs), snd (run_all rs)) else (evs, False))"

text \<open>\<open>write\<close> takes as many bytes as it returns; the programs do not look at how many.\<close>

definition put_line :: "client_os \<Rightarrow> int \<Rightarrow> nat \<Rightarrow> char list \<Rightarrow> run" where
  "put_line os fd k buffer =
     (if os_write os k < 0 then ([Std (Perror ''ERROR writing to socket''), Std (Exit 0)], False)
      else ([Put fd (take (nat (os_write os k)) buffer)], True))"

definition write_svr :: "client_os \<Rightarrow> int \<Rightarrow> nat \<Rightarrow> char list \<Rightarrow> run" where
  "write_svr os fd k buffer = run_all [([Std (Fprintf Stdout (buffer @ [LF]))], True), put_line os fd k buffer]"

text \<open>The buffer is cleared, so it ends in a zero behind at most 255 characters.\<close>

definition read_svr :: "client_os \<Rightarrow> nat \<Rightarrow> run" where
  "read_svr os k =
     (case os_read os k of
        None \<Rightarrow> ([Std (Perror ''ERROR reading from socket''), Std (Exit 0)], False)
      | Some text \<Rightarrow> ([Std (Fprintf Stdout (c_str (take 255 text) @ [LF]))], True))"

definition handle :: "client_os \<Rightarrow> int \<Rightarrow> nat \<Rightarrow> char list \<Rightarrow> run" where
  "handle os fd k a = run_all [write_svr os fd k a, read_svr os k]"

section \<open>The programs\<close>

definition client_line :: "char list" where
  "client_line = ''WORK 1fffffff 0000000019d6689c085ae165831e934ff763ae46a218a6c172b3f1b60a8ce26f 1000000023212000 01'' @ [CR, LF]"

definition client_requests :: "client_os \<Rightarrow> int \<Rightarrow> run" where
  "client_requests os fd =
     run_all (concat (map (\<lambda>i. [([Std (Fprintf Stdout client_line)], True), put_line os fd i client_line]) [0..<100]))"

definition client_main :: "endian \<Rightarrow> client_os \<Rightarrow> char list list \<Rightarrow> net_event list c_result" where
  "client_main host os argv =
     bind_c (client_connect host os argv) (\<lambda>(evs, fd).
       Inr (evs @ (case fd of None \<Rightarrow> [] | Some fd \<Rightarrow> fst (client_requests os fd))))"

definition ultimate_lines :: "(char list \<times> char list) list" where
  "ultimate_lines =
     [(''a'', ''WORK 1fffffff 0000000019d6689c085ae165831e934ff763ae46a218a6c172b3f1b60a8ce26f 0000000000000000 02'' @ [CR, LF]),
      (''b'', ''WORK 1effffff 0000000019d6689c085ae165831e934ff763ae46a218a6c172b3f1b60a8ce26f 0000000000000000 03'' @ [CR, LF]),
      (''c'', ''WORK 1dffffff 0000000019d6689c085ae165831e934ff763ae46a218a6c172b3f1b60a8ce26f 0000000000000000 04'' @ [CR, LF]),
      (''d'', ''WORK 1d29ffff 0000000019d6689c085ae165831e934ff763ae46a218a6c172b3f1b60a8ce26f a900000003b4ab00 04'' @ [CR, LF]),
      (''e'', ''WORK 1fffffff 0000000019d6689c085ae165831e934ff763ae46a218a6c172b3f1b60a8ce26f 0000000000000000 02'' @ [CR, LF]),
      (''f'', ''WORK 1fffffff 0000000019d6689c085ae165831e934ff763ae46a218a6c172b3f1b60a8ce26f 1000000023212399 01'' @ [CR, LF]),
      (''g'', ''WORK 1effffff 0000000019d6689c085ae165831e934ff763ae46a218a6c172b3f1b60a8ce26f 0000000000000000 03'' @ [CR, LF]),
      (''h'', ''WORK 1dffffff 0000000019d6689c085ae165831e934ff763ae46a218a6c172b3f1b60a8ce26f 0000000000000000 04'' @ [CR, LF]),
      (''i'', ''WORK 1d29ffff 0000000019d6689c085ae165831e934ff763ae46a218a6c172b3f1b60a8ce26f 0000023212399 04'' @ [CR, LF]),
      (''j'', ''WORK 1d29ffff 0000000019d6689c085ae165831e934ff763ae46a218a6c172b3f1b60a8ce26f a000000000000000 04'' @ [CR, LF]),
      (''l'', ''WORK 1fffffff 0000000019d6689c085ae165831e934ff763ae46a218a6c172b3f1b60a8ce26f 0000000000000000 06'' @ [CR, LF]),
      (''m'', ''WORK 1fffffff 0000000019d6689c085ae165831e934ff763ae46a218a6c172b3f1b60a8ce26f 0000000000000000 06'' @ [CR, LF]),
      (''n'', ''WORK 1fffffff 0000000019d6689c085ae165831e934ff763ae46a218a6c172b3f1b60a8ce26f 0000000000000000 06'' @ [CR, LF]),
      (''o'', ''WORK 1fffffff 0000000019d6689c085ae165831e934ff763ae46a218a6c172b3f1b60a8ce26f 0000000000000000 06'' @ [CR, LF]),
      (''k'', ''WORK 1fffffff 0000000019d6689c085ae165831e934ff763ae46a218a6c172b3f1b60a8ce26f 0000000000000000 06'' @ [CR, LF]),
      (''p'', ''WORK 09ffff 0000000019d6689c085ae165831e934ff763ae46a218a6c172b3f1b60a8ce26f 0000023212399 04'' @ [CR, LF]),
      (''q'', ''WORK 1fffffff 0000000019d6689c085ae165831e934ff763ae46a218a6c172b3f1b60a8ce26f 1000000023212399 01'' @ [CR, LF]),
      (''r'', ''WORK 1effffff 0000000019d6689c085ae165831e934ff763ae46a218a6c172b3f1b60a8ce26f 1000000023212399 01'' @ [CR, LF]),
      (''s'', ''WORK 1dffffff 0000000019d6689c085ae165831e934ff763ae46a218a6c172b3f1b60a8ce26f 1000000023a12399 01'' @ [CR, LF]),
      (''t'', ''WORK 1d29ffff 0000000019d6689c085ae165831e934ff763ae46a218a6c172b3f1b60a8ce26f c40000000ce40000 01'' @ [CR, LF]),
      (''u'', ''SOLN 5fffffff 0000000019d6689c085ae165831e934ff763ae46a218a6c172b3f1b60a8ce26f 10000000232123a2'' @ [CR, LF]),
      (''v'', ''SOLN 6fffffff 0000000019d6689c085ae165831e934ff763ae46a218a6c172b3f1b60a8ce26f 10000000232123a2'' @ [CR, LF]),
      (''w'', ''SOLN 6fffffff 1231231239d6689c085ae165831e934ff763ae46a218a6c172b3f1b60a8ce26f 10000000232123a2'' @ [CR, LF]),
      (''x'', ''SOLN'' @ [CR, LF]),
      (''y'', ''SOLN 1fffffff 0000000019d6689c085ae165831e934ff763ae46a218a6c172b3f1b60a8ce26f 1000000023212605'' @ [CR, LF]),
      (''z'', ''SOLN 1effffff 0000000019d6689c085ae165831e934ff763ae46a218a6c172b3f1b60a8ce26f 100000002321ed8f'' @ [CR, LF]),
      (''aa'', ''SOLN 1dffffff 0000000019d6689c085ae165831e934ff763ae46a218a6c172b3f1b60a8ce26f 1000000023f6c072'' @ [CR, LF])]"

definition line :: "char list \<Rightarrow> char list" where
  "line name = the (map_of ultimate_lines name)"

definition ultimate_requests :: "client_os \<Rightarrow> int \<Rightarrow> run" where
  "ultimate_requests os fd =
     run_all
      ([write_svr os fd 0 (line ''j''), write_svr os fd 1 (line ''l''), write_svr os fd 2 (line ''m''),
        write_svr os fd 3 (line ''n''), write_svr os fd 4 (line ''o''), write_svr os fd 5 (line ''k'')]
       @ map (read_svr os) [0..<6])"

definition ultimate_main :: "endian \<Rightarrow> client_os \<Rightarrow> char list list \<Rightarrow> net_event list c_result" where
  "ultimate_main host os argv =
     bind_c (client_connect host os argv) (\<lambda>(evs, fd).
       Inr (evs @ (case fd of None \<Rightarrow> [] | Some fd \<Rightarrow> fst (ultimate_requests os fd))))"

section \<open>The commands in the lines\<close>

definition other_seed :: "BYTE list" where
  "other_seed = [0x12, 0x31, 0x23, 0x12, 0x39, 0xd6, 0x68, 0x9c, 0x08, 0x5a, 0xe1, 0x65, 0x83, 0x1e, 0x93, 0x4f,
     0xf7, 0x63, 0xae, 0x46, 0xa2, 0x18, 0xa6, 0xc1, 0x72, 0xb3, 0xf1, 0xb6, 0x0a, 0x8c, 0xe2, 0x6f]"

definition ultimate_commands :: "command list" where
  "ultimate_commands =
     [WORK 0x1fffffff sample_seed 0x0000000000000000 0x02,
      WORK 0x1effffff sample_seed 0x0000000000000000 0x03,
      WORK 0x1dffffff sample_seed 0x0000000000000000 0x04,
      WORK 0x1d29ffff sample_seed 0xa900000003b4ab00 0x04,
      WORK 0x1fffffff sample_seed 0x0000000000000000 0x02,
      WORK 0x1fffffff sample_seed 0x1000000023212399 0x01,
      WORK 0x1effffff sample_seed 0x0000000000000000 0x03,
      WORK 0x1dffffff sample_seed 0x0000000000000000 0x04,
      Unknown ''WORK 1d29ffff 0000000019d6689c085ae165831e934ff763ae46a218a6c172b3f1b60a8ce26f 0000023212399 04'',
      WORK 0x1d29ffff sample_seed 0xa000000000000000 0x04,
      WORK 0x1fffffff sample_seed 0x0000000000000000 0x06,
      WORK 0x1fffffff sample_seed 0x0000000000000000 0x06,
      WORK 0x1fffffff sample_seed 0x0000000000000000 0x06,
      WORK 0x1fffffff sample_seed 0x0000000000000000 0x06,
      WORK 0x1fffffff sample_seed 0x0000000000000000 0x06,
      Unknown ''WORK 09ffff 0000000019d6689c085ae165831e934ff763ae46a218a6c172b3f1b60a8ce26f 0000023212399 04'',
      WORK 0x1fffffff sample_seed 0x1000000023212399 0x01,
      WORK 0x1effffff sample_seed 0x1000000023212399 0x01,
      WORK 0x1dffffff sample_seed 0x1000000023a12399 0x01,
      WORK 0x1d29ffff sample_seed 0xc40000000ce40000 0x01,
      SOLN 0x5fffffff sample_seed 0x10000000232123a2,
      SOLN 0x6fffffff sample_seed 0x10000000232123a2,
      SOLN 0x6fffffff other_seed 0x10000000232123a2,
      Unknown ''SOLN'',
      SOLN 0x1fffffff sample_seed 0x1000000023212605,
      SOLN 0x1effffff sample_seed 0x100000002321ed8f,
      SOLN 0x1dffffff sample_seed 0x1000000023f6c072]"

definition client_command :: command where
  "client_command = WORK 0x1fffffff sample_seed 0x1000000023212000 1"

lemma seed_texts:
  "hex_text sample_seed = ''0000000019d6689c085ae165831e934ff763ae46a218a6c172b3f1b60a8ce26f''"
  "hex_text other_seed = ''1231231239d6689c085ae165831e934ff763ae46a218a6c172b3f1b60a8ce26f''"
  by (simp_all add: hex_text_def sample_seed_def other_seed_def print_digits)

lemma length_seeds [simp]: "length sample_seed = 32" "length other_seed = 32"
  by (simp_all add: sample_seed_def other_seed_def)

lemma client_line_text: "client_line = command_text client_command @ [CR, LF]"
  by (simp add: client_line_def client_command_def work_text_def seed_texts print_digits)

lemma ultimate_lines_text: "map snd ultimate_lines = map (\<lambda>c. command_text c @ [CR, LF]) ultimate_commands"
  by (simp add: ultimate_lines_def ultimate_commands_def work_text_def soln_text_def seed_texts print_digits)

lemma ultimate_well_formed: "list_all well_formed ultimate_commands"
  by (simp add: ultimate_commands_def handler_for_def byte_palindrome_def bswap32_def)

section \<open>What reaches the socket\<close>

definition put_texts :: "int \<Rightarrow> net_event list \<Rightarrow> char list list" where
  "put_texts fd evs = concat (map (\<lambda>e. case e of Put f s \<Rightarrow> if f = fd then [s] else [] | _ \<Rightarrow> []) evs)"

lemma put_texts_simps [simp]:
  "put_texts fd [] = []" "put_texts fd (Std e # evs) = put_texts fd evs" "put_texts fd (Connect f a # evs) = put_texts fd evs"
  "put_texts fd (Put fd s # evs) = s # put_texts fd evs" "put_texts fd (evs @ evs') = put_texts fd evs @ put_texts fd evs'"
  by (simp_all add: put_texts_def)

lemma put_texts_concat: "put_texts fd (concat evss) = concat (map (put_texts fd) evss)"
  by (induction evss) simp_all

lemma run_all_go: "list_all snd rs \<Longrightarrow> run_all rs = (concat (map fst rs), True)"
  by (induction rs rule: run_all.induct) simp_all

lemma run_all_append: "run_all (rs @ ss) =
    (if snd (run_all rs) then (fst (run_all rs) @ fst (run_all ss), snd (run_all ss)) else run_all rs)"
  by (induction rs rule: run_all.induct) simp_all

lemma length_client_line: "length client_line = 100"
  by (simp add: client_line_def)

lemma put_line_whole:
  "os_write os k = int (length s) \<Longrightarrow> put_line os fd k s = ([Put fd s], True)"
  by (simp add: put_line_def)

text \<open>The loop of \<open>client.c\<close> up to its first failed \<open>write\<close>.\<close>

lemma client_loop_go:
  assumes "\<forall>k < n. os_write os k = 100"
  shows "run_all (concat (map (\<lambda>i. [([Std (Fprintf Stdout client_line)], True), put_line os fd i client_line]) [0..<n])) =
    (concat (replicate n [Std (Fprintf Stdout client_line), Put fd client_line]), True)"
proof -
  let ?step = "\<lambda>i. [([Std (Fprintf Stdout client_line)], True), put_line os fd i client_line]"
  have "map ?step [0..<n] = replicate n [([Std (Fprintf Stdout client_line)], True), ([Put fd client_line], True)]"
    using assms by (auto simp: put_line_whole length_client_line intro!: nth_equalityI)
  moreover have "concat (map fst (concat (replicate n [(x, True), (y, True)]))) = concat (replicate n (x @ y))" for x y :: "net_event list"
    by (induction n) simp_all
  ultimately show ?thesis
    by (subst run_all_go) (simp_all add: list_all_iff)
qed

lemma concat_replicate_put: "put_texts fd (concat (replicate n [Std e, Put fd s])) = replicate n s"
  by (induction n) simp_all

lemma stream_replicate: "concat (replicate n client_line) = stream_text (replicate n client_command)"
  by (simp add: stream_text_def client_line_text)

lemma length_concat_replicate: "length (concat (replicate n xs)) = n * length xs"
  by (induction n) simp_all

text \<open>Without a connection nothing is written, and the programs end with status 0.\<close>

lemma client_connect_none:
  assumes "client_connect host os argv = Inr (evs, None)" shows "last evs = Std (Exit 0) \<and> put_texts fd evs = []"
proof (cases "length argv < 3")
  case True
  with assms show ?thesis
    by (auto simp: client_connect_def split: if_splits)
next
  case False
  then have "argv \<noteq> []" by auto
  with assms False show ?thesis
    by (cases "atoi (argv ! 2)"; cases "os_gethostbyname os (argv ! 1)"; simp add: client_connect_def split: if_splits)
      (auto simp: Let_def split: if_splits)
qed

section \<open>Properties\<close>


definition sample_client_os :: client_os where
  "sample_client_os = \<lparr>os_gethostbyname = (\<lambda>h. if h = ''localhost'' then Some [127, 0, 0, 1] else None),
     os_client_socket = 3, os_connect = 0, os_write = (\<lambda>k. 100), os_read = (\<lambda>k. Some ''OKAY'')\<rparr>"

lemma sample_connect:
  "\<exists>evs. client_connect Little sample_client_os [''client'', ''localhost'', ''4480''] = Inr (evs, Some 3)"
proof -
  have "atoi ''4480'' = Inr 4480"
    by code_simp
  then show ?thesis
    by (simp add: client_connect_def sample_client_os_def numeral_2_eq_2 Let_def)
qed


text \<open>
  The first failed \<open>write\<close> ends \<open>client.c\<close>, after it has reported the failure; the
  lines before it have been written.
\<close>

lemma client_write_fails:
  assumes "n < 100" "\<forall>k < n. os_write os k = 100" "os_write os n < 0"
  shows "\<exists>es. client_requests os fd = (es @ [Std (Perror ''ERROR writing to socket''), Std (Exit 0)], False)
    \<and> put_texts fd es = replicate n client_line"
proof -
  let ?step = "\<lambda>i. [([Std (Fprintf Stdout client_line)], True), put_line os fd i client_line]"
  have "[0..<100] = [0..<n] @ [n..<100]"
    using assms(1) by (metis le_Suc_ex less_imp_le upt_add_eq_append zero_le)
  then have "[0..<100] = [0..<n] @ n # [Suc n..<100]"
    using assms(1) by (simp only: upt_conv_Cons [of n 100])
  then have "client_requests os fd = run_all (concat (map ?step [0..<n]) @ ?step n @ concat (map ?step [Suc n..<100]))"
    by (simp only: client_requests_def map_append list.map concat_append concat.simps)
  moreover have "put_line os fd n client_line = ([Std (Perror ''ERROR writing to socket''), Std (Exit 0)], False)"
    using assms(3) by (simp add: put_line_def)
  ultimately show ?thesis
    by (simp add: run_all_append client_loop_go [OF assms(2)] concat_replicate_put)
qed

text \<open>
  The 27 command lines of \<open>ultimate.c\<close>: each is the text of a command of the protocol,
  so the properties of the server apply to it.  All but three are a WORK or a SOLN; \<open>i\<close>, \<open>p\<close> and \<open>x\<close>
  are lines that the server takes for unknown commands.
\<close>

lemma ultimate_lines_parsed:
  "map snd ultimate_lines = map (\<lambda>c. command_text c @ [CR, LF]) ultimate_commands
    \<and> list_all well_formed ultimate_commands
    \<and> map fst (filter (\<lambda>(n, c). case c of Unknown s \<Rightarrow> True | _ \<Rightarrow> False) (zip (map fst ultimate_lines) ultimate_commands))
      = [''i'', ''p'', ''x'']"
  using ultimate_lines_text ultimate_well_formed by (simp add: ultimate_lines_def ultimate_commands_def)

text \<open>The six commands that \<open>ultimate.c\<close> sends.\<close>

definition ultimate_session :: "command list" where
  "ultimate_session =
     [WORK 0x1d29ffff sample_seed 0xa000000000000000 4, WORK 0x1fffffff sample_seed 0 6, WORK 0x1fffffff sample_seed 0 6,
      WORK 0x1fffffff sample_seed 0 6, WORK 0x1fffffff sample_seed 0 6, WORK 0x1fffffff sample_seed 0 6]"

lemma session_lines:
  "map line [''j'', ''l'', ''m'', ''n'', ''o'', ''k''] = map (\<lambda>c. command_text c @ [CR, LF]) ultimate_session"
  by (simp add: ultimate_session_def line_def ultimate_lines_def work_text_def seed_texts print_digits)

lemma session_well_formed: "\<forall>c \<in> set ultimate_session. well_formed c"
  by (simp add: ultimate_session_def)

lemma write_svr_whole:
  "os_write os k = int (length s) \<Longrightarrow> write_svr os fd k s = ([Std (Fprintf Stdout (s @ [LF])), Put fd s], True)"
  by (simp add: write_svr_def put_line_whole)

lemma length_session_line: "c \<in> set ultimate_session \<Longrightarrow> length (command_text c @ [CR, LF]) = 100"
  by (auto simp: ultimate_session_def length_work_text)

text \<open>What the program prints for the answers it reads.\<close>

definition printed_answers :: "(nat \<Rightarrow> char list) \<Rightarrow> net_event list" where
  "printed_answers r = map (\<lambda>k. Std (Fprintf Stdout (c_str (take 255 (r k)) @ [LF]))) [0..<6]"

lemma ultimate_requests_go:
  assumes "\<forall>k < 6. os_write os k = 100" "\<forall>k < 6. os_read os k = Some (r k)"
  shows "\<exists>es. ultimate_requests os fd = (es @ printed_answers r, True)
    \<and> put_texts fd es = map (\<lambda>c. command_text c @ [CR, LF]) ultimate_session"
proof -
  have len: "length (line x) = 100" if "x \<in> {''j'', ''l'', ''m'', ''n'', ''o'', ''k''}" for x
  proof -
    have "line x \<in> set (map line [''j'', ''l'', ''m'', ''n'', ''o'', ''k''])"
      using that by auto
    then show ?thesis
      unfolding session_lines using length_session_line by auto
  qed
  have reads: "map (read_svr os) [0..<6] = map (\<lambda>k. ([Std (Fprintf Stdout (c_str (take 255 (r k)) @ [LF]))], True)) [0..<6]"
    using assms(2) by (simp add: read_svr_def)
  let ?w = "[write_svr os fd 0 (line ''j''), write_svr os fd 1 (line ''l''), write_svr os fd 2 (line ''m''),
        write_svr os fd 3 (line ''n''), write_svr os fd 4 (line ''o''), write_svr os fd 5 (line ''k'')]"
  have w: "?w = map (\<lambda>x. ([Std (Fprintf Stdout (line x @ [LF])), Put fd (line x)], True)) [''j'', ''l'', ''m'', ''n'', ''o'', ''k'']"
    using assms(1) by (simp add: write_svr_whole len)
  have go: "run_all ?w = (concat (map (\<lambda>x. [Std (Fprintf Stdout (line x @ [LF])), Put fd (line x)]) [''j'', ''l'', ''m'', ''n'', ''o'', ''k'']), True)"
    unfolding w by (subst run_all_go) simp_all
  have "run_all (map (read_svr os) [0..<6]) = (printed_answers r, True)"
    unfolding reads by (subst run_all_go) (simp_all add: printed_answers_def list_all_iff comp_def)
  then have "ultimate_requests os fd =
      (concat (map (\<lambda>x. [Std (Fprintf Stdout (line x @ [LF])), Put fd (line x)]) [''j'', ''l'', ''m'', ''n'', ''o'', ''k'']) @ printed_answers r, True)"
    unfolding ultimate_requests_def run_all_append go by simp
  moreover have "put_texts fd (concat (map (\<lambda>x. [Std (Fprintf Stdout (line x @ [LF])), Put fd (line x)]) [''j'', ''l'', ''m'', ''n'', ''o'', ''k'']))
      = map line [''j'', ''l'', ''m'', ''n'', ''o'', ''k'']"
    by simp
  ultimately show ?thesis
    unfolding session_lines by blast
qed

lemma session_answers:
  assumes "safe_env env" "addr_ok addr" "0 \<le> sock" "sock < 1000" "c < GLOBAL_WORK_LIMIT"
  shows "\<forall>cmd \<in> set ultimate_session. \<exists>evs. run_command Little env addr sock sol c (cmd_mem (command_text cmd)) = Inr (evs, c + 1)
          \<and> sent_to sock evs = replies sol 0 cmd"
proof
  fix cmd
  assume cmd: "cmd \<in> set ultimate_session"
  have "works_after c cmd = c + 1" "replies sol c cmd = replies sol 0 cmd"
    using cmd assms(5) by (auto simp: ultimate_session_def GLOBAL_WORK_LIMIT_def)
  with run_command_replies [OF assms(1-4) bspec [OF session_well_formed cmd], of sol c]
  show "\<exists>evs. run_command Little env addr sock sol c (cmd_mem (command_text cmd)) = Inr (evs, c + 1)
          \<and> sent_to sock evs = replies sol 0 cmd"
    by simp
qed



end
