(* ===== verification/Coin.thy ===== *)
theory Coin
  imports Startup
begin

text \<open>
  The animation of \<open>coin\<close>: the 24 pictures of \<open>coin-frames.h\<close> and the loop of \<open>coin.c\<close>, which never
  ends.  The calls of the screen library are events; the size of the screen is a parameter.  A
  picture is passed to the library as a format string, so the model looks for conversions in it.
\<close>

section \<open>Pictures\<close>

text \<open>The lines of a picture; \<open>~\<close> stands for an apostrophe.\<close>

definition frame :: "char list list \<Rightarrow> char list" where
  "frame ls = concat (map (\<lambda>l. art l @ [LF]) ls)"

definition coin_width :: int where "coin_width = 47"

definition coin_height :: int where "coin_height = 14"

definition coin_n_frames :: int where "coin_n_frames = 24"

definition coin_frame_0 :: "char list" where
  "coin_frame_0 = frame
     ['''',
      '''',
      '''',
      '''',
      '''',
      ''            ________________________'',
      '' ,---------~________________________`--------.'',
      ''|,---------~  ..::::::::::::::::..  `--------.|'',
      '' `----------________________________---------~'',
      '''',
      '''',
      '''',
      '''',
      '''']"

definition coin_frame_1 :: "char list" where
  "coin_frame_1 = frame
     ['''',
      '''',
      '''',
      '''',
      '''',
      ''          .......~~~~~~~~~~~~~~.......'',
      '' ,-~~~~~~~.......~~~~~~~~~~~~~~.......~~~~~`-.'',
      ''|,-~~~~~~~   ~~~::~~~~~;;~~~~~::~~~   ~~~~~`-.|'',
      '' ~-.._____   ~~~~~~~~~~~~~~~~~~~~~~   _____,,-~'',
      ''          ~~~~~~~..............~~~~~~~'',
      '''',
      '''',
      '''',
      '''']"

definition coin_frame_2 :: "char list" where
  "coin_frame_2 = frame
     ['''',
      '''',
      '''',
      '''',
      ''                 ______________'',
      ''    __,.,---~~~~~______________~~~~~---..._'',
      '' ,-~__,..---~~~~~,.....,,.....,~~~~~---..._`-.'',
      ''|,-~          ..::~~~~~;;~~~~~::..         `-.|'',
      '' ~-.._       ..::::::::::::::::::..      __,,-'',
      ''      ~~`---.....______________.....---~~'',
      '''',
      '''',
      '''',
      '''']"

definition coin_frame_3 :: "char list" where
  "coin_frame_3 = frame
     ['''',
      '''',
      '''',
      ''                 ______________'',
      ''    __,.,---~~~~~______________~~~~~---..._'',
      '' ,-~__,.,---~~~~~              ~~~~~---..._`-.'',
      ''|,-~            ,::::::,,::::::,           `-.|'',
      ''|             ~~::     ::     ::~~            |'',
      ''|            ~~:::.....::.....:::~~           |'',
      '' ~-.._        ````````````````````      __,,-~'',
      ''      ~~`---.....______________.....---~'',
      '''',
      '''',
      '''']"

definition coin_frame_4 :: "char list" where
  "coin_frame_4 = frame
     ['''',
      ''             ___.....-----.....___'',
      ''     _..--~~~___.....-----.....___~~~--.._'',
      ''  ,-~_..--~~~                     ~~~--.._`-.'',
      '' |,-~             ,....  ,....            `-.|'',
      '':~            ,,,::~~~::::~~~~::,,           ~:'',
      ''|            ~~~::     ::     ::~~~           |'',
      ''|           ....::.....::.....::....          |'',
      '':            ~::;;;;;;;;;;;;;;::~~            :'',
      '' |                                           |'',
      ''  ~-._                                   _,-~'',
      ''      ~~--...___               ___...--~~'',
      ''                `````-----`````'',
      '''']"

definition coin_frame_5 :: "char list" where
  "coin_frame_5 = frame
     [''         __..--~````````````````--..__'',
      ''     .--~                             `--.'',
      ''   .~                                     ~.'',
      ''  :                                         :'',
      '' |                ,:::.  ,:::.               |'',
      '':             .::::~~~::::~~~~::::.           :'',
      ''|            ~~~::     ::     ::~~~           |'',
      ''|               ::.....::.....::              |'',
      '':           ::::::::::::::::::::::::          :'',
      '' |             ``````````````````            |'',
      ''  :                                         :'',
      ''   ~.                                     .~'',
      ''     ~.._                             _..~'',
      ''         ``--.._________________..--~~'']"

definition coin_frame_6 :: "char list" where
  "coin_frame_6 = frame
     ['''',
      ''             ___.....-----.....___'',
      ''     _..--~~~                     ~~~--.._'',
      ''  ,-~                                     `-.'',
      '' |                ,....  ,....               |'',
      '':~            ,,,::~~~::::~~~~::,,           ~:'',
      ''|            ~~~::     ::     ::~~~           |'',
      ''|           ....::.....::.....::....          |'',
      '':.            ~::;;;;;;;;;;;;;;::~           ,:'',
      '' |~-._                                   _,-~|'',
      ''  ~-._~~--...___               ___...--~~_,-~'',
      ''      ~~--...___`````-----`````___...--~~'',
      ''                `````-----`````'',
      '''']"

definition coin_frame_7 :: "char list" where
  "coin_frame_7 = frame
     ['''',
      '''',
      '''',
      ''                 ______________'',
      ''    __,.,---~~~~~              ~~~~~---..._'',
      '' ,-~             ,:::::,,:::::,            `-.'',
      ''|             ~~::     ::     ::~~            |'',
      ''|            ~~:::.....::.....:::~~           |'',
      ''|~-.._        ````````````````````       __,,-|'',
      '' ~-.._~~`---.....______________.....---~~__,,-'',
      ''      ~~`---.....______________.....---~~'',
      '''',
      '''',
      '''']"

definition coin_frame_8 :: "char list" where
  "coin_frame_8 = frame
     ['''',
      '''',
      '''',
      '''',
      ''                 ______________'',
      ''    __,.,---~~~~~,.....,,.....,~~~~~---..._'',
      '' ,-~          ~~::~~~~~;;~~~~~::~~         `-.'',
      ''|~-.._       ~~::::::::::::::::::~~      __,,-|'',
      '' ~-.._~~`---.....______________.....---~~__,,-'',
      ''      ~~`---.....______________.....---~~'',
      '''',
      '''',
      '''',
      '''']"

definition coin_frame_9 :: "char list" where
  "coin_frame_9 = frame
     ['''',
      '''',
      '''',
      '''',
      '''',
      ''          .......~~~~~~~~~~~~~~.......'',
      '' ,-~~~~~~~    ~~::~~~~~;;~~~~~::~~    ~~~~~`-.'',
      ''|~-.._____   ~~~~~~~~~~~~~~~~~~~~~~   _____,,-|'',
      '' ~-.._____~~~~~~~..............~~~~~~~_____,,-~'',
      ''          ~~~~~~~..............~~~~~~~'',
      '''',
      '''',
      '''',
      '''']"

definition coin_frame_10 :: "char list" where
  "coin_frame_10 = frame
     ['''',
      '''',
      '''',
      '''',
      '''',
      ''            ________________________'',
      '' ,---------~   ...::::::::::::::... `--------.'',
      ''|`----------________________________---------~|'',
      '' `----------________________________---------~'',
      '''',
      '''',
      '''',
      '''',
      '''']"

definition coin_frame_11 :: "char list" where
  "coin_frame_11 = frame
     ['''',
      '''',
      '''',
      '''',
      '''',
      '''',
      '' _____________________________________________'',
      ''|_____________________________________________|'',
      '''',
      '''',
      '''',
      '''',
      '''',
      '''']"

definition coin_frame_12 :: "char list" where
  "coin_frame_12 = frame
     ['''',
      '''',
      '''',
      '''',
      '''',
      ''            ________________________'',
      '' ,---------~________________________`--------.'',
      ''|,---------~                        `--------.|'',
      '' `----------________________________---------~'',
      '''',
      '''',
      '''',
      '''',
      '''']"

definition coin_frame_13 :: "char list" where
  "coin_frame_13 = frame
     ['''',
      '''',
      '''',
      '''',
      '''',
      ''          .......~~~~~~~~~~~~~~.......'',
      '' ,-~~~~~~~.......~~~~~~~~~~~~~~.......~~~~~`-.'',
      ''|,-~~~~~~~                            ~~~~~`-.|'',
      '' ~-.._____                            _____,,-~'',
      ''          ~~~~~~~..............~~~~~~~'',
      '''',
      '''',
      '''',
      '''']"

definition coin_frame_14 :: "char list" where
  "coin_frame_14 = frame
     ['''',
      '''',
      '''',
      '''',
      ''                 ______________'',
      ''    __,.,---~~~~~______________~~~~~---..._'',
      '' ,-~__,..---~~~~~              ~~~~~---..._`-.'',
      ''|,-~                                       `-.|'',
      '' ~-.._                                   __,,-'',
      ''      ~~`---.....______________.....---~~'',
      '''',
      '''',
      '''',
      '''']"

definition coin_frame_15 :: "char list" where
  "coin_frame_15 = frame
     ['''',
      '''',
      '''',
      ''                 ______________'',
      ''    __,.,---~~~~~______________~~~~~---..._'',
      '' ,-~__,.,---~~~~~              ~~~~~---..._`-.'',
      ''|,-~                                       `-.|'',
      ''|                                             |'',
      ''|                                             |'',
      '' ~-.._                                  __,,-~'',
      ''      ~~`---.....______________.....---~'',
      '''',
      '''',
      '''']"

definition coin_frame_16 :: "char list" where
  "coin_frame_16 = frame
     ['''',
      ''             ___.....-----.....___'',
      ''     _..--~~~___.....-----.....___~~~--.._'',
      ''  ,-~_..--~~~                     ~~~--.._`-.'',
      '' |,-~                                     `-.|'',
      '':~                                           ~:'',
      ''|                                             |'',
      ''|                                             |'',
      '':                                             :'',
      '' |                                           |'',
      ''  ~-._                                   _,-~'',
      ''      ~~--...___               ___...--~~'',
      ''                `````-----`````'',
      '''']"

definition coin_frame_17 :: "char list" where
  "coin_frame_17 = frame
     [''         __..--~````````````````--..__'',
      ''     .--~                             `--.'',
      ''   .~                                     ~.'',
      ''  :                                         :'',
      '' |                                           |'',
      '':                                             :'',
      ''|                                             |'',
      ''|                                             |'',
      '':                                             :'',
      '' |                                           |'',
      ''  :                                         :'',
      ''   ~.                                     .~'',
      ''     ~.._                             _..~'',
      ''         ``--.._________________..--~~'']"

definition coin_frame_18 :: "char list" where
  "coin_frame_18 = frame
     ['''',
      ''             ___.....-----.....___'',
      ''     _..--~~~                     ~~~--.._'',
      ''  ,-~                                     `-.'',
      '' |                                           |'',
      '':                                             :'',
      ''|                                             |'',
      ''|                                             |'',
      '':.                                           ,:'',
      '' |~-._                                   _,-~|'',
      ''  ~-._~~--...___               ___...--~~_,-~'',
      ''      ~~--...___`````-----`````___...--~~'',
      ''                `````-----`````'',
      '''']"

definition coin_frame_19 :: "char list" where
  "coin_frame_19 = frame
     ['''',
      '''',
      '''',
      ''                 ______________'',
      ''    __,.,---~~~~~              ~~~~~---..._'',
      '' ,-~                                       `-.'',
      ''|                                             |'',
      ''|                                             |'',
      ''|~-.._                                  __,,-~|'',
      '' ~-.._~~`---.....______________.....---~__,,-~'',
      ''      ~~`---.....______________.....---~'',
      '''',
      '''',
      '''']"

definition coin_frame_20 :: "char list" where
  "coin_frame_20 = frame
     ['''',
      '''',
      '''',
      '''',
      ''                 ______________'',
      ''    __,.,---~~~~~              ~~~~~---..._'',
      '' ,-~                                       `-.'',
      ''|~-.._                                   __,-~|'',
      '' ~-.._~~`---.....______________.....---~~__,,-'',
      ''      ~~`---.....______________.....---~~'',
      '''',
      '''',
      '''',
      '''']"

definition coin_frame_21 :: "char list" where
  "coin_frame_21 = frame
     ['''',
      '''',
      '''',
      '''',
      '''',
      ''          .......~~~~~~~~~~~~~~.......'',
      '' ,-~~~~~~~                            ~~~~~`-.'',
      ''|~-.._____                            _____,,-|'',
      '' ~-.._____~~~~~~~..............~~~~~~~_____,,-~'',
      ''          ~~~~~~~..............~~~~~~~'',
      '''',
      '''',
      '''',
      '''']"

definition coin_frame_22 :: "char list" where
  "coin_frame_22 = frame
     ['''',
      '''',
      '''',
      '''',
      '''',
      ''            ________________________'',
      '' ,---------~                        `--------.'',
      ''|,----------________________________---------.|'',
      '' `----------________________________---------~'',
      '''',
      '''',
      '''',
      '''',
      '''']"

definition coin_frame_23 :: "char list" where
  "coin_frame_23 = frame
     ['''',
      '''',
      '''',
      '''',
      '''',
      '''',
      '' _____________________________________________'',
      ''|_____________________________________________|'',
      '''',
      '''',
      '''',
      '''',
      '''',
      '''']"

definition coin_frames :: "char list list" where
  "coin_frames = [coin_frame_0, coin_frame_1, coin_frame_2, coin_frame_3, coin_frame_4, coin_frame_5, coin_frame_6, coin_frame_7, coin_frame_8, coin_frame_9, coin_frame_10, coin_frame_11, coin_frame_12, coin_frame_13, coin_frame_14, coin_frame_15, coin_frame_16, coin_frame_17, coin_frame_18, coin_frame_19, coin_frame_20, coin_frame_21, coin_frame_22, coin_frame_23]"

section \<open>The loop\<close>

datatype coin_event =
    Initscr
  | Newwin int int int int
  | Clear
  | Mvprintw int int "char list"
  | Mvwprintw int int "char list"
  | Refresh
  | Wrefresh
  | Move int int
  | Usleep nat

text \<open>Division of \<open>int\<close> in C, towards zero.\<close>

definition c_half :: "int \<Rightarrow> int" where
  "c_half v = (if v < 0 then - ((- v) div 2) else v div 2)"

text \<open>What a format string without arguments prints; a conversion would read a missing argument.\<close>

definition print_format :: "char list \<Rightarrow> char list c_result" where
  "print_format fmt = (if CHR 0x25 \<in> set fmt then Inl Uninitialised_Read else Inr fmt)"

definition coin_round :: "int \<Rightarrow> WORD \<Rightarrow> coin_event list c_result" where
  "coin_round y i =
     (let k = unat (i mod word_of_int coin_n_frames)
      in if k < length coin_frames then
           bind_c (print_format (coin_frames ! k)) (\<lambda>picture.
             Inr [Clear, Mvprintw 0 0 (print_int (int k)), Refresh, Mvwprintw 0 0 picture, Wrefresh,
                  Move (y - 1) 0, Refresh, Usleep 100000])
         else Inl Out_Of_Bounds)"

text \<open>The first \<open>n\<close> rounds; the counter has 32 bits and wraps around.\<close>

primrec coin_rounds :: "int \<Rightarrow> nat \<Rightarrow> coin_event list c_result" where
  "coin_rounds y 0 = Inr []"
| "coin_rounds y (Suc n) =
     bind_c (coin_rounds y n) (\<lambda>evs. bind_c (coin_round y (word_of_nat n)) (\<lambda>evs'. Inr (evs @ evs')))"

definition coin_main :: "int \<Rightarrow> int \<Rightarrow> nat \<Rightarrow> coin_event list c_result" where
  "coin_main y x n =
     bind_c (coin_rounds y n) (\<lambda>evs.
       Inr (Initscr # Newwin coin_height (coin_width + 1) 2 (c_half (x - coin_width)) # evs))"

section \<open>The pictures fit\<close>

text \<open>Lines that end in LF, cut at the line ends.\<close>

fun text_lines :: "char list \<Rightarrow> char list list" where
  "text_lines [] = []"
| "text_lines (c # cs) =
     (if c = LF then [] # text_lines cs
      else case text_lines cs of [] \<Rightarrow> [[c]] | l # ls \<Rightarrow> (c # l) # ls)"

definition fits :: "char list \<Rightarrow> bool" where
  "fits f \<longleftrightarrow> int (length (text_lines f)) = coin_height \<and> list_all (\<lambda>l. int (length l) \<le> coin_width) (text_lines f)
     \<and> last f = LF \<and> CHR 0x25 \<notin> set f"

text \<open>What to check of a list of lines.\<close>

definition plain :: "char list list \<Rightarrow> bool" where
  "plain ls \<longleftrightarrow> length ls = 14 \<and> list_all (\<lambda>l. length l \<le> 47 \<and> list_all (\<lambda>c. c \<noteq> LF \<and> c \<noteq> CHR 0x25) l) ls"

lemma length_art [simp]: "length (art l) = length l"
  by (simp add: art_def)

lemma art_chars: "c \<in> {LF, CHR 0x25} \<Longrightarrow> c \<in> set (art l) \<longleftrightarrow> c \<in> set l"
  by (auto simp: art_def image_iff)

lemma text_lines_cons: "LF \<notin> set l \<Longrightarrow> text_lines (l @ LF # r) = l # text_lines r"
  by (induction l) auto

lemma text_lines_frame: "\<forall>l \<in> set ls. LF \<notin> set l \<Longrightarrow> text_lines (frame ls) = map art ls"
  by (induction ls) (simp_all add: frame_def text_lines_cons art_chars)

lemma plain_fits: "plain ls \<Longrightarrow> fits (frame ls)"
proof -
  assume "plain ls"
  then have p: "length ls = 14" "\<forall>l \<in> set ls. length l \<le> 47" "\<forall>l \<in> set ls. LF \<notin> set l" "\<forall>l \<in> set ls. CHR 0x25 \<notin> set l"
    by (auto simp: plain_def list_all_iff)
  then have "last (frame ls) = LF"
    by (cases ls rule: rev_cases) (simp_all add: frame_def)
  moreover have "CHR 0x25 \<notin> set (frame ls)"
    using p(4) by (auto simp: frame_def art_chars)
  ultimately show ?thesis
    using p(1,2) by (simp add: fits_def text_lines_frame [OF p(3)] coin_height_def coin_width_def list_all_iff)
qed

lemma coin_frame_0_fits: "fits coin_frame_0"
  unfolding coin_frame_0_def by (rule plain_fits) (simp add: plain_def)

lemma coin_frame_1_fits: "fits coin_frame_1"
  unfolding coin_frame_1_def by (rule plain_fits) (simp add: plain_def)

lemma coin_frame_2_fits: "fits coin_frame_2"
  unfolding coin_frame_2_def by (rule plain_fits) (simp add: plain_def)

lemma coin_frame_3_fits: "fits coin_frame_3"
  unfolding coin_frame_3_def by (rule plain_fits) (simp add: plain_def)

lemma coin_frame_4_fits: "fits coin_frame_4"
  unfolding coin_frame_4_def by (rule plain_fits) (simp add: plain_def)

lemma coin_frame_5_fits: "fits coin_frame_5"
  unfolding coin_frame_5_def by (rule plain_fits) (simp add: plain_def)

lemma coin_frame_6_fits: "fits coin_frame_6"
  unfolding coin_frame_6_def by (rule plain_fits) (simp add: plain_def)

lemma coin_frame_7_fits: "fits coin_frame_7"
  unfolding coin_frame_7_def by (rule plain_fits) (simp add: plain_def)

lemma coin_frame_8_fits: "fits coin_frame_8"
  unfolding coin_frame_8_def by (rule plain_fits) (simp add: plain_def)

lemma coin_frame_9_fits: "fits coin_frame_9"
  unfolding coin_frame_9_def by (rule plain_fits) (simp add: plain_def)

lemma coin_frame_10_fits: "fits coin_frame_10"
  unfolding coin_frame_10_def by (rule plain_fits) (simp add: plain_def)

lemma coin_frame_11_fits: "fits coin_frame_11"
  unfolding coin_frame_11_def by (rule plain_fits) (simp add: plain_def)

lemma coin_frame_12_fits: "fits coin_frame_12"
  unfolding coin_frame_12_def by (rule plain_fits) (simp add: plain_def)

lemma coin_frame_13_fits: "fits coin_frame_13"
  unfolding coin_frame_13_def by (rule plain_fits) (simp add: plain_def)

lemma coin_frame_14_fits: "fits coin_frame_14"
  unfolding coin_frame_14_def by (rule plain_fits) (simp add: plain_def)

lemma coin_frame_15_fits: "fits coin_frame_15"
  unfolding coin_frame_15_def by (rule plain_fits) (simp add: plain_def)

lemma coin_frame_16_fits: "fits coin_frame_16"
  unfolding coin_frame_16_def by (rule plain_fits) (simp add: plain_def)

lemma coin_frame_17_fits: "fits coin_frame_17"
  unfolding coin_frame_17_def by (rule plain_fits) (simp add: plain_def)

lemma coin_frame_18_fits: "fits coin_frame_18"
  unfolding coin_frame_18_def by (rule plain_fits) (simp add: plain_def)

lemma coin_frame_19_fits: "fits coin_frame_19"
  unfolding coin_frame_19_def by (rule plain_fits) (simp add: plain_def)

lemma coin_frame_20_fits: "fits coin_frame_20"
  unfolding coin_frame_20_def by (rule plain_fits) (simp add: plain_def)

lemma coin_frame_21_fits: "fits coin_frame_21"
  unfolding coin_frame_21_def by (rule plain_fits) (simp add: plain_def)

lemma coin_frame_22_fits: "fits coin_frame_22"
  unfolding coin_frame_22_def by (rule plain_fits) (simp add: plain_def)

lemma coin_frame_23_fits: "fits coin_frame_23"
  unfolding coin_frame_23_def by (rule plain_fits) (simp add: plain_def)

lemma length_coin_frames [simp]: "length coin_frames = 24"
  by (simp add: coin_frames_def)

lemma frames_fit: "list_all fits coin_frames"
  by (simp add: coin_frames_def coin_frame_0_fits coin_frame_1_fits coin_frame_2_fits coin_frame_3_fits coin_frame_4_fits coin_frame_5_fits coin_frame_6_fits coin_frame_7_fits coin_frame_8_fits coin_frame_9_fits coin_frame_10_fits coin_frame_11_fits coin_frame_12_fits coin_frame_13_fits coin_frame_14_fits coin_frame_15_fits coin_frame_16_fits coin_frame_17_fits coin_frame_18_fits coin_frame_19_fits coin_frame_20_fits coin_frame_21_fits coin_frame_22_fits coin_frame_23_fits)

section \<open>Properties\<close>

text \<open>The pictures that are drawn.\<close>

definition pictures :: "coin_event list \<Rightarrow> char list list" where
  "pictures evs = concat (map (\<lambda>e. case e of Mvwprintw y x p \<Rightarrow> [p] | _ \<Rightarrow> []) evs)"

lemma pictures_append: "pictures (evs @ evs') = pictures evs @ pictures evs'"
  by (simp add: pictures_def)

lemma frame_index: "unat (word_of_nat n mod word_of_int coin_n_frames :: WORD) = n mod 2 ^ 32 mod 24"
  by (simp add: coin_n_frames_def unat_mod unat_of_nat)

lemma coin_round_picture:
  "\<exists>evs. coin_round y (word_of_nat n) = Inr evs \<and> pictures evs = [coin_frames ! (n mod 2 ^ 32 mod 24)]"
proof -
  have k: "n mod 2 ^ 32 mod 24 < length coin_frames"
    by simp
  then have "fits (coin_frames ! (n mod 2 ^ 32 mod 24))"
    using frames_fit by (meson list_all_length)
  then have "print_format (coin_frames ! (n mod 2 ^ 32 mod 24)) = Inr (coin_frames ! (n mod 2 ^ 32 mod 24))"
    by (simp add: fits_def print_format_def)
  with k show ?thesis
    by (simp only: coin_round_def frame_index Let_def if_True bind_c_simps) (simp add: pictures_def)
qed

lemma coin_rounds_pictures:
  "\<exists>evs. coin_rounds y n = Inr evs \<and> pictures evs = map (\<lambda>k. coin_frames ! (k mod 2 ^ 32 mod 24)) [0..<n]"
proof (induction n)
  case 0
  show ?case by (simp add: pictures_def)
next
  case (Suc n)
  then obtain evs where "coin_rounds y n = Inr evs" "pictures evs = map (\<lambda>k. coin_frames ! (k mod 2 ^ 32 mod 24)) [0..<n]"
    by blast
  moreover obtain evs' where "coin_round y (word_of_nat n) = Inr evs'" "pictures evs' = [coin_frames ! (n mod 2 ^ 32 mod 24)]"
    using coin_round_picture by blast
  ultimately show ?case
    by (simp add: pictures_append)
qed

text \<open>
  Property C38. The animation never reads outside the array of pictures and never passes a conversion
  to the library, however long it runs.  There are 24 pictures of 14 lines of at most 47 characters,
  which the window of 14 lines and 48 columns holds; the pictures are drawn in turn, the number of
  the round taken modulo \<open>2 ^ 32\<close> and then modulo 24.
\<close>

theorem coin_animation:
  "length coin_frames = nat coin_n_frames \<and> list_all fits coin_frames
    \<and> (\<exists>evs. coin_main y x n = Inr (Initscr # Newwin 14 48 2 (c_half (x - 47)) # evs)
        \<and> pictures evs = map (\<lambda>k. coin_frames ! (k mod 2 ^ 32 mod 24)) [0..<n])"
proof (intro conjI)
  obtain evs where "coin_rounds y n = Inr evs" "pictures evs = map (\<lambda>k. coin_frames ! (k mod 2 ^ 32 mod 24)) [0..<n]"
    using coin_rounds_pictures by blast
  then show "\<exists>evs. coin_main y x n = Inr (Initscr # Newwin 14 48 2 (c_half (x - 47)) # evs)
        \<and> pictures evs = map (\<lambda>k. coin_frames ! (k mod 2 ^ 32 mod 24)) [0..<n]"
    by (simp add: coin_main_def coin_height_def coin_width_def)
qed (simp_all add: coin_n_frames_def frames_fit)

end
