(* ===== verification/Spec2Isabelle.thy ===== *)
theory Spec2Isabelle
  imports System Abort Closing Searches Uint256_Test Sha256_Test Test_Clients Coin
begin

text \<open>
  A verification of bitcoin-server, a multithreaded TCP server that checks and searches
  proof-of-work solutions (C, under \<open>src/\<close>).

  \<^bold>\<open>The program.\<close>  \<open>main\<close> (\<open>driver.c\<close>) opens a socket, accepts up to 100 clients and starts a client
  thread for each.  A client thread (\<open>client_handler\<close> of \<open>handler.c\<close>) joins the bytes it reads to a
  buffer, takes the commands that end in CR LF out of it, and starts a command thread for each, at
  most 20 at a time.  PING, PONG, OKAY, ERRO, SLEP and unknown commands are answered at once.  SOLN is
  checked: the double SHA-256 digest of seed and nonce must be below the target that the difficulty
  stands for.  WORK asks the server to find such a nonce: at most 10 WORKs are accepted in the whole
  server, at most three are searched at a time for a client, each by several batch threads, and the
  answers leave in the order of the WORKs.  ABRT cancels the WORKs of a client.  Everything is logged.

  \<^bold>\<open>Conventions.\<close>  Fixed-width integers are words, and \<open>int\<close> is \<^typ>\<open>int\<close> with explicit overflow
  faults where an overflow is possible.  A computation that can run into something the C standard
  leaves undefined has the type \<^typ>\<open>'a c_result\<close>: the fault on the left or the value on the right.
  Uninitialised memory is a list of optional cells.  Output is a list of events.  What the operating
  system supplies is a parameter: the clock, the addresses and the byte order of the host, the results
  of the system calls, the bytes that each \<open>read\<close> returns, the addresses that \<open>malloc\<close> returns, and the
  scheduling of the threads.  Two buffers of \<open>logger_log\<close> and the array \<open>raw_seed\<close> are too small for
  what the code stores in them; to say what the program does when the bytes behind them are not in
  use, the environment of \<^theory_text>\<open>Messages\<close> has the fields \<open>heap_slack\<close> and \<open>stack_slack\<close>, the numbers
  of such bytes.  With both 0 the model is that of the standard, and the overruns are faults.
  Theorems about answers assume \<^const>\<open>safe_env\<close>, one and eight such bytes.

  \<^bold>\<open>Theories.\<close>  Each follows the order of the code it models.

  \<^item> \<open>Prelude\<close>: machine types, faults, byte arrays and the numbers they stand for, C library copies,
    and the locale \<open>step_invariant\<close> for invariants of step relations, which is interpreted for the
    threads of a client (permits, turns, works, slots, cleanup, calm, abrt, asked, pipe), for the clients of the
    server and for the whole server; the locale \<open>draining\<close> for steps that use up work.
  \<^item> \<open>Uint256\<close> (\<open>uint256.h\<close>): shift, addition, multiplication and power over a store of 32-byte
    arrays, with the aliasing of the callers.  The routines carry in the wrong direction; the lemmas
    show on which inputs they are right, which include all that the target needs, and give inputs on
    which they are not.
  \<^item> \<open>Sha256\<close> (\<open>sha256.c\<close>, \<open>sha256.h\<close>): macros, table, context, transform, padding, comparison; a
    statement of FIPS 180-4, and that hashing with the code gives its digest for every message below
    \<open>2 ^ 32\<close> bytes.
  \<^item> \<open>C_Text\<close>: C strings, \<open>sscanf\<close> conversions and \<open>printf\<close> formats that the code uses.
  \<^item> \<open>Pow\<close> (\<open>handler_helper.c\<close> from \<open>byte_print\<close> on): hexadecimal input and output, target, hashed
    block and the check of a nonce, with the byte order of the host as a parameter.
  \<^item> \<open>Cmd_Buffer\<close> (\<open>has_command\<close>, \<open>get_command\<close>, \<open>join_client_command\<close> and the loop of \<open>client_handler\<close>
    around them): the locales \<open>command_buffer\<close> and \<open>buffer_client\<close> state what the loop needs of a
    buffer and what it achieves; the code is an interpretation.  The loop takes as fuel one more than
    the number of reads, which is enough because every iteration takes all commands of the buffer.
  \<^item> \<open>Messages\<close> (\<open>logger_log\<close>, \<open>send_message\<close>, \<open>send_formatted\<close>) and \<open>Handler\<close> (the dispatch of
    \<open>client_handler\<close>, the simple handlers, \<open>soln_handler\<close>).
  \<^item> \<open>Work\<close> (\<open>work_handler.c\<close>): reading the parameters, the ranges of the batches, the search of the
    batches as interleaved atomic steps (test of the shared solution and of the range, test of a nonce,
    critical section), cancellation by flag and by \<open>pthread_cancel\<close>, and the answer.
  \<^item> \<open>Tid_Queue\<close> (\<open>push_tid\<close>, \<open>get_tid\<close>, \<open>rm_tid\<close>, \<open>print_queue\<close>): the linked list in a heap as an
    interpretation of the locale \<open>fifo_queue\<close>.  \<open>Thread_Pool\<close> (\<open>threads.c\<close>): the flags as an
    interpretation of the locale \<open>slot_pool\<close>, for the command threads and for the clients.
  \<^item> \<open>Client\<close>: one connection with its threads as a step relation: taking a slot, waiting for its
    previous thread, the life of a WORK (semaphore, search, turn in the queue, answer, cleanup), the
    wrapper, ABRT, and the end of the connection.  \<open>do_step\<close> is the relation as a function of a label,
    so that schedules can be run; it is shown to be the same relation.
  \<^item> \<open>Progress\<close>: the steps of the started threads of a connection as an interpretation of \<open>draining\<close>.
    The work left is the sum over the 20 slots of the number of steps that a thread in its phase
    still has before it, at most 7 each.  \<open>Closing\<close>: the end of a connection in the same way, with
    the slots that the client thread has still to look at.
  \<^item> \<open>Abort\<close>: the loop of \<open>abrt_handler\<close> memory access by memory access, over the heap of \<open>Tid_Queue\<close> and
    interleaved with the steps of \<open>Client\<close>; the linked list follows the queue of \<open>Client\<close> in all
    reachable states.
  \<^item> \<open>Searches\<close>: the threads of a connection together with the batches of all their searches, where a
    WORK goes on only when its batches have published a nonce, and its cleanup stops, cancels and joins
    them one by one; every step is one of \<open>Client\<close> or one of \<open>Work\<close>.  It is \<open>draining\<close> with the work of
    \<open>Progress\<close> and the nonces that the batches have still to try.
  \<^item> \<open>Server\<close>: an iteration of the loop of \<open>main\<close> and the end of a connection.  \<open>System\<close>: \<open>main\<close> and
    all connections interleaved over the shared number of WORKs.
  \<^item> \<open>Session\<close>: a command from its bytes to the bytes of its answer, against a protocol that is stated
    on its own, and that starting a command is a step of the thread model.  \<open>Known_Answers\<close>: digests
    evaluated, and the first sample of the repository.
  \<^item> \<open>Startup\<close> (\<open>main\<close> up to its loop, \<open>netsock.c\<close>, \<open>init_logger\<close>, \<open>print_welcome\<close>, \<open>close_logger\<close>, the
    signal handlers).
  \<^item> \<open>Uint256_Test\<close> (\<open>uint256_test.c\<close>), \<open>Sha256_Test\<close> (\<open>crypto/sha256_test.c\<close>): the test programs on the
    models of what they test.  \<open>Test_Clients\<close> (\<open>output/client.c\<close>, \<open>output/ultimate.c\<close>): the client
    programs, whose streams go through \<open>Cmd_Buffer\<close> and \<open>Session\<close>.  \<open>Coin\<close> (\<open>coin/\<close>): the animation.

  \<^bold>\<open>What is shown.\<close>

  \<^item> Proof of work: the digest is that of the standard; the target is \<open>\<beta> * 256 ^ (\<alpha> - 3)\<close>; a nonce is
    accepted exactly when the double digest is below the target; hexadecimal input reads back what was
    printed.
  \<^item> Service: for every way the stream of a client is cut into reads, exactly its commands are
    recovered, without memory fault, and each is answered as the protocol says; a WORK is answered with
    a nonce that solves the puzzle, is not below the requested one, and is accepted when it is sent back.
  \<^item> Search: for every interleaving of the batches a published solution is valid and never replaced;
    the ranges of the batches cover the whole range without overlap; the search ends; when it ends
    without solution there is none, nonce 0 apart.
  \<^item> Threads: answers in the order of acceptance, at most three searches and 20 threads for a client,
    100 clients with distinct slots and at most 10 counted WORKs in the server; slot numbers stay within
    the arrays; the linked list implements the queue of the thread model; the cleanup of a connection
    leaves no thread in a slot that is marked as taken.  Without cancellation there is no deadlock:
    the threads of a client stop after at most 140 steps with every accepted WORK answered.  With
    the batches in the picture, every WORK that has a solution is answered with one, in any
    interleaving.  The cleanup of a connection with at most one WORK ends.
  \<^item> Start: it returns exactly when the system calls succeed at some time, and on the right port.
  \<^item> Tests, clients and animation: the assertions of the arithmetic test hold; the test of SHA-256
    passes on its first two messages; the lines of the client programs are the commands that the
    server starts; the animation stays within its pictures, which fit its window.
  \<^item> Flaws, each as a theorem about the same definitions: cancelled searches lose their permit, so that
    a client can starve; updates of the number of WORKs can be lost, so that it can be wrong in both
    directions; ABRT can read a freed node of the queue; a slot is freed twice; the cleanup of a
    connection can miss a thread or wait for ever, already with two WORKs, which takes a slot of the
    server; a WORK with zero threads divides by zero; a WORK without solution is never answered, nor
    is any WORK that its client sends after it; overruns of three buffers; unchecked conversions;
    nonces for which the test of the byte order fails; wrong carries of the 256-bit arithmetic.

  \<^bold>\<open>Granularity.\<close>  A function that holds a mutex from its first to its last access of the shared state
  is one step.  \<open>abrt_handler\<close>, which walks over the queue without the mutex, is one step in \<open>Client\<close>;
  \<open>Abort\<close> has its memory accesses one by one and shows that the walk without interference is that
  step.  The decrement of the number of WORKs is two steps.  A search is one step that succeeds in
  \<open>Client\<close>, and steps of its batches in \<open>Work\<close> and \<open>Searches\<close>; the batches of a search are created in one
  step.  The decrement of the displayed number of clients is one step with the rest of the cleanup.
  A thread that survives the cleanup of its connection goes on in the model, where the C program uses
  freed memory.

  \<^bold>\<open>Not modelled.\<close>  Output under \<open>DEBUG\<close> and \<open>LOG_OUTPUT\<close>, which are 0; the frees, since the models of
  the operations that allocate do not reuse memory, except in the queue; a failing \<open>malloc\<close>, \<open>write\<close> or
  \<open>pthread_create\<close>, which the server ignores (a failing \<open>write\<close> of the client programs is modelled); the
  digest of the third message of \<open>crypto/sha256_test.c\<close>, whose million bytes are too many to evaluate;
  the screen library of \<open>coin/\<close>, whose calls are events.
\<close>

end
